(* ===== verification/Prelude.thy ===== *)
theory Prelude
  imports Main "HOL-Library.Word"
begin

text \<open>
  Shared vocabulary of the development: the machine types of the C sources, the arithmetic of
  \<open>size_t\<close> with its wrap-around written out, stores into byte buffers, and the generic facts on
  lists and words that the component theories build on.
\<close>

unbundle bit_operations_syntax

section \<open>Types\<close>

type_synonym byte = "8 word"
type_synonym u16 = "16 word"
type_synonym u32 = "32 word"
type_synonym u64 = "64 word"
type_synonym bytes = "byte list"

text \<open>
  \<open>malloc\<close> is the allocator: \<open>al n\<close> says whether a request for \<open>n\<close> bytes is granted. Every
  operation that allocates takes it as an argument, so that an allocation failure is a branch of
  the model and not an assumption.
\<close>

type_synonym allocator = "nat \<Rightarrow> bool"

named_theorems size_arith \<open>\<open>size_t\<close> arithmetic that does not wrap\<close>
named_theorems buf_simps \<open>stores into byte buffers\<close>

section \<open>\<open>size_t\<close>\<close>

definition SIZE_MAX :: nat where
  "SIZE_MAX = 2 ^ 64 - 1"

definition size_add :: "nat \<Rightarrow> nat \<Rightarrow> nat" where
  "size_add a b = (a + b) mod 2 ^ 64"

definition size_sub :: "nat \<Rightarrow> nat \<Rightarrow> nat" where
  "size_sub a b = (if b \<le> a then a - b else 2 ^ 64 - (b - a))"

lemma size_sub_le [size_arith]: "b \<le> a \<Longrightarrow> size_sub a b = a - b"
  by (simp add: size_sub_def)

lemma size_add_le [size_arith]: "a + b \<le> SIZE_MAX \<Longrightarrow> size_add a b = a + b"
  by (simp add: size_add_def SIZE_MAX_def)

section \<open>Stores into buffers\<close>

text \<open>
  \<open>store_at bs off ds\<close> writes the elements of \<open>ds\<close> one after the other from \<open>bs + off\<close> on, as
  \<open>*out++ = d\<close> does. The length of the buffer never changes, and a write past its end, undefined
  in C, has no effect; the components prove that theirs are inside.
\<close>

primrec store_at :: "'a list \<Rightarrow> nat \<Rightarrow> 'a list \<Rightarrow> 'a list" where
  "store_at bs off [] = bs"
| "store_at bs off (d # ds) = store_at (bs[off := d]) (Suc off) ds"

lemma length_store_at [simp]: "length (store_at bs off ds) = length bs"
  by (induction ds arbitrary: bs off) simp_all

lemma nth_store_at:
  "i < length bs \<Longrightarrow>
     store_at bs off ds ! i = (if off \<le> i \<and> i < off + length ds then ds ! (i - off) else bs ! i)"
proof (induction ds arbitrary: bs off)
  case (Cons d ds)
  then show ?case
    by (cases "i = off") (auto simp: nth_Cons')
qed auto

declare store_at.simps(2) [simp del]

lemma store_at_eq:
  "off + length ds \<le> length bs \<Longrightarrow> store_at bs off ds = take off bs @ ds @ drop (off + length ds) bs"
  by (rule nth_equalityI) (auto simp: nth_store_at nth_append)

lemma store_at_append: "store_at bs off (xs @ ys) = store_at (store_at bs off xs) (off + length xs) ys"
  by (rule nth_equalityI) (auto simp: nth_store_at nth_append)

lemma store_at_again [buf_simps]:
  "length ds = length es \<Longrightarrow> store_at (store_at bs off ds) off es = store_at bs off es"
  by (rule nth_equalityI) (auto simp: nth_store_at)

lemma store_at_commute:
  "off + length ds \<le> off' \<Longrightarrow>
     store_at (store_at bs off ds) off' es = store_at (store_at bs off' es) off ds"
  by (rule nth_equalityI) (auto simp: nth_store_at)

lemma store_at_covered [buf_simps]:
  "off' \<le> off \<Longrightarrow> off + length ds \<le> off' + length es \<Longrightarrow>
     store_at (store_at bs off ds) off' es = store_at bs off' es"
  by (rule nth_equalityI) (auto simp: nth_store_at)

lemma take_store_at_before [buf_simps]: "n \<le> off \<Longrightarrow> take n (store_at bs off ds) = take n bs"
  by (rule nth_equalityI) (auto simp: nth_store_at)

lemma drop_store_at_after [buf_simps]:
  "off + length ds \<le> n \<Longrightarrow> drop n (store_at bs off ds) = drop n bs"
  by (rule nth_equalityI) (auto simp: nth_store_at)

lemma take_store_at_end [buf_simps]:
  "n = off + length ds \<Longrightarrow> n \<le> length bs \<Longrightarrow> take n (store_at bs off ds) = take off bs @ ds"
  by (simp add: store_at_eq)

lemma take_drop_store_at [buf_simps]:
  "n = length ds \<Longrightarrow> off + n \<le> length bs \<Longrightarrow> take n (drop off (store_at bs off ds)) = ds"
  by (simp add: store_at_eq)

section \<open>Lists\<close>

lemma length_concat_const:
  "\<forall>x \<in> set xs. length x = n \<Longrightarrow> length (concat xs) = length xs * n"
  by (induction xs) simp_all

lemma upt_Suc_first: "[i..<i + Suc n] = i # [Suc i..<Suc i + n]"
  by (simp add: upt_conv_Cons del: upt_Suc)

section \<open>Words as byte sequences\<close>

lemma unat_byte_less: "unat (b :: byte) < 256"
  by (rule less_le_trans [OF unsigned_less]) simp

lemma ucast_and_0xff [simp]: "(ucast (x AND 0xff) :: byte) = ucast (x :: 'a::len word)"
proof -
  have "x AND 0xff = take_bit 8 x"
    by (simp add: take_bit_eq_mask mask_eq_exp_minus_1)
  then show ?thesis
    by (auto intro!: bit_word_eqI simp: bit_simps)
qed

text \<open>The number a byte sequence denotes in network order.\<close>

definition be_value :: "bytes \<Rightarrow> nat" where
  "be_value bs = foldl (\<lambda>a b. a * 256 + unat b) 0 bs"

lemma be_value_Nil [simp]: "be_value [] = 0"
  by (simp add: be_value_def)

lemma be_value_snoc [simp]: "be_value (bs @ [b]) = be_value bs * 256 + unat b"
  by (simp add: be_value_def)

lemma be_value_singleton [simp]: "be_value [b] = unat b"
  by (simp add: be_value_def)

lemma be_value_less: "be_value bs < 256 ^ length bs"
proof (induction bs rule: rev_induct)
  case (snoc b bs)
  have "unat b < 256"
    by (rule unat_byte_less)
  moreover have "be_value bs * 256 + 256 \<le> 256 ^ length bs * 256"
    using snoc.IH by (simp add: Suc_leI flip: mult_Suc_right add_mult_distrib)
  ultimately show ?case
    by (simp add: mult.commute)
qed simp

lemma unat_ucast_byte: "8 \<le> LENGTH('a) \<Longrightarrow> unat (ucast (b :: byte) :: 'a::len word) = unat b"
  by (simp add: unsigned_ucast_eq take_bit_nat_eq_self_iff less_le_trans [OF unat_byte_less]
      power_increasing [of 8 _ "2 :: nat", simplified])

text \<open>Appending a byte below a word, as the readers of multi-byte integers do.\<close>

lemma push_byte_or:
  fixes w :: "'a::len word"
  assumes w: "unat w * 256 < 2 ^ LENGTH('a)" and len: "8 < LENGTH('a)"
  shows "unat (push_bit 8 w OR ucast (b :: byte)) = unat w * 256 + unat b"
proof -
  have disj: "push_bit 8 w AND ucast b = 0"
    by (rule bit_word_eqI) (use len in \<open>auto simp: bit_simps dest: bit_imp_le_length\<close>)
  have push: "unat (push_bit 8 w) = unat w * 256"
    using w by (simp add: unsigned_push_bit_eq take_bit_nat_eq_self_iff push_bit_nat_def flip: push_bit_eq_mult)
  have ub: "unat (ucast b :: 'a word) = unat b"
    using len by (simp add: unat_ucast_byte)
  have "256 dvd (2 :: nat) ^ LENGTH('a)"
    using len le_imp_power_dvd [of 8 "LENGTH('a)" "2 :: nat"] by simp
  then have "unat w * 256 + unat b < 2 ^ LENGTH('a)"
    using w unat_byte_less [of b] by (auto elim: dvdE)
  moreover have "push_bit 8 w OR ucast b = push_bit 8 w + ucast b"
    using disj by (simp add: disjunctive_add_eq_or)
  ultimately show ?thesis
    by (simp add: unat_word_ariths push ub)
qed

end
