(* ===== verification/Slh_Params.thy ===== *)
theory Slh_Params
  imports Prelude
begin

text \<open>
  The parameter sets of \<open>crypto/slh_dsa/slh_params.c\<close> (FIPS 205, section 11) and the facts on them
  that the proofs of the scheme use: they hold for each of the twelve sets and for nothing else.
\<close>

section \<open>The table\<close>

record slh_dsa_params =
  sp_alg :: string
  sp_type :: nat
  sp_is_shake :: bool
  sp_n :: nat
  sp_h :: nat
  sp_d :: nat
  sp_hm :: nat
  sp_a :: nat
  sp_k :: nat
  sp_m :: nat
  sp_security_category :: nat
  sp_pk_len :: nat
  sp_sig_len :: nat
  sp_sha2_h_and_t_bound :: nat

definition OSSL_SLH_DSA_SHA2_NUM_ZEROS_H_AND_T_BOUND1 :: nat where
  "OSSL_SLH_DSA_SHA2_NUM_ZEROS_H_AND_T_BOUND1 = 64"

definition OSSL_SLH_DSA_SHA2_NUM_ZEROS_H_AND_T_BOUND2 :: nat where
  "OSSL_SLH_DSA_SHA2_NUM_ZEROS_H_AND_T_BOUND2 = 128"

text \<open>\<open>OSSL_SLH_PARAMS(name)\<close>, one function per name, with the remaining columns as arguments.\<close>

definition OSSL_SLH_PARAMS_128S :: "string \<Rightarrow> nat \<Rightarrow> bool \<Rightarrow> nat \<Rightarrow> slh_dsa_params" where
  "OSSL_SLH_PARAMS_128S alg type is_shake bound =
     \<lparr>sp_alg = alg, sp_type = type, sp_is_shake = is_shake, sp_n = 16, sp_h = 7 * 9, sp_d = 7,
      sp_hm = 9, sp_a = 12, sp_k = 14, sp_m = 30, sp_security_category = 1, sp_pk_len = 32,
      sp_sig_len = 7856, sp_sha2_h_and_t_bound = bound\<rparr>"

definition OSSL_SLH_PARAMS_128F :: "string \<Rightarrow> nat \<Rightarrow> bool \<Rightarrow> nat \<Rightarrow> slh_dsa_params" where
  "OSSL_SLH_PARAMS_128F alg type is_shake bound =
     \<lparr>sp_alg = alg, sp_type = type, sp_is_shake = is_shake, sp_n = 16, sp_h = 22 * 3, sp_d = 22,
      sp_hm = 3, sp_a = 6, sp_k = 33, sp_m = 34, sp_security_category = 1, sp_pk_len = 32,
      sp_sig_len = 17088, sp_sha2_h_and_t_bound = bound\<rparr>"

definition OSSL_SLH_PARAMS_192S :: "string \<Rightarrow> nat \<Rightarrow> bool \<Rightarrow> nat \<Rightarrow> slh_dsa_params" where
  "OSSL_SLH_PARAMS_192S alg type is_shake bound =
     \<lparr>sp_alg = alg, sp_type = type, sp_is_shake = is_shake, sp_n = 24, sp_h = 7 * 9, sp_d = 7,
      sp_hm = 9, sp_a = 14, sp_k = 17, sp_m = 39, sp_security_category = 3, sp_pk_len = 48,
      sp_sig_len = 16224, sp_sha2_h_and_t_bound = bound\<rparr>"

definition OSSL_SLH_PARAMS_192F :: "string \<Rightarrow> nat \<Rightarrow> bool \<Rightarrow> nat \<Rightarrow> slh_dsa_params" where
  "OSSL_SLH_PARAMS_192F alg type is_shake bound =
     \<lparr>sp_alg = alg, sp_type = type, sp_is_shake = is_shake, sp_n = 24, sp_h = 22 * 3, sp_d = 22,
      sp_hm = 3, sp_a = 8, sp_k = 33, sp_m = 42, sp_security_category = 3, sp_pk_len = 48,
      sp_sig_len = 35664, sp_sha2_h_and_t_bound = bound\<rparr>"

definition OSSL_SLH_PARAMS_256S :: "string \<Rightarrow> nat \<Rightarrow> bool \<Rightarrow> nat \<Rightarrow> slh_dsa_params" where
  "OSSL_SLH_PARAMS_256S alg type is_shake bound =
     \<lparr>sp_alg = alg, sp_type = type, sp_is_shake = is_shake, sp_n = 32, sp_h = 8 * 8, sp_d = 8,
      sp_hm = 8, sp_a = 14, sp_k = 22, sp_m = 47, sp_security_category = 5, sp_pk_len = 64,
      sp_sig_len = 29792, sp_sha2_h_and_t_bound = bound\<rparr>"

definition OSSL_SLH_PARAMS_256F :: "string \<Rightarrow> nat \<Rightarrow> bool \<Rightarrow> nat \<Rightarrow> slh_dsa_params" where
  "OSSL_SLH_PARAMS_256F alg type is_shake bound =
     \<lparr>sp_alg = alg, sp_type = type, sp_is_shake = is_shake, sp_n = 32, sp_h = 17 * 4, sp_d = 17,
      sp_hm = 4, sp_a = 9, sp_k = 35, sp_m = 49, sp_security_category = 5, sp_pk_len = 64,
      sp_sig_len = 49856, sp_sha2_h_and_t_bound = bound\<rparr>"

definition slh_dsa_params_table :: "slh_dsa_params list" where
  "slh_dsa_params_table =
     [OSSL_SLH_PARAMS_128S ''SLH-DSA-SHA2-128s'' 1460 False
        OSSL_SLH_DSA_SHA2_NUM_ZEROS_H_AND_T_BOUND1,
      OSSL_SLH_PARAMS_128S ''SLH-DSA-SHAKE-128s'' 1466 True 0,
      OSSL_SLH_PARAMS_128F ''SLH-DSA-SHA2-128f'' 1461 False
        OSSL_SLH_DSA_SHA2_NUM_ZEROS_H_AND_T_BOUND1,
      OSSL_SLH_PARAMS_128F ''SLH-DSA-SHAKE-128f'' 1467 True 0,
      OSSL_SLH_PARAMS_192S ''SLH-DSA-SHA2-192s'' 1462 False
        OSSL_SLH_DSA_SHA2_NUM_ZEROS_H_AND_T_BOUND2,
      OSSL_SLH_PARAMS_192S ''SLH-DSA-SHAKE-192s'' 1468 True 0,
      OSSL_SLH_PARAMS_192F ''SLH-DSA-SHA2-192f'' 1463 False
        OSSL_SLH_DSA_SHA2_NUM_ZEROS_H_AND_T_BOUND2,
      OSSL_SLH_PARAMS_192F ''SLH-DSA-SHAKE-192f'' 1469 True 0,
      OSSL_SLH_PARAMS_256S ''SLH-DSA-SHA2-256s'' 1464 False
        OSSL_SLH_DSA_SHA2_NUM_ZEROS_H_AND_T_BOUND2,
      OSSL_SLH_PARAMS_256S ''SLH-DSA-SHAKE-256s'' 1470 True 0,
      OSSL_SLH_PARAMS_256F ''SLH-DSA-SHA2-256f'' 1465 False
        OSSL_SLH_DSA_SHA2_NUM_ZEROS_H_AND_T_BOUND2,
      OSSL_SLH_PARAMS_256F ''SLH-DSA-SHAKE-256f'' 1471 True 0]"

definition ossl_slh_dsa_params_get :: "string option \<Rightarrow> slh_dsa_params option" where
  "ossl_slh_dsa_params_get alg =
     (case alg of None \<Rightarrow> None | Some a \<Rightarrow> find (\<lambda>p. sp_alg p = a) slh_dsa_params_table)"

lemmas slh_params_defs = OSSL_SLH_PARAMS_128S_def OSSL_SLH_PARAMS_128F_def OSSL_SLH_PARAMS_192S_def
  OSSL_SLH_PARAMS_192F_def OSSL_SLH_PARAMS_256S_def OSSL_SLH_PARAMS_256F_def
  OSSL_SLH_DSA_SHA2_NUM_ZEROS_H_AND_T_BOUND1_def OSSL_SLH_DSA_SHA2_NUM_ZEROS_H_AND_T_BOUND2_def

section \<open>What holds of every set\<close>

text \<open>The relations of FIPS 205 between the columns, and the ranges that the C code relies on.\<close>

definition slh_params_ok :: "slh_dsa_params \<Rightarrow> bool" where
  "slh_params_ok p \<longleftrightarrow>
     sp_n p \<in> {16, 24, 32} \<and> sp_h p = sp_d p * sp_hm p \<and> 0 < sp_hm p \<and> sp_hm p \<le> 9 \<and> 0 < sp_d p \<and>
     sp_d p \<le> 22 \<and> sp_h p - sp_hm p \<le> 64 \<and> 0 < sp_h p - sp_hm p \<and>
     0 < sp_a p \<and> sp_a p \<le> 14 \<and> 0 < sp_k p \<and> sp_k p \<le> 35 \<and> sp_k p * sp_a p < 2 ^ 9 \<and>
     sp_m p \<le> 49 \<and>
     sp_m p = (sp_k p * sp_a p + 7) div 8 + (sp_h p - sp_hm p + 7) div 8 + (sp_hm p + 7) div 8 \<and>
     sp_pk_len p = 2 * sp_n p \<and>
     sp_sig_len p = sp_n p + sp_k p * (1 + sp_a p) * sp_n p
                      + sp_d p * ((2 * sp_n p + 3) * sp_n p + sp_hm p * sp_n p) \<and>
     (\<not> sp_is_shake p \<longrightarrow> sp_sha2_h_and_t_bound p =
        (if sp_security_category p = 1 then 64 else 128)) \<and>
     (sp_security_category p = 1 \<longleftrightarrow> sp_n p = 16)"

lemma slh_params_n: "slh_params_ok p \<Longrightarrow> 0 < sp_n p \<and> sp_n p \<le> 32"
proof -
  assume "slh_params_ok p"
  then have "sp_n p \<in> {16, 24, 32}"
    unfolding slh_params_ok_def by (rule conjunct1)
  then show ?thesis by auto
qed

lemma slh_params_table_ok: "p \<in> set slh_dsa_params_table \<Longrightarrow> slh_params_ok p"
proof -
  have "list_all slh_params_ok slh_dsa_params_table"
    by (simp add: slh_dsa_params_table_def slh_params_defs slh_params_ok_def)
  then show "p \<in> set slh_dsa_params_table \<Longrightarrow> slh_params_ok p"
    by (simp add: list_all_iff)
qed

lemma slh_params_get_ok: "ossl_slh_dsa_params_get alg = Some p \<Longrightarrow> slh_params_ok p"
  using slh_params_table_ok
  by (auto simp: ossl_slh_dsa_params_get_def find_Some_iff split: option.splits)

end
