(* ===== verification/Byteorder.thy ===== *)
theory Byteorder
  imports Prelude
begin

text \<open>
  The loads and stores of \<open>include/openssl/byteorder.h\<close>. A pointer into a buffer is the buffer
  with an offset; a store returns the buffer and the offset past the bytes written, a load the
  value and the offset past the bytes read.
\<close>

definition OPENSSL_store_u16_le :: "bytes \<Rightarrow> nat \<Rightarrow> u16 \<Rightarrow> bytes \<times> nat" where
  "OPENSSL_store_u16_le out off val =
     (store_at out off [ucast (val AND 0xff), ucast (drop_bit 8 val AND 0xff)], off + 2)"

definition OPENSSL_store_u16_be :: "bytes \<Rightarrow> nat \<Rightarrow> u16 \<Rightarrow> bytes \<times> nat" where
  "OPENSSL_store_u16_be out off val =
     (store_at out off [ucast (drop_bit 8 val AND 0xff), ucast (val AND 0xff)], off + 2)"

definition OPENSSL_store_u32_le :: "bytes \<Rightarrow> nat \<Rightarrow> u32 \<Rightarrow> bytes \<times> nat" where
  "OPENSSL_store_u32_le out off val =
     (store_at out off [ucast (val AND 0xff), ucast (drop_bit 8 val AND 0xff),
        ucast (drop_bit 16 val AND 0xff), ucast (drop_bit 24 val AND 0xff)], off + 4)"

definition OPENSSL_store_u32_be :: "bytes \<Rightarrow> nat \<Rightarrow> u32 \<Rightarrow> bytes \<times> nat" where
  "OPENSSL_store_u32_be out off val =
     (store_at out off [ucast (drop_bit 24 val AND 0xff), ucast (drop_bit 16 val AND 0xff),
        ucast (drop_bit 8 val AND 0xff), ucast (val AND 0xff)], off + 4)"

definition OPENSSL_store_u64_le :: "bytes \<Rightarrow> nat \<Rightarrow> u64 \<Rightarrow> bytes \<times> nat" where
  "OPENSSL_store_u64_le out off val =
     (store_at out off [ucast (val AND 0xff), ucast (drop_bit 8 val AND 0xff),
        ucast (drop_bit 16 val AND 0xff), ucast (drop_bit 24 val AND 0xff),
        ucast (drop_bit 32 val AND 0xff), ucast (drop_bit 40 val AND 0xff),
        ucast (drop_bit 48 val AND 0xff), ucast (drop_bit 56 val AND 0xff)], off + 8)"

definition OPENSSL_store_u64_be :: "bytes \<Rightarrow> nat \<Rightarrow> u64 \<Rightarrow> bytes \<times> nat" where
  "OPENSSL_store_u64_be out off val =
     (store_at out off [ucast (drop_bit 56 val AND 0xff), ucast (drop_bit 48 val AND 0xff),
        ucast (drop_bit 40 val AND 0xff), ucast (drop_bit 32 val AND 0xff),
        ucast (drop_bit 24 val AND 0xff), ucast (drop_bit 16 val AND 0xff),
        ucast (drop_bit 8 val AND 0xff), ucast (val AND 0xff)], off + 8)"

definition OPENSSL_load_u16_le :: "bytes \<Rightarrow> nat \<Rightarrow> u16 \<times> nat" where
  "OPENSSL_load_u16_le inp off =
     (let b0 = ucast (inp ! off); b1 = ucast (inp ! (off + 1))
      in (b0 OR push_bit 8 b1, off + 2))"

definition OPENSSL_load_u16_be :: "bytes \<Rightarrow> nat \<Rightarrow> u16 \<times> nat" where
  "OPENSSL_load_u16_be inp off =
     (let b1 = ucast (inp ! off); b0 = ucast (inp ! (off + 1))
      in (b0 OR push_bit 8 b1, off + 2))"

definition OPENSSL_load_u32_le :: "bytes \<Rightarrow> nat \<Rightarrow> u32 \<times> nat" where
  "OPENSSL_load_u32_le inp off =
     (let b0 = ucast (inp ! off); b1 = ucast (inp ! (off + 1));
          b2 = ucast (inp ! (off + 2)); b3 = ucast (inp ! (off + 3))
      in (b0 OR push_bit 8 b1 OR push_bit 16 b2 OR push_bit 24 b3, off + 4))"

definition OPENSSL_load_u32_be :: "bytes \<Rightarrow> nat \<Rightarrow> u32 \<times> nat" where
  "OPENSSL_load_u32_be inp off =
     (let b3 = ucast (inp ! off); b2 = ucast (inp ! (off + 1));
          b1 = ucast (inp ! (off + 2)); b0 = ucast (inp ! (off + 3))
      in (b0 OR push_bit 8 b1 OR push_bit 16 b2 OR push_bit 24 b3, off + 4))"

definition OPENSSL_load_u64_le :: "bytes \<Rightarrow> nat \<Rightarrow> u64 \<times> nat" where
  "OPENSSL_load_u64_le inp off =
     (let b0 = ucast (inp ! off); b1 = ucast (inp ! (off + 1));
          b2 = ucast (inp ! (off + 2)); b3 = ucast (inp ! (off + 3));
          b4 = ucast (inp ! (off + 4)); b5 = ucast (inp ! (off + 5));
          b6 = ucast (inp ! (off + 6)); b7 = ucast (inp ! (off + 7))
      in (b0 OR push_bit 8 b1 OR push_bit 16 b2 OR push_bit 24 b3
            OR push_bit 32 b4 OR push_bit 40 b5 OR push_bit 48 b6 OR push_bit 56 b7, off + 8))"

definition OPENSSL_load_u64_be :: "bytes \<Rightarrow> nat \<Rightarrow> u64 \<times> nat" where
  "OPENSSL_load_u64_be inp off =
     (let b7 = ucast (inp ! off); b6 = ucast (inp ! (off + 1));
          b5 = ucast (inp ! (off + 2)); b4 = ucast (inp ! (off + 3));
          b3 = ucast (inp ! (off + 4)); b2 = ucast (inp ! (off + 5));
          b1 = ucast (inp ! (off + 6)); b0 = ucast (inp ! (off + 7))
      in (b0 OR push_bit 8 b1 OR push_bit 16 b2 OR push_bit 24 b3
            OR push_bit 32 b4 OR push_bit 40 b5 OR push_bit 48 b6 OR push_bit 56 b7, off + 8))"

section \<open>A word is the disjunction of its bytes\<close>

text \<open>\<open>bytes_from k v\<close> is \<open>v\<close> with the bits below \<open>k\<close> cleared; a byte is split off at its low end.\<close>

lemma split_byte:
  fixes v :: "'a::len word"
  shows "push_bit k (ucast (ucast (drop_bit k v) :: byte)) OR push_bit (k + 8) (drop_bit (k + 8) v)
           = push_bit k (drop_bit k v)"
proof (rule bit_word_eqI)
  fix n
  assume "n < LENGTH('a)"
  then show "bit (push_bit k (ucast (ucast (drop_bit k v) :: byte))
      OR push_bit (k + 8) (drop_bit (k + 8) v)) n = bit (push_bit k (drop_bit k v)) n"
    by (cases "n < k + 8") (auto simp: bit_simps)
qed

lemma last_byte:
  fixes v :: "'a::len word"
  assumes "LENGTH('a) = k + 8"
  shows "push_bit k (ucast (ucast (drop_bit k v) :: byte)) = push_bit k (drop_bit k v)"
  by (rule bit_word_eqI) (use assms in \<open>auto simp: bit_simps\<close>)

lemmas split_byte_0 = split_byte [of 0, simplified]

lemma word16_bytes:
  fixes v :: u16
  shows "ucast (ucast v :: byte) OR push_bit 8 (ucast (ucast (drop_bit 8 v) :: byte)) = v"
  using split_byte_0 [of v] last_byte [of 8 v] by simp

lemma word32_bytes:
  fixes v :: u32
  shows "ucast (ucast v :: byte) OR push_bit 8 (ucast (ucast (drop_bit 8 v) :: byte))
           OR push_bit 16 (ucast (ucast (drop_bit 16 v) :: byte))
           OR push_bit 24 (ucast (ucast (drop_bit 24 v) :: byte)) = v"
  using split_byte_0 [of v] split_byte [of 8 v] split_byte [of 16 v] last_byte [of 24 v]
  by simp

lemma word64_bytes:
  fixes v :: u64
  shows "ucast (ucast v :: byte) OR push_bit 8 (ucast (ucast (drop_bit 8 v) :: byte))
           OR push_bit 16 (ucast (ucast (drop_bit 16 v) :: byte))
           OR push_bit 24 (ucast (ucast (drop_bit 24 v) :: byte))
           OR push_bit 32 (ucast (ucast (drop_bit 32 v) :: byte))
           OR push_bit 40 (ucast (ucast (drop_bit 40 v) :: byte))
           OR push_bit 48 (ucast (ucast (drop_bit 48 v) :: byte))
           OR push_bit 56 (ucast (ucast (drop_bit 56 v) :: byte)) = v"
  using split_byte_0 [of v] split_byte [of 8 v] split_byte [of 16 v] split_byte [of 24 v]
    split_byte [of 32 v] split_byte [of 40 v] split_byte [of 48 v] last_byte [of 56 v]
  by simp

section \<open>Round trips\<close>

lemma load_store_u16:
  assumes "off + 2 \<le> length buf"
  shows "OPENSSL_load_u16_le (fst (OPENSSL_store_u16_le buf off v)) off = (v, off + 2)"
    and "OPENSSL_load_u16_be (fst (OPENSSL_store_u16_be buf off v)) off = (v, off + 2)"
  using assms word16_bytes [of v]
  by (simp_all add: OPENSSL_load_u16_le_def OPENSSL_store_u16_le_def OPENSSL_load_u16_be_def
      OPENSSL_store_u16_be_def Let_def nth_store_at)

lemma load_store_u32:
  assumes "off + 4 \<le> length buf"
  shows "OPENSSL_load_u32_le (fst (OPENSSL_store_u32_le buf off v)) off = (v, off + 4)"
    and "OPENSSL_load_u32_be (fst (OPENSSL_store_u32_be buf off v)) off = (v, off + 4)"
  using assms word32_bytes [of v]
  by (simp_all add: OPENSSL_load_u32_le_def OPENSSL_store_u32_le_def OPENSSL_load_u32_be_def
      OPENSSL_store_u32_be_def Let_def nth_store_at)

lemma load_store_u64:
  assumes "off + 8 \<le> length buf"
  shows "OPENSSL_load_u64_le (fst (OPENSSL_store_u64_le buf off v)) off = (v, off + 8)"
    and "OPENSSL_load_u64_be (fst (OPENSSL_store_u64_be buf off v)) off = (v, off + 8)"
  using assms word64_bytes [of v]
  by (simp_all add: OPENSSL_load_u64_le_def OPENSSL_store_u64_le_def OPENSSL_load_u64_be_def
      OPENSSL_store_u64_be_def Let_def nth_store_at)

end
