(* ===== verification/Slh_Adrs.thy ===== *)
theory Slh_Adrs
  imports Byteorder
begin

text \<open>
  The address blobs of \<open>crypto/slh_dsa/slh_adrs.c\<close>: 32 bytes for the SHAKE parameter sets, 22
  bytes (of an array of 32) for the SHA2 sets, each behind a table of methods. The contract of such
  a table is the locale \<open>slh_adrs\<close>: the methods compute on an address with six named fields.
\<close>

section \<open>Operations\<close>

definition SLH_ADRS_SIZE :: nat where "SLH_ADRS_SIZE = 32"
definition SLH_ADRSC_SIZE :: nat where "SLH_ADRSC_SIZE = 22"

definition SLH_ADRS_TYPE_WOTS_HASH :: u32 where "SLH_ADRS_TYPE_WOTS_HASH = 0"
definition SLH_ADRS_TYPE_WOTS_PK :: u32 where "SLH_ADRS_TYPE_WOTS_PK = 1"
definition SLH_ADRS_TYPE_TREE :: u32 where "SLH_ADRS_TYPE_TREE = 2"
definition SLH_ADRS_TYPE_FORS_TREE :: u32 where "SLH_ADRS_TYPE_FORS_TREE = 3"
definition SLH_ADRS_TYPE_FORS_ROOTS :: u32 where "SLH_ADRS_TYPE_FORS_ROOTS = 4"
definition SLH_ADRS_TYPE_WOTS_PRF :: u32 where "SLH_ADRS_TYPE_WOTS_PRF = 5"
definition SLH_ADRS_TYPE_FORS_PRF :: u32 where "SLH_ADRS_TYPE_FORS_PRF = 6"

text \<open>
  \<open>SLH_ADRS_DECLARE\<close>: an array on the stack. Its bytes are indeterminate in C until the first
  \<open>zero\<close> or \<open>copy\<close>, which every user makes first; they are 0 here.
\<close>

definition SLH_ADRS_DECLARE :: bytes where
  "SLH_ADRS_DECLARE = replicate SLH_ADRS_SIZE 0"

record slh_adrs_func =
  set_layer_address :: "bytes \<Rightarrow> u32 \<Rightarrow> bytes"
  set_tree_address :: "bytes \<Rightarrow> u64 \<Rightarrow> bytes"
  set_type_and_clear :: "bytes \<Rightarrow> u32 \<Rightarrow> bytes"
  set_keypair_address :: "bytes \<Rightarrow> u32 \<Rightarrow> bytes"
  copy_keypair_address :: "bytes \<Rightarrow> bytes \<Rightarrow> bytes"
  set_chain_address :: "bytes \<Rightarrow> u32 \<Rightarrow> bytes"
  set_tree_height :: "bytes \<Rightarrow> u32 \<Rightarrow> bytes"
  set_hash_address :: "bytes \<Rightarrow> u32 \<Rightarrow> bytes"
  set_tree_index :: "bytes \<Rightarrow> u32 \<Rightarrow> bytes"
  adrs_zero :: "bytes \<Rightarrow> bytes"
  adrs_copy :: "bytes \<Rightarrow> bytes \<Rightarrow> bytes"

definition slh_adrs_set_layer_address :: "bytes \<Rightarrow> u32 \<Rightarrow> bytes" where
  "slh_adrs_set_layer_address adrs layer = fst (OPENSSL_store_u32_be adrs 0 layer)"

definition slh_adrs_set_tree_address :: "bytes \<Rightarrow> u64 \<Rightarrow> bytes" where
  "slh_adrs_set_tree_address adrs address = fst (OPENSSL_store_u64_be adrs (4 + 4) address)"

definition slh_adrs_set_type_and_clear :: "bytes \<Rightarrow> u32 \<Rightarrow> bytes" where
  "slh_adrs_set_type_and_clear adrs type =
     store_at (fst (OPENSSL_store_u32_be adrs 16 type)) (16 + 4)
       (replicate (SLH_ADRS_SIZE - (16 + 4)) 0)"

definition slh_adrs_set_keypair_address :: "bytes \<Rightarrow> u32 \<Rightarrow> bytes" where
  "slh_adrs_set_keypair_address adrs in' = fst (OPENSSL_store_u32_be adrs 20 in')"

definition slh_adrs_copy_keypair_address :: "bytes \<Rightarrow> bytes \<Rightarrow> bytes" where
  "slh_adrs_copy_keypair_address dst src = store_at dst 20 (take 4 (drop 20 src))"

definition slh_adrs_set_chain_address :: "bytes \<Rightarrow> u32 \<Rightarrow> bytes" where
  "slh_adrs_set_chain_address adrs in' = fst (OPENSSL_store_u32_be adrs 24 in')"

definition slh_adrs_set_hash_address :: "bytes \<Rightarrow> u32 \<Rightarrow> bytes" where
  "slh_adrs_set_hash_address adrs in' = fst (OPENSSL_store_u32_be adrs 28 in')"

definition slh_adrs_zero :: "bytes \<Rightarrow> bytes" where
  "slh_adrs_zero adrs = store_at adrs 0 (replicate SLH_ADRS_SIZE 0)"

definition slh_adrs_copy :: "bytes \<Rightarrow> bytes \<Rightarrow> bytes" where
  "slh_adrs_copy dst src = store_at dst 0 (take SLH_ADRS_SIZE src)"

text \<open>The compressed form.\<close>

definition slh_adrsc_set_layer_address :: "bytes \<Rightarrow> u32 \<Rightarrow> bytes" where
  "slh_adrsc_set_layer_address adrsc layer = store_at adrsc 0 [ucast layer]"

definition slh_adrsc_set_tree_address :: "bytes \<Rightarrow> u64 \<Rightarrow> bytes" where
  "slh_adrsc_set_tree_address adrsc in' = fst (OPENSSL_store_u64_be adrsc 1 in')"

definition slh_adrsc_set_type_and_clear :: "bytes \<Rightarrow> u32 \<Rightarrow> bytes" where
  "slh_adrsc_set_type_and_clear adrsc type =
     store_at (store_at adrsc 9 [ucast type]) (9 + 1) (replicate (SLH_ADRS_SIZE - (16 + 4)) 0)"

definition slh_adrsc_set_keypair_address :: "bytes \<Rightarrow> u32 \<Rightarrow> bytes" where
  "slh_adrsc_set_keypair_address adrsc in' = fst (OPENSSL_store_u32_be adrsc 10 in')"

definition slh_adrsc_copy_keypair_address :: "bytes \<Rightarrow> bytes \<Rightarrow> bytes" where
  "slh_adrsc_copy_keypair_address dst src = store_at dst 10 (take 4 (drop 10 src))"

definition slh_adrsc_set_chain_address :: "bytes \<Rightarrow> u32 \<Rightarrow> bytes" where
  "slh_adrsc_set_chain_address adrsc in' = fst (OPENSSL_store_u32_be adrsc 14 in')"

definition slh_adrsc_set_hash_address :: "bytes \<Rightarrow> u32 \<Rightarrow> bytes" where
  "slh_adrsc_set_hash_address adrsc in' = fst (OPENSSL_store_u32_be adrsc 18 in')"

definition slh_adrsc_zero :: "bytes \<Rightarrow> bytes" where
  "slh_adrsc_zero adrsc = store_at adrsc 0 (replicate SLH_ADRSC_SIZE 0)"

definition slh_adrsc_copy :: "bytes \<Rightarrow> bytes \<Rightarrow> bytes" where
  "slh_adrsc_copy dst src = store_at dst 0 (take SLH_ADRSC_SIZE src)"

definition ossl_slh_get_adrs_fn :: "bool \<Rightarrow> slh_adrs_func" where
  "ossl_slh_get_adrs_fn is_compressed =
     (if \<not> is_compressed then
        \<lparr>set_layer_address = slh_adrs_set_layer_address,
         set_tree_address = slh_adrs_set_tree_address,
         set_type_and_clear = slh_adrs_set_type_and_clear,
         set_keypair_address = slh_adrs_set_keypair_address,
         copy_keypair_address = slh_adrs_copy_keypair_address,
         set_chain_address = slh_adrs_set_chain_address,
         set_tree_height = slh_adrs_set_chain_address,
         set_hash_address = slh_adrs_set_hash_address,
         set_tree_index = slh_adrs_set_hash_address,
         adrs_zero = slh_adrs_zero,
         adrs_copy = slh_adrs_copy\<rparr>
      else
        \<lparr>set_layer_address = slh_adrsc_set_layer_address,
         set_tree_address = slh_adrsc_set_tree_address,
         set_type_and_clear = slh_adrsc_set_type_and_clear,
         set_keypair_address = slh_adrsc_set_keypair_address,
         copy_keypair_address = slh_adrsc_copy_keypair_address,
         set_chain_address = slh_adrsc_set_chain_address,
         set_tree_height = slh_adrsc_set_chain_address,
         set_hash_address = slh_adrsc_set_hash_address,
         set_tree_index = slh_adrsc_set_hash_address,
         adrs_zero = slh_adrsc_zero,
         adrs_copy = slh_adrsc_copy\<rparr>)"

section \<open>The contract\<close>

text \<open>
  An address of FIPS 205, section 4.2. The last two words carry a chain and a hash address, or a
  tree height and a tree index.
\<close>

record adr =
  adr_layer :: u32
  adr_tree :: u64
  adr_type :: u32
  adr_keypair :: u32
  adr_chain :: u32
  adr_hash :: u32

definition adr_zero :: adr where
  "adr_zero = \<lparr>adr_layer = 0, adr_tree = 0, adr_type = 0, adr_keypair = 0, adr_chain = 0, adr_hash = 0\<rparr>"

definition adr_type_clear :: "adr \<Rightarrow> u32 \<Rightarrow> adr" where
  "adr_type_clear a t = a\<lparr>adr_type := t, adr_keypair := 0, adr_chain := 0, adr_hash := 0\<rparr>"

text \<open>Updates of different fields, in a fixed order.\<close>

lemma adr_update_order [simp]:
  "a\<lparr>adr_tree := v0\<rparr>\<lparr>adr_layer := w0\<rparr> = a\<lparr>adr_layer := w0\<rparr>\<lparr>adr_tree := v0\<rparr>"
  "a\<lparr>adr_type := v1\<rparr>\<lparr>adr_layer := w1\<rparr> = a\<lparr>adr_layer := w1\<rparr>\<lparr>adr_type := v1\<rparr>"
  "a\<lparr>adr_keypair := v2\<rparr>\<lparr>adr_layer := w2\<rparr> = a\<lparr>adr_layer := w2\<rparr>\<lparr>adr_keypair := v2\<rparr>"
  "a\<lparr>adr_chain := v3\<rparr>\<lparr>adr_layer := w3\<rparr> = a\<lparr>adr_layer := w3\<rparr>\<lparr>adr_chain := v3\<rparr>"
  "a\<lparr>adr_hash := v4\<rparr>\<lparr>adr_layer := w4\<rparr> = a\<lparr>adr_layer := w4\<rparr>\<lparr>adr_hash := v4\<rparr>"
  "a\<lparr>adr_type := v5\<rparr>\<lparr>adr_tree := w5\<rparr> = a\<lparr>adr_tree := w5\<rparr>\<lparr>adr_type := v5\<rparr>"
  "a\<lparr>adr_keypair := v6\<rparr>\<lparr>adr_tree := w6\<rparr> = a\<lparr>adr_tree := w6\<rparr>\<lparr>adr_keypair := v6\<rparr>"
  "a\<lparr>adr_chain := v7\<rparr>\<lparr>adr_tree := w7\<rparr> = a\<lparr>adr_tree := w7\<rparr>\<lparr>adr_chain := v7\<rparr>"
  "a\<lparr>adr_hash := v8\<rparr>\<lparr>adr_tree := w8\<rparr> = a\<lparr>adr_tree := w8\<rparr>\<lparr>adr_hash := v8\<rparr>"
  "a\<lparr>adr_keypair := v9\<rparr>\<lparr>adr_type := w9\<rparr> = a\<lparr>adr_type := w9\<rparr>\<lparr>adr_keypair := v9\<rparr>"
  "a\<lparr>adr_chain := v10\<rparr>\<lparr>adr_type := w10\<rparr> = a\<lparr>adr_type := w10\<rparr>\<lparr>adr_chain := v10\<rparr>"
  "a\<lparr>adr_hash := v11\<rparr>\<lparr>adr_type := w11\<rparr> = a\<lparr>adr_type := w11\<rparr>\<lparr>adr_hash := v11\<rparr>"
  "a\<lparr>adr_chain := v12\<rparr>\<lparr>adr_keypair := w12\<rparr> = a\<lparr>adr_keypair := w12\<rparr>\<lparr>adr_chain := v12\<rparr>"
  "a\<lparr>adr_hash := v13\<rparr>\<lparr>adr_keypair := w13\<rparr> = a\<lparr>adr_keypair := w13\<rparr>\<lparr>adr_hash := v13\<rparr>"
  "a\<lparr>adr_hash := v14\<rparr>\<lparr>adr_chain := w14\<rparr> = a\<lparr>adr_chain := w14\<rparr>\<lparr>adr_hash := v14\<rparr>"
  by simp_all

text \<open>
  \<open>enc\<close> is the blob of an address: every method is the update of a field, whatever the format.
\<close>

locale slh_adrs =
  fixes af :: slh_adrs_func and enc :: "adr \<Rightarrow> bytes"
  assumes enc_layer: "set_layer_address af (enc a) l = enc (a\<lparr>adr_layer := l\<rparr>)"
    and enc_tree: "set_tree_address af (enc a) t = enc (a\<lparr>adr_tree := t\<rparr>)"
    and enc_type: "set_type_and_clear af (enc a) y = enc (adr_type_clear a y)"
    and enc_keypair: "set_keypair_address af (enc a) x = enc (a\<lparr>adr_keypair := x\<rparr>)"
    and enc_copy_keypair: "copy_keypair_address af (enc a) (enc b) = enc (a\<lparr>adr_keypair := adr_keypair b\<rparr>)"
    and enc_chain: "set_chain_address af (enc a) x = enc (a\<lparr>adr_chain := x\<rparr>)"
    and enc_height: "set_tree_height af (enc a) x = enc (a\<lparr>adr_chain := x\<rparr>)"
    and enc_hash: "set_hash_address af (enc a) x = enc (a\<lparr>adr_hash := x\<rparr>)"
    and enc_index: "set_tree_index af (enc a) x = enc (a\<lparr>adr_hash := x\<rparr>)"
    and enc_zero: "adrs_zero af (enc a) = enc adr_zero"
    and enc_copy: "adrs_copy af (enc a) (enc b) = enc b"
    and enc_declare: "SLH_ADRS_DECLARE = enc adr_zero"
begin

lemmas enc_simps = enc_layer enc_tree enc_type enc_keypair enc_copy_keypair enc_chain enc_height
  enc_hash enc_index enc_zero enc_copy enc_declare

end

section \<open>Both tables keep it\<close>

definition u32_be :: "u32 \<Rightarrow> bytes" where
  "u32_be v = [ucast (drop_bit 24 v), ucast (drop_bit 16 v), ucast (drop_bit 8 v), ucast v]"

definition u64_be :: "u64 \<Rightarrow> bytes" where
  "u64_be v = [ucast (drop_bit 56 v), ucast (drop_bit 48 v), ucast (drop_bit 40 v), ucast (drop_bit 32 v),
     ucast (drop_bit 24 v), ucast (drop_bit 16 v), ucast (drop_bit 8 v), ucast v]"

definition adrs_enc :: "adr \<Rightarrow> bytes" where
  "adrs_enc a = u32_be (adr_layer a) @ [0, 0, 0, 0] @ u64_be (adr_tree a) @ u32_be (adr_type a)
     @ u32_be (adr_keypair a) @ u32_be (adr_chain a) @ u32_be (adr_hash a)"

definition adrsc_enc :: "adr \<Rightarrow> bytes" where
  "adrsc_enc a = [ucast (adr_layer a)] @ u64_be (adr_tree a) @ [ucast (adr_type a)]
     @ u32_be (adr_keypair a) @ u32_be (adr_chain a) @ u32_be (adr_hash a) @ replicate 10 0"

lemma length_u32_be [simp]: "length (u32_be v) = 4" and length_u64_be [simp]: "length (u64_be w) = 8"
  by (simp_all add: u32_be_def u64_be_def)

lemma length_adrs_enc [simp]: "length (adrs_enc a) = 32" and length_adrsc_enc [simp]: "length (adrsc_enc a) = 32"
  by (simp_all add: adrs_enc_def adrsc_enc_def)

lemma store_u32_be: "fst (OPENSSL_store_u32_be bs off v) = store_at bs off (u32_be v)"
  by (simp add: OPENSSL_store_u32_be_def u32_be_def)

lemma store_u64_be: "fst (OPENSSL_store_u64_be bs off v) = store_at bs off (u64_be v)"
  by (simp add: OPENSSL_store_u64_be_def u64_be_def)

lemma u32_be_0: "u32_be 0 = replicate 4 0" and u64_be_0: "u64_be 0 = replicate 8 0"
  by (simp_all add: u32_be_def u64_be_def numeral_eq_Suc)

lemma blob_zero:
  "replicate 4 0 @ 0 # 0 # 0 # 0 # replicate 24 0 = (replicate 32 0 :: bytes)"
  "0 # replicate 8 0 @ 0 # replicate 22 0 = (replicate 32 0 :: bytes)"
  by (simp_all add: numeral_eq_Suc)

lemmas adrs_defs = slh_adrs_set_layer_address_def slh_adrs_set_tree_address_def
  slh_adrs_set_type_and_clear_def slh_adrs_set_keypair_address_def slh_adrs_copy_keypair_address_def
  slh_adrs_set_chain_address_def slh_adrs_set_hash_address_def slh_adrs_zero_def slh_adrs_copy_def

lemmas adrsc_defs = slh_adrsc_set_layer_address_def slh_adrsc_set_tree_address_def
  slh_adrsc_set_type_and_clear_def slh_adrsc_set_keypair_address_def slh_adrsc_copy_keypair_address_def
  slh_adrsc_set_chain_address_def slh_adrsc_set_hash_address_def slh_adrsc_zero_def slh_adrsc_copy_def

interpretation adrs: slh_adrs "ossl_slh_get_adrs_fn False" adrs_enc
  by unfold_locales
    (simp_all add: ossl_slh_get_adrs_fn_def adrs_defs store_u32_be store_u64_be adrs_enc_def store_at_eq
      adr_type_clear_def adr_zero_def u32_be_0 u64_be_0 SLH_ADRS_DECLARE_def SLH_ADRS_SIZE_def
      SLH_ADRSC_SIZE_def blob_zero flip: replicate_add)

interpretation adrsc: slh_adrs "ossl_slh_get_adrs_fn True" adrsc_enc
  by unfold_locales
    (simp_all add: ossl_slh_get_adrs_fn_def adrsc_defs store_u32_be store_u64_be adrsc_enc_def store_at_eq
      adr_type_clear_def adr_zero_def u32_be_0 u64_be_0 SLH_ADRS_DECLARE_def SLH_ADRS_SIZE_def
      SLH_ADRSC_SIZE_def blob_zero flip: replicate_add)

end
