(* ===== verification/Packet.thy ===== *)
theory Packet
  imports Byteorder
begin

text \<open>
  The bounded reader \<open>PACKET\<close> of \<open>include/internal/packet.h\<close>.

  A packet is the bytes from its current position to the end of the underlying buffer together
  with the number of them it may still read. A reader returns \<open>None\<close> where the C function
  returns 0, and otherwise what it stored through its pointer arguments and the advanced packet.
  A pointer to \<open>len\<close> bytes handed out by a reader is the list of these bytes.
  \<open>unsigned int\<close> is \<open>32 word\<close>, \<open>unsigned long\<close> and \<open>uint64_t\<close> are \<open>64 word\<close>,
  \<open>size_t\<close> is \<open>nat\<close> with the arithmetic of \<open>Prelude\<close>.
\<close>

section \<open>Operations\<close>

record packet =
  pkt_curr :: bytes
  pkt_remaining :: nat

definition packet_forward :: "packet \<Rightarrow> nat \<Rightarrow> packet" where
  "packet_forward pkt len =
     pkt\<lparr>pkt_curr := drop len (pkt_curr pkt), pkt_remaining := size_sub (pkt_remaining pkt) len\<rparr>"

definition PACKET_remaining :: "packet \<Rightarrow> nat" where
  "PACKET_remaining pkt = pkt_remaining pkt"

definition PACKET_end :: "packet \<Rightarrow> bytes" where
  "PACKET_end pkt = drop (pkt_remaining pkt) (pkt_curr pkt)"

definition PACKET_data :: "packet \<Rightarrow> bytes" where
  "PACKET_data pkt = pkt_curr pkt"

definition PACKET_buf_init :: "bytes \<Rightarrow> nat \<Rightarrow> packet option" where
  "PACKET_buf_init buf len =
     (if len > SIZE_MAX div 2 then None else Some \<lparr>pkt_curr = buf, pkt_remaining = len\<rparr>)"

definition PACKET_null_init :: packet where
  "PACKET_null_init = \<lparr>pkt_curr = [], pkt_remaining = 0\<rparr>"

definition PACKET_equal :: "packet \<Rightarrow> bytes \<Rightarrow> nat \<Rightarrow> bool" where
  "PACKET_equal pkt ptr num =
     (if PACKET_remaining pkt \<noteq> num then False else take num (pkt_curr pkt) = take num ptr)"

definition PACKET_peek_sub_packet :: "packet \<Rightarrow> nat \<Rightarrow> packet option" where
  "PACKET_peek_sub_packet pkt len =
     (if PACKET_remaining pkt < len then None else PACKET_buf_init (pkt_curr pkt) len)"

definition PACKET_get_sub_packet :: "packet \<Rightarrow> nat \<Rightarrow> (packet \<times> packet) option" where
  "PACKET_get_sub_packet pkt len =
     (case PACKET_peek_sub_packet pkt len of
        None \<Rightarrow> None
      | Some subpkt \<Rightarrow> Some (subpkt, packet_forward pkt len))"

definition PACKET_peek_net_2 :: "packet \<Rightarrow> u32 option" where
  "PACKET_peek_net_2 pkt =
     (if PACKET_remaining pkt < 2 then None
      else Some (push_bit 8 (ucast (pkt_curr pkt ! 0)) OR ucast (pkt_curr pkt ! 1)))"

definition PACKET_get_net_2 :: "packet \<Rightarrow> (u32 \<times> packet) option" where
  "PACKET_get_net_2 pkt =
     (case PACKET_peek_net_2 pkt of None \<Rightarrow> None | Some d \<Rightarrow> Some (d, packet_forward pkt 2))"

definition PACKET_get_net_2_len :: "packet \<Rightarrow> (nat \<times> packet) option" where
  "PACKET_get_net_2_len pkt =
     (case PACKET_get_net_2 pkt of None \<Rightarrow> None | Some (i, pkt') \<Rightarrow> Some (unat i, pkt'))"

definition PACKET_peek_net_3 :: "packet \<Rightarrow> u64 option" where
  "PACKET_peek_net_3 pkt =
     (if PACKET_remaining pkt < 3 then None
      else Some (push_bit 16 (ucast (pkt_curr pkt ! 0)) OR push_bit 8 (ucast (pkt_curr pkt ! 1))
                   OR ucast (pkt_curr pkt ! 2)))"

definition PACKET_get_net_3 :: "packet \<Rightarrow> (u64 \<times> packet) option" where
  "PACKET_get_net_3 pkt =
     (case PACKET_peek_net_3 pkt of None \<Rightarrow> None | Some d \<Rightarrow> Some (d, packet_forward pkt 3))"

definition PACKET_get_net_3_len :: "packet \<Rightarrow> (nat \<times> packet) option" where
  "PACKET_get_net_3_len pkt =
     (case PACKET_get_net_3 pkt of None \<Rightarrow> None | Some (i, pkt') \<Rightarrow> Some (unat i, pkt'))"

definition PACKET_peek_net_4 :: "packet \<Rightarrow> u64 option" where
  "PACKET_peek_net_4 pkt =
     (if PACKET_remaining pkt < 4 then None
      else Some (push_bit 24 (ucast (pkt_curr pkt ! 0)) OR push_bit 16 (ucast (pkt_curr pkt ! 1))
                   OR push_bit 8 (ucast (pkt_curr pkt ! 2)) OR ucast (pkt_curr pkt ! 3)))"

definition PACKET_peek_net_8 :: "packet \<Rightarrow> u64 option" where
  "PACKET_peek_net_8 pkt =
     (if PACKET_remaining pkt < 8 then None
      else Some (push_bit 56 (ucast (pkt_curr pkt ! 0)) OR push_bit 48 (ucast (pkt_curr pkt ! 1))
                   OR push_bit 40 (ucast (pkt_curr pkt ! 2)) OR push_bit 32 (ucast (pkt_curr pkt ! 3))
                   OR push_bit 24 (ucast (pkt_curr pkt ! 4)) OR push_bit 16 (ucast (pkt_curr pkt ! 5))
                   OR push_bit 8 (ucast (pkt_curr pkt ! 6)) OR ucast (pkt_curr pkt ! 7)))"

definition PACKET_get_net_4 :: "packet \<Rightarrow> (u64 \<times> packet) option" where
  "PACKET_get_net_4 pkt =
     (case PACKET_peek_net_4 pkt of None \<Rightarrow> None | Some d \<Rightarrow> Some (d, packet_forward pkt 4))"

definition PACKET_get_net_4_len :: "packet \<Rightarrow> (nat \<times> packet) option" where
  "PACKET_get_net_4_len pkt =
     (case PACKET_get_net_4 pkt of None \<Rightarrow> None | Some (i, pkt') \<Rightarrow> Some (unat i, pkt'))"

definition PACKET_get_net_8 :: "packet \<Rightarrow> (u64 \<times> packet) option" where
  "PACKET_get_net_8 pkt =
     (case PACKET_peek_net_8 pkt of None \<Rightarrow> None | Some d \<Rightarrow> Some (d, packet_forward pkt 8))"

definition PACKET_peek_1 :: "packet \<Rightarrow> u32 option" where
  "PACKET_peek_1 pkt =
     (if PACKET_remaining pkt = 0 then None else Some (ucast (pkt_curr pkt ! 0)))"

definition PACKET_get_1 :: "packet \<Rightarrow> (u32 \<times> packet) option" where
  "PACKET_get_1 pkt =
     (case PACKET_peek_1 pkt of None \<Rightarrow> None | Some d \<Rightarrow> Some (d, packet_forward pkt 1))"

definition PACKET_get_1_len :: "packet \<Rightarrow> (nat \<times> packet) option" where
  "PACKET_get_1_len pkt =
     (case PACKET_get_1 pkt of None \<Rightarrow> None | Some (i, pkt') \<Rightarrow> Some (unat i, pkt'))"

definition PACKET_peek_4 :: "packet \<Rightarrow> u64 option" where
  "PACKET_peek_4 pkt =
     (if PACKET_remaining pkt < 4 then None
      else Some (ucast (pkt_curr pkt ! 0) OR push_bit 8 (ucast (pkt_curr pkt ! 1))
                   OR push_bit 16 (ucast (pkt_curr pkt ! 2)) OR push_bit 24 (ucast (pkt_curr pkt ! 3))))"

definition PACKET_get_4 :: "packet \<Rightarrow> (u64 \<times> packet) option" where
  "PACKET_get_4 pkt =
     (case PACKET_peek_4 pkt of None \<Rightarrow> None | Some d \<Rightarrow> Some (d, packet_forward pkt 4))"

definition PACKET_peek_bytes :: "packet \<Rightarrow> nat \<Rightarrow> bytes option" where
  "PACKET_peek_bytes pkt len =
     (if PACKET_remaining pkt < len then None else Some (take len (pkt_curr pkt)))"

definition PACKET_get_bytes :: "packet \<Rightarrow> nat \<Rightarrow> (bytes \<times> packet) option" where
  "PACKET_get_bytes pkt len =
     (case PACKET_peek_bytes pkt len of
        None \<Rightarrow> None
      | Some data \<Rightarrow> Some (data, packet_forward pkt len))"

definition PACKET_peek_copy_bytes :: "packet \<Rightarrow> nat \<Rightarrow> bytes option" where
  "PACKET_peek_copy_bytes pkt len =
     (if PACKET_remaining pkt < len then None else Some (take len (pkt_curr pkt)))"

definition PACKET_copy_bytes :: "packet \<Rightarrow> nat \<Rightarrow> (bytes \<times> packet) option" where
  "PACKET_copy_bytes pkt len =
     (case PACKET_peek_copy_bytes pkt len of
        None \<Rightarrow> None
      | Some data \<Rightarrow> Some (data, packet_forward pkt len))"

text \<open>\<open>PACKET_copy_all\<close> sets \<open>*len\<close> on failure too: the value is (result, data copied, \<open>*len\<close>).\<close>

definition PACKET_copy_all :: "packet \<Rightarrow> nat \<Rightarrow> bool \<times> bytes \<times> nat" where
  "PACKET_copy_all pkt dest_len =
     (if PACKET_remaining pkt > dest_len then (False, [], 0)
      else (True, take (pkt_remaining pkt) (pkt_curr pkt), pkt_remaining pkt))"

text \<open>\<open>PACKET_memdup\<close> yields (result, \<open>*data\<close>, \<open>*len\<close>); the duplicate is allocated.\<close>

definition PACKET_memdup :: "allocator \<Rightarrow> packet \<Rightarrow> bool \<times> bytes option \<times> nat" where
  "PACKET_memdup al pkt =
     (let len = PACKET_remaining pkt
      in if len = 0 then (True, None, 0)
         else if \<not> al len then (False, None, 0)
         else (True, Some (take len (pkt_curr pkt)), len))"

definition PACKET_contains_zero_byte :: "packet \<Rightarrow> bool" where
  "PACKET_contains_zero_byte pkt = (0 \<in> set (take (pkt_remaining pkt) (pkt_curr pkt)))"

definition PACKET_forward :: "packet \<Rightarrow> nat \<Rightarrow> packet option" where
  "PACKET_forward pkt len =
     (if PACKET_remaining pkt < len then None else Some (packet_forward pkt len))"

text \<open>The length-prefixed readers return the sub-packet and the advanced packet.\<close>

definition PACKET_get_length_prefixed_1 :: "packet \<Rightarrow> (packet \<times> packet) option" where
  "PACKET_get_length_prefixed_1 pkt =
     (case PACKET_get_1 pkt of
        None \<Rightarrow> None
      | Some (len, tmp) \<Rightarrow>
          (case PACKET_get_bytes tmp (unat len) of
             None \<Rightarrow> None
           | Some (data, tmp) \<Rightarrow> Some (\<lparr>pkt_curr = data, pkt_remaining = unat len\<rparr>, tmp)))"

definition PACKET_as_length_prefixed_1 :: "packet \<Rightarrow> (packet \<times> packet) option" where
  "PACKET_as_length_prefixed_1 pkt =
     (case PACKET_get_1 pkt of
        None \<Rightarrow> None
      | Some (len, tmp) \<Rightarrow>
          (case PACKET_get_bytes tmp (unat len) of
             None \<Rightarrow> None
           | Some (data, tmp) \<Rightarrow>
               if PACKET_remaining tmp \<noteq> 0 then None
               else Some (\<lparr>pkt_curr = data, pkt_remaining = unat len\<rparr>, tmp)))"

definition PACKET_get_length_prefixed_2 :: "packet \<Rightarrow> (packet \<times> packet) option" where
  "PACKET_get_length_prefixed_2 pkt =
     (case PACKET_get_net_2 pkt of
        None \<Rightarrow> None
      | Some (len, tmp) \<Rightarrow>
          (case PACKET_get_bytes tmp (unat len) of
             None \<Rightarrow> None
           | Some (data, tmp) \<Rightarrow> Some (\<lparr>pkt_curr = data, pkt_remaining = unat len\<rparr>, tmp)))"

definition PACKET_as_length_prefixed_2 :: "packet \<Rightarrow> (packet \<times> packet) option" where
  "PACKET_as_length_prefixed_2 pkt =
     (case PACKET_get_net_2 pkt of
        None \<Rightarrow> None
      | Some (len, tmp) \<Rightarrow>
          (case PACKET_get_bytes tmp (unat len) of
             None \<Rightarrow> None
           | Some (data, tmp) \<Rightarrow>
               if PACKET_remaining tmp \<noteq> 0 then None
               else Some (\<lparr>pkt_curr = data, pkt_remaining = unat len\<rparr>, tmp)))"

definition PACKET_get_length_prefixed_3 :: "packet \<Rightarrow> (packet \<times> packet) option" where
  "PACKET_get_length_prefixed_3 pkt =
     (case PACKET_get_net_3 pkt of
        None \<Rightarrow> None
      | Some (len, tmp) \<Rightarrow>
          (case PACKET_get_bytes tmp (unat len) of
             None \<Rightarrow> None
           | Some (data, tmp) \<Rightarrow> Some (\<lparr>pkt_curr = data, pkt_remaining = unat len\<rparr>, tmp)))"

section \<open>The bytes a packet still has\<close>

definition pkt_ok :: "packet \<Rightarrow> bool" where
  "pkt_ok pkt \<longleftrightarrow> pkt_remaining pkt \<le> length (pkt_curr pkt) \<and> pkt_remaining pkt \<le> SIZE_MAX"

definition pkt_bytes :: "packet \<Rightarrow> bytes" where
  "pkt_bytes pkt = take (pkt_remaining pkt) (pkt_curr pkt)"

lemma length_pkt_bytes: "pkt_ok pkt \<Longrightarrow> length (pkt_bytes pkt) = pkt_remaining pkt"
  by (simp add: pkt_ok_def pkt_bytes_def)

lemma packet_forward_bytes:
  assumes "pkt_ok pkt" and "n \<le> pkt_remaining pkt"
  shows "pkt_ok (packet_forward pkt n)" and "pkt_bytes (packet_forward pkt n) = drop n (pkt_bytes pkt)"
  using assms by (auto simp: pkt_ok_def pkt_bytes_def packet_forward_def size_sub_le drop_take)

lemma buf_init_bytes:
  assumes "PACKET_buf_init buf len = Some pkt" and "len \<le> length buf"
  shows "pkt_ok pkt" and "pkt_bytes pkt = take len buf"
  using assms by (auto simp: PACKET_buf_init_def pkt_ok_def pkt_bytes_def SIZE_MAX_def split: if_splits)

lemma get_bytes_spec:
  "pkt_ok pkt \<Longrightarrow>
     PACKET_get_bytes pkt n =
       (if n \<le> length (pkt_bytes pkt) then Some (take n (pkt_bytes pkt), packet_forward pkt n) else None)"
  by (auto simp: PACKET_get_bytes_def PACKET_peek_bytes_def PACKET_remaining_def pkt_ok_def
      pkt_bytes_def)

lemma read_chunk:
  assumes "pkt_ok r" and "pkt_bytes r = s @ rest"
  shows "PACKET_get_bytes r (length s) = Some (s, packet_forward r (length s))"
    and "pkt_ok (packet_forward r (length s))" and "pkt_bytes (packet_forward r (length s)) = rest"
  using get_bytes_spec [OF assms(1), of "length s"] packet_forward_bytes [OF assms(1), of "length s"]
    length_pkt_bytes [OF assms(1)] assms(2) by simp_all

lemma be_value_pair: "be_value (a # b # []) = unat a * 256 + unat b"
  by (simp add: be_value_def)

lemma be_value_triple: "be_value (a # b # c # []) = (unat a * 256 + unat b) * 256 + unat c"
  by (simp add: be_value_def)

lemma unat_net_2:
  fixes a b :: byte
  shows "unat (push_bit 8 (ucast a) OR ucast b :: u32) = be_value [a, b]"
  using unat_byte_less [of a]
  by (subst push_byte_or) (simp_all add: be_value_pair unat_ucast_byte)

lemma unat_net_3:
  fixes a b c :: byte
  shows "unat (push_bit 16 (ucast a) OR push_bit 8 (ucast b) OR ucast c :: u64) = be_value [a, b, c]"
proof -
  let ?w = "push_bit 8 (ucast a) OR ucast b :: u64"
  have w: "unat ?w = unat a * 256 + unat b"
    using unat_byte_less [of a]
    by (subst push_byte_or) (simp_all add: unat_ucast_byte)
  have "push_bit 16 (ucast a) OR push_bit 8 (ucast b) OR ucast c = push_bit 8 ?w OR ucast c"
    by (simp add: push_bit_or or.assoc)
  also have "unat \<dots> = unat ?w * 256 + unat c"
    using unat_byte_less [of a] unat_byte_less [of b] by (intro push_byte_or) (simp_all add: w)
  finally show ?thesis
    by (simp add: w be_value_triple)
qed

text \<open>The readers of an integer agree with the number its bytes denote.\<close>

lemma take_nth_2: "2 \<le> length xs \<Longrightarrow> take 2 xs = [xs ! 0, xs ! 1]"
  by (cases xs; cases "tl xs") auto

lemma take_nth_3: "3 \<le> length xs \<Longrightarrow> take 3 xs = [xs ! 0, xs ! 1, xs ! 2]"
  by (cases xs; cases "tl xs"; cases "tl (tl xs)") (auto simp: numeral_3_eq_3)

lemma get_1_spec:
  assumes "pkt_ok pkt"
  shows "PACKET_get_1 pkt =
       (if 1 \<le> length (pkt_bytes pkt)
        then Some (of_nat (be_value (take 1 (pkt_bytes pkt))), packet_forward pkt 1) else None)"
proof (cases "pkt_bytes pkt")
  case Nil
  then show ?thesis
    using length_pkt_bytes [OF assms] by (simp add: PACKET_get_1_def PACKET_peek_1_def PACKET_remaining_def)
next
  case (Cons b bs)
  then have "pkt_curr pkt ! 0 = b" "0 < pkt_remaining pkt"
    using length_pkt_bytes [OF assms] by (cases "pkt_curr pkt"; auto simp: pkt_bytes_def take_Cons split: nat.splits)+
  with Cons show ?thesis
    by (simp add: PACKET_get_1_def PACKET_peek_1_def PACKET_remaining_def)
qed

lemma pkt_curr_nth: "pkt_ok pkt \<Longrightarrow> i < pkt_remaining pkt \<Longrightarrow> pkt_curr pkt ! i = pkt_bytes pkt ! i"
  by (simp add: pkt_bytes_def)

lemma get_net_2_spec:
  assumes ok: "pkt_ok pkt"
  shows "PACKET_get_net_2 pkt =
       (if 2 \<le> length (pkt_bytes pkt)
        then Some (of_nat (be_value (take 2 (pkt_bytes pkt))), packet_forward pkt 2) else None)"
proof (cases "2 \<le> length (pkt_bytes pkt)")
  case True
  moreover have "of_nat (be_value (take 2 (pkt_bytes pkt))) =
      (push_bit 8 (ucast (pkt_bytes pkt ! 0)) OR ucast (pkt_bytes pkt ! 1) :: u32)"
    by (simp only: take_nth_2 [OF True] unat_net_2 [symmetric]) simp
  ultimately show ?thesis
    using ok length_pkt_bytes [OF ok]
    by (simp add: PACKET_get_net_2_def PACKET_peek_net_2_def PACKET_remaining_def pkt_curr_nth)
next
  case False
  then show ?thesis
    using length_pkt_bytes [OF ok]
    by (simp add: PACKET_get_net_2_def PACKET_peek_net_2_def PACKET_remaining_def)
qed

lemma get_net_3_spec:
  assumes ok: "pkt_ok pkt"
  shows "PACKET_get_net_3 pkt =
       (if 3 \<le> length (pkt_bytes pkt)
        then Some (of_nat (be_value (take 3 (pkt_bytes pkt))), packet_forward pkt 3) else None)"
proof (cases "3 \<le> length (pkt_bytes pkt)")
  case True
  moreover have "of_nat (be_value (take 3 (pkt_bytes pkt))) =
      (push_bit 16 (ucast (pkt_bytes pkt ! 0)) OR push_bit 8 (ucast (pkt_bytes pkt ! 1))
         OR ucast (pkt_bytes pkt ! 2) :: u64)"
    by (simp only: take_nth_3 [OF True] unat_net_3 [symmetric]) simp
  ultimately show ?thesis
    using ok length_pkt_bytes [OF ok]
    by (simp add: PACKET_get_net_3_def PACKET_peek_net_3_def PACKET_remaining_def pkt_curr_nth)
next
  case False
  then show ?thesis
    using length_pkt_bytes [OF ok]
    by (simp add: PACKET_get_net_3_def PACKET_peek_net_3_def PACKET_remaining_def)
qed

section \<open>Length-prefixed readers\<close>

text \<open>
  What the readers of a length-prefixed sub-packet have in common: \<open>get\<close> reads \<open>k\<close> bytes as a
  length in network order, and \<open>get_prefixed\<close> takes that many bytes after them.
\<close>

locale length_prefixed =
  fixes get :: "packet \<Rightarrow> ('l::len word \<times> packet) option"
    and k :: nat
    and get_prefixed :: "packet \<Rightarrow> (packet \<times> packet) option"
  assumes get_spec: "pkt_ok pkt \<Longrightarrow>
      get pkt = (if k \<le> length (pkt_bytes pkt)
                 then Some (of_nat (be_value (take k (pkt_bytes pkt))), packet_forward pkt k) else None)"
    and fits: "(256 :: nat) ^ k \<le> 2 ^ LENGTH('l)" and small: "256 ^ k \<le> SIZE_MAX"
    and get_prefixed_eq: "get_prefixed pkt =
      (case get pkt of
         None \<Rightarrow> None
       | Some (len, tmp) \<Rightarrow>
           (case PACKET_get_bytes tmp (unat len) of
              None \<Rightarrow> None
            | Some (data, tmp) \<Rightarrow> Some (\<lparr>pkt_curr = data, pkt_remaining = unat len\<rparr>, tmp)))"
begin

definition announced :: "packet \<Rightarrow> nat" where
  "announced pkt = be_value (take k (pkt_bytes pkt))"

lemma announced_less: "announced pkt < 256 ^ k"
proof -
  have "announced pkt < 256 ^ length (take k (pkt_bytes pkt))"
    unfolding announced_def by (rule be_value_less)
  also have "\<dots> \<le> 256 ^ k"
    by (intro power_increasing) auto
  finally show ?thesis .
qed

lemma get_prefixed_spec:
  assumes ok: "pkt_ok pkt"
  shows "get_prefixed pkt =
    (if k + announced pkt \<le> length (pkt_bytes pkt) \<and> k \<le> length (pkt_bytes pkt)
     then Some (\<lparr>pkt_curr = take (announced pkt) (drop k (pkt_bytes pkt)), pkt_remaining = announced pkt\<rparr>,
                packet_forward (packet_forward pkt k) (announced pkt))
     else None)"
proof (cases "k \<le> length (pkt_bytes pkt)")
  case True
  have u: "unat (of_nat (be_value (take k (pkt_bytes pkt))) :: 'l word) = announced pkt"
    using less_le_trans [OF announced_less [of pkt] fits]
    by (simp add: announced_def unat_of_nat)
  have f: "pkt_ok (packet_forward pkt k)" "pkt_bytes (packet_forward pkt k) = drop k (pkt_bytes pkt)"
    using packet_forward_bytes [OF ok] True length_pkt_bytes [OF ok] by auto
  show ?thesis
    using True by (auto simp: get_prefixed_eq get_spec [OF ok] u get_bytes_spec [OF f(1)] f(2))
next
  case False
  then show ?thesis
    by (simp add: get_prefixed_eq get_spec [OF ok])
qed

lemma get_prefixed_read:
  assumes ok: "pkt_ok pkt" and b: "pkt_bytes pkt = l @ body @ rest"
    and l: "length l = k" "be_value l = length body"
  shows "\<exists>pkt'. get_prefixed pkt = Some (\<lparr>pkt_curr = body, pkt_remaining = length body\<rparr>, pkt') \<and>
           pkt_ok pkt' \<and> pkt_bytes pkt' = rest"
proof -
  have a: "announced pkt = length body"
    by (simp add: announced_def b l)
  have rem: "pkt_remaining pkt = k + length body + length rest"
    using length_pkt_bytes [OF ok] by (simp add: b l)
  note f = packet_forward_bytes [OF ok, of k]
  have f1: "pkt_ok (packet_forward pkt k)" "pkt_bytes (packet_forward pkt k) = body @ rest"
    using f rem by (simp_all add: b l)
  then have "length body \<le> pkt_remaining (packet_forward pkt k)"
    using length_pkt_bytes [OF f1(1)] by simp
  from packet_forward_bytes [OF f1(1) this] f1 show ?thesis
    by (simp add: get_prefixed_spec [OF ok] a b l)
qed

text \<open>A successful read never goes past the end and splits the bytes exactly.\<close>

lemma get_prefixed_sound:
  assumes ok: "pkt_ok pkt" and r: "get_prefixed pkt = Some (sub, pkt')"
  shows "pkt_ok sub" and "pkt_ok pkt'"
    and "pkt_bytes pkt = take k (pkt_bytes pkt) @ pkt_bytes sub @ pkt_bytes pkt'"
    and "be_value (take k (pkt_bytes pkt)) = length (pkt_bytes sub)"
proof -
  from r have g: "k + announced pkt \<le> length (pkt_bytes pkt)"
    and sub: "sub = \<lparr>pkt_curr = take (announced pkt) (drop k (pkt_bytes pkt)), pkt_remaining = announced pkt\<rparr>"
    and pkt': "pkt' = packet_forward (packet_forward pkt k) (announced pkt)"
    by (auto simp: get_prefixed_spec [OF ok] split: if_splits)
  have f1: "pkt_ok (packet_forward pkt k)" "pkt_bytes (packet_forward pkt k) = drop k (pkt_bytes pkt)"
    using packet_forward_bytes [OF ok, of k] g length_pkt_bytes [OF ok] by simp_all
  have "announced pkt \<le> pkt_remaining (packet_forward pkt k)"
    using g length_pkt_bytes [OF f1(1)] f1(2) by simp
  note f2 = packet_forward_bytes [OF f1(1) this]
  show "pkt_ok sub"
    using g announced_less [of pkt] small by (simp add: sub pkt_ok_def)
  show "pkt_ok pkt'"
    by (simp add: pkt' f2)
  have sb: "pkt_bytes sub = take (announced pkt) (drop k (pkt_bytes pkt))"
    by (simp add: sub pkt_bytes_def)
  show "pkt_bytes pkt = take k (pkt_bytes pkt) @ pkt_bytes sub @ pkt_bytes pkt'"
    by (simp add: sb pkt' f2 f1 append_take_drop_id del: drop_drop)
  show "be_value (take k (pkt_bytes pkt)) = length (pkt_bytes sub)"
    using g by (simp add: sb announced_def)
qed

end

interpretation lp1: length_prefixed PACKET_get_1 1 PACKET_get_length_prefixed_1
  by unfold_locales (simp_all add: get_1_spec PACKET_get_length_prefixed_1_def SIZE_MAX_def)

interpretation lp2: length_prefixed PACKET_get_net_2 2 PACKET_get_length_prefixed_2
  by unfold_locales (simp_all add: get_net_2_spec PACKET_get_length_prefixed_2_def SIZE_MAX_def)

interpretation lp3: length_prefixed PACKET_get_net_3 3 PACKET_get_length_prefixed_3
  by unfold_locales (simp_all add: get_net_3_spec PACKET_get_length_prefixed_3_def SIZE_MAX_def)

end
