(* ===== verification/Quic_Vlint.thy ===== *)
theory Quic_Vlint
  imports Packet
begin

text \<open>
  QUIC variable-length integers: \<open>include/internal/quic_vlint.h\<close>, \<open>crypto/quic_vlint.c\<close> and
  the readers of \<open>include/internal/packet_quic.h\<close>. An encoder returns the bytes it stores from
  \<open>buf\<close> on; a decoder reads them from the list that starts at \<open>buf\<close>.
\<close>

section \<open>Operations\<close>

definition OSSL_QUIC_VLINT_2B_MIN :: u64 where "OSSL_QUIC_VLINT_2B_MIN = 64"
definition OSSL_QUIC_VLINT_4B_MIN :: u64 where "OSSL_QUIC_VLINT_4B_MIN = 16384"
definition OSSL_QUIC_VLINT_8B_MIN :: u64 where "OSSL_QUIC_VLINT_8B_MIN = 1073741824"
definition OSSL_QUIC_VLINT_MAX :: u64 where "OSSL_QUIC_VLINT_MAX = push_bit 62 1 - 1"

definition ossl_quic_vlint_encode_len :: "u64 \<Rightarrow> nat" where
  "ossl_quic_vlint_encode_len v =
     (if v < OSSL_QUIC_VLINT_2B_MIN then 1
      else if v < OSSL_QUIC_VLINT_4B_MIN then 2
      else if v < OSSL_QUIC_VLINT_8B_MIN then 4
      else if v \<le> OSSL_QUIC_VLINT_MAX then 8
      else 0)"

definition ossl_quic_vlint_encode_n :: "u64 \<Rightarrow> nat \<Rightarrow> bytes" where
  "ossl_quic_vlint_encode_n v n =
     (if n = 1 then [ucast v]
      else if n = 2 then [ucast (0x40 OR (drop_bit 8 v AND 0x3F)), ucast v]
      else if n = 4 then
        [ucast (0x80 OR (drop_bit 24 v AND 0x3F)), ucast (drop_bit 16 v),
         ucast (drop_bit 8 v), ucast v]
      else
        [ucast (0xC0 OR (drop_bit 56 v AND 0x3F)), ucast (drop_bit 48 v),
         ucast (drop_bit 40 v), ucast (drop_bit 32 v), ucast (drop_bit 24 v),
         ucast (drop_bit 16 v), ucast (drop_bit 8 v), ucast v])"

definition ossl_quic_vlint_encode :: "u64 \<Rightarrow> bytes" where
  "ossl_quic_vlint_encode v = ossl_quic_vlint_encode_n v (ossl_quic_vlint_encode_len v)"

definition ossl_quic_vlint_decode_len :: "byte \<Rightarrow> nat" where
  "ossl_quic_vlint_decode_len first_byte =
     unat (push_bit (unat (drop_bit 6 (first_byte AND 0xC0))) 1 :: u32)"

definition ossl_quic_vlint_decode_unchecked :: "bytes \<Rightarrow> u64" where
  "ossl_quic_vlint_decode_unchecked buf =
     (let first_byte = buf ! 0; sz = ossl_quic_vlint_decode_len first_byte
      in if sz = 1 then ucast (first_byte AND 0x3F)
         else if sz = 2 then
           push_bit 8 (ucast (first_byte AND 0x3F)) OR ucast (buf ! 1)
         else if sz = 4 then
           push_bit 24 (ucast (first_byte AND 0x3F)) OR push_bit 16 (ucast (buf ! 1))
             OR push_bit 8 (ucast (buf ! 2)) OR ucast (buf ! 3)
         else
           push_bit 56 (ucast (first_byte AND 0x3F)) OR push_bit 48 (ucast (buf ! 1))
             OR push_bit 40 (ucast (buf ! 2)) OR push_bit 32 (ucast (buf ! 3))
             OR push_bit 24 (ucast (buf ! 4)) OR push_bit 16 (ucast (buf ! 5))
             OR push_bit 8 (ucast (buf ! 6)) OR ucast (buf ! 7))"

text \<open>\<open>ossl_quic_vlint_decode\<close>: the number of bytes consumed and the value, \<open>None\<close> for 0.\<close>

definition ossl_quic_vlint_decode :: "bytes \<Rightarrow> nat \<Rightarrow> (nat \<times> u64) option" where
  "ossl_quic_vlint_decode buf buf_len =
     (if buf_len < 1 then None
      else let dec_len = ossl_quic_vlint_decode_len (buf ! 0)
           in if buf_len < dec_len then None
              else Some (dec_len, ossl_quic_vlint_decode_unchecked buf))"

definition PACKET_get_quic_vlint :: "packet \<Rightarrow> (u64 \<times> packet) option" where
  "PACKET_get_quic_vlint pkt =
     (if PACKET_remaining pkt < 1 then None
      else let enclen = ossl_quic_vlint_decode_len (pkt_curr pkt ! 0)
           in if PACKET_remaining pkt < enclen then None
              else Some (ossl_quic_vlint_decode_unchecked (pkt_curr pkt), packet_forward pkt enclen))"

text \<open>\<open>PACKET_peek_quic_vlint_ex\<close>: the value and \<open>*was_minimal\<close>.\<close>

definition PACKET_peek_quic_vlint_ex :: "packet \<Rightarrow> (u64 \<times> bool) option" where
  "PACKET_peek_quic_vlint_ex pkt =
     (if PACKET_remaining pkt < 1 then None
      else let enclen = ossl_quic_vlint_decode_len (pkt_curr pkt ! 0)
           in if PACKET_remaining pkt < enclen then None
              else let data = ossl_quic_vlint_decode_unchecked (pkt_curr pkt)
                   in Some (data, enclen = ossl_quic_vlint_encode_len data))"

definition PACKET_peek_quic_vlint :: "packet \<Rightarrow> u64 option" where
  "PACKET_peek_quic_vlint pkt = map_option fst (PACKET_peek_quic_vlint_ex pkt)"

definition PACKET_skip_quic_vlint :: "packet \<Rightarrow> packet option" where
  "PACKET_skip_quic_vlint pkt =
     (if PACKET_remaining pkt < 1 then None
      else let enclen = ossl_quic_vlint_decode_len (pkt_curr pkt ! 0)
           in if PACKET_remaining pkt < enclen then None
              else Some (packet_forward pkt enclen))"

definition PACKET_get_quic_length_prefixed :: "packet \<Rightarrow> (packet \<times> packet) option" where
  "PACKET_get_quic_length_prefixed pkt =
     (case PACKET_get_quic_vlint pkt of
        None \<Rightarrow> None
      | Some (len, tmp) \<Rightarrow>
          if unat len > SIZE_MAX then None
          else (case PACKET_get_bytes tmp (unat len) of
                  None \<Rightarrow> None
                | Some (data, tmp) \<Rightarrow> Some (\<lparr>pkt_curr = data, pkt_remaining = unat len\<rparr>, tmp)))"

section \<open>Round trip\<close>

lemma first_byte_value:
  fixes t w :: u64
  assumes t: "take_bit 6 t = 0" and w: "drop_bit 6 w = 0"
  shows "(ucast (t OR (w AND 0x3F)) :: byte) AND 0x3F = ucast w"
proof -
  have m: "(0x3F :: u64) = mask 6" "(0x3F :: byte) = mask 6"
    by (simp_all add: mask_eq_exp_minus_1)
  have tb: "\<not> bit t n" if "n < 6" for n
    using arg_cong [OF t, of "\<lambda>x. bit x n"] that by (simp add: bit_simps)
  have wb: "n < 6" if "bit w n" for n
    using arg_cong [OF w, of "\<lambda>x. bit x (n - 6)"] that by (auto simp: bit_simps not_le [symmetric])
  show ?thesis
    unfolding m by (rule bit_word_eqI) (use tb wb in \<open>auto simp: bit_simps not_le\<close>)
qed

lemma first_byte_tag:
  fixes t w :: u64
  shows "drop_bit 6 ((ucast (t OR (w AND 0x3F)) :: byte) AND 0xC0) = drop_bit 6 (ucast t)"
proof -
  have m: "(0x3F :: u64) = mask 6" "(0xC0 :: byte) = NOT (mask 6)"
    by (simp_all add: mask_eq_exp_minus_1)
  show ?thesis
    unfolding m by (rule bit_word_eqI) (auto simp: bit_simps)
qed

lemma small_drop_bit:
  fixes v :: u64
  assumes "unat v < 2 ^ k" shows "drop_bit k v = 0"
proof -
  have "unat (drop_bit k v) = 0"
    unfolding unat_drop_bit_eq using assms by (simp add: drop_bit_eq_div)
  then show ?thesis
    by (simp add: unat_eq_0)
qed

lemma encode_len_eq:
  "ossl_quic_vlint_encode_len v =
     (if unat v < 2 ^ 6 then 1 else if unat v < 2 ^ 14 then 2 else if unat v < 2 ^ 30 then 4
      else if unat v < 2 ^ 62 then 8 else 0)"
  by (simp add: ossl_quic_vlint_encode_len_def OSSL_QUIC_VLINT_2B_MIN_def OSSL_QUIC_VLINT_4B_MIN_def
      OSSL_QUIC_VLINT_8B_MIN_def OSSL_QUIC_VLINT_MAX_def word_less_nat_alt word_le_nat_alt less_Suc_eq_le
      cong: if_cong)

text \<open>What an encoder writes in \<open>n\<close> bytes, the decoder reads, whatever follows it.\<close>

lemma decode_encode_n:
  assumes "n \<in> {1, 2, 4, 8}" and "unat v < 2 ^ (8 * n - 2)"
  shows "ossl_quic_vlint_decode_len ((ossl_quic_vlint_encode_n v n @ rest) ! 0) = n"
    and "ossl_quic_vlint_decode_unchecked (ossl_quic_vlint_encode_n v n @ rest) = v"
proof -
  have d: "drop_bit 6 (drop_bit (8 * n - 8) v) = 0"
    using small_drop_bit [OF assms(2)] assms(1) by (auto simp: drop_bit_drop_bit)
  have z: "take_bit 6 (0x40 :: u64) = 0" "take_bit 6 (0x80 :: u64) = 0" "take_bit 6 (0xC0 :: u64) = 0"
    by (simp_all add: take_bit_eq_mod)
  have vb: "drop_bit (8 * n) v = 0"
    using small_drop_bit [of v "8 * n"] assms by (auto simp: less_trans)
  note fb = first_byte_value [OF z(1) d] first_byte_value [OF z(2) d] first_byte_value [OF z(3) d]
  have one: "(ucast v :: byte) AND 0x3F = ucast v" "drop_bit 6 ((ucast v :: byte) AND 0xC0) = 0"
    if "n = 1"
  proof -
    have "v AND 0x3F = take_bit 6 v"
      by (simp add: take_bit_eq_mask mask_eq_exp_minus_1)
    also have "\<dots> = v"
      using d that bits_ident [of 6 v] by simp
    finally show "(ucast v :: byte) AND 0x3F = ucast v" "drop_bit 6 ((ucast v :: byte) AND 0xC0) = 0"
      using first_byte_value [of 0 v] first_byte_tag [of 0 v] d that by auto
  qed
  show l: "ossl_quic_vlint_decode_len ((ossl_quic_vlint_encode_n v n @ rest) ! 0) = n"
    using assms(1) one(2) unfolding ossl_quic_vlint_decode_len_def
    by (elim insertE emptyE) (simp_all add: ossl_quic_vlint_encode_n_def first_byte_tag del: drop_bit_and)
  have v2: "push_bit 8 (ucast (ucast (drop_bit 8 v) :: byte)) OR ucast (ucast v :: byte) = v" if "n = 2"
    using split_byte_0 [of v] split_byte [of 8 v] vb that by (simp add: or.commute)
  have v4: "push_bit 24 (ucast (ucast (drop_bit 24 v) :: byte))
    OR push_bit 16 (ucast (ucast (drop_bit 16 v) :: byte))
    OR push_bit 8 (ucast (ucast (drop_bit 8 v) :: byte)) OR ucast (ucast v :: byte) = v" if "n = 4"
    using split_byte_0 [of v] split_byte [of 8 v] split_byte [of 16 v] split_byte [of 24 v] vb that
    by (simp add: or.commute or.left_commute)
  have v1: "ucast (ucast v :: byte) = v" if "n = 1"
    using split_byte_0 [of v] vb that by simp
  show "ossl_quic_vlint_decode_unchecked (ossl_quic_vlint_encode_n v n @ rest) = v"
    using assms(1) l unfolding ossl_quic_vlint_decode_unchecked_def l Let_def
    by (elim insertE emptyE) (use fb one v1 v2 v4 word64_bytes [of v] in
      \<open>simp_all add: ossl_quic_vlint_encode_n_def or.commute or.left_commute\<close>)
qed

text \<open>The minimal encoding is read back, and its length is the one announced.\<close>

lemma vlint_encode_length: "unat v < 2 ^ 62 \<Longrightarrow> length (ossl_quic_vlint_encode v) = ossl_quic_vlint_encode_len v"
  by (simp add: ossl_quic_vlint_encode_def ossl_quic_vlint_encode_n_def encode_len_eq)

lemma vlint_decode_encode:
  assumes "unat v < 2 ^ 62"
  shows "ossl_quic_vlint_decode_len ((ossl_quic_vlint_encode v @ rest) ! 0) = length (ossl_quic_vlint_encode v)"
    and "ossl_quic_vlint_decode_unchecked (ossl_quic_vlint_encode v @ rest) = v"
proof -
  have n: "ossl_quic_vlint_encode_len v \<in> {1, 2, 4, 8}" "unat v < 2 ^ (8 * ossl_quic_vlint_encode_len v - 2)"
    using assms by (auto simp: encode_len_eq)
  show "ossl_quic_vlint_decode_len ((ossl_quic_vlint_encode v @ rest) ! 0) = length (ossl_quic_vlint_encode v)"
    and "ossl_quic_vlint_decode_unchecked (ossl_quic_vlint_encode v @ rest) = v"
    using decode_encode_n [OF n, of rest] vlint_encode_length [OF assms]
    by (simp_all add: ossl_quic_vlint_encode_def)
qed

end
