(* ===== verification/Wpacket.thy ===== *)
theory Wpacket
  imports Quic_Vlint
begin

text \<open>
  The packet writer \<open>WPACKET\<close> of \<open>crypto/packet.c\<close> and the growable buffer \<open>BUF_MEM\<close> of
  \<open>crypto/buffer/buffer.c\<close> under it.

  The linked list of open sub-packets is a list, innermost first, so that \<open>sub->parent\<close> is the
  tail. A pointer into the output buffer is its offset, \<open>None\<close> for the null pointer a writer
  without a buffer hands out. An operation that returns 0 is \<open>None\<close>: the packet it leaves behind
  is only ever cleaned up.
\<close>

section \<open>BUF_MEM\<close>

record buf_mem =
  bm_length :: nat
  bm_data :: "bytes option"
  bm_max :: nat

definition LIMIT_BEFORE_EXPANSION :: nat where
  "LIMIT_BEFORE_EXPANSION = 0x5ffffffc"

definition BUF_MEM_new :: buf_mem where
  "BUF_MEM_new = \<lparr>bm_length = 0, bm_data = None, bm_max = 0\<rparr>"

text \<open>
  The value returned and the buffer. Bytes of a fresh allocation that \<open>memset\<close> does not reach
  (at and above \<open>length\<close>) are indeterminate in C and never read before they are cleared; the
  model has 0 there.
\<close>

definition BUF_MEM_grow :: "allocator \<Rightarrow> buf_mem \<Rightarrow> nat \<Rightarrow> nat \<times> buf_mem" where
  "BUF_MEM_grow al str len =
     (if bm_length str \<ge> len then (len, str\<lparr>bm_length := len\<rparr>)
      else if bm_max str \<ge> len then
        (len, str\<lparr>bm_data := map_option (\<lambda>d. store_at d (bm_length str)
                                (replicate (len - bm_length str) 0)) (bm_data str),
                  bm_length := len\<rparr>)
      else if len > LIMIT_BEFORE_EXPANSION then (0, str)
      else let n = (len + 3) div 3 * 4
           in if \<not> al n then (0, str)
              else let old = (case bm_data str of None \<Rightarrow> [] | Some d \<Rightarrow> take (bm_length str) d)
                   in (len, str\<lparr>bm_data := Some (old @ replicate (n - length old) 0),
                                bm_max := n, bm_length := len\<rparr>))"

section \<open>WPACKET\<close>

record wpacket_sub =
  sub_packet_len :: nat
  sub_lenbytes :: nat
  sub_pwritten :: nat
  sub_flags :: u32

record wpacket =
  wp_buf :: "buf_mem option"
  wp_staticbuf :: "bytes option"
  wp_curr :: nat
  wp_written :: nat
  wp_maxsize :: nat
  wp_subs :: "wpacket_sub list"
  wp_endfirst :: bool

definition WPACKET_FLAGS_NON_ZERO_LENGTH :: u32 where "WPACKET_FLAGS_NON_ZERO_LENGTH = 1"
definition WPACKET_FLAGS_ABANDON_ON_ZERO_LENGTH :: u32 where "WPACKET_FLAGS_ABANDON_ON_ZERO_LENGTH = 2"
definition WPACKET_FLAGS_QUIC_VLINT :: u32 where "WPACKET_FLAGS_QUIC_VLINT = 4"

definition DEFAULT_BUF_SIZE :: nat where
  "DEFAULT_BUF_SIZE = 256"

text \<open>\<open>sizeof(WPACKET_SUB)\<close>: a pointer, three \<open>size_t\<close> and an \<open>unsigned int\<close>, padded to 40.\<close>

definition sizeof_wpacket_sub :: nat where
  "sizeof_wpacket_sub = 40"

definition GETBUF :: "wpacket \<Rightarrow> bytes option" where
  "GETBUF p =
     (if wp_staticbuf p \<noteq> None then wp_staticbuf p
      else case wp_buf p of None \<Rightarrow> None | Some b \<Rightarrow> bm_data b)"

text \<open>A store through a pointer that the packet handed out.\<close>

definition wp_store :: "wpacket \<Rightarrow> nat option \<Rightarrow> bytes \<Rightarrow> wpacket" where
  "wp_store p ptr ds =
     (case ptr of
        None \<Rightarrow> p
      | Some off \<Rightarrow>
          (case wp_staticbuf p of
             Some d \<Rightarrow> p\<lparr>wp_staticbuf := Some (store_at d off ds)\<rparr>
           | None \<Rightarrow> p\<lparr>wp_buf := map_option (\<lambda>b. b\<lparr>bm_data :=
                 map_option (\<lambda>d. store_at d off ds) (bm_data b)\<rparr>) (wp_buf p)\<rparr>))"

definition WPACKET_get_curr :: "wpacket \<Rightarrow> nat option" where
  "WPACKET_get_curr p =
     (case GETBUF p of
        None \<Rightarrow> None
      | Some _ \<Rightarrow> if wp_endfirst p then Some (size_sub (wp_maxsize p) (wp_curr p))
                  else Some (wp_curr p))"

definition WPACKET_reserve_bytes ::
    "allocator \<Rightarrow> wpacket \<Rightarrow> nat \<Rightarrow> (nat option \<times> wpacket) option" where
  "WPACKET_reserve_bytes al p len =
     (if \<not> (wp_subs p \<noteq> [] \<and> len \<noteq> 0) then None
      else if size_sub (wp_maxsize p) (wp_written p) < len then None
      else
        let grown =
          (case wp_buf p of
             None \<Rightarrow> Some p
           | Some b \<Rightarrow>
               if size_sub (bm_length b) (wp_written p) < len then
                 let reflen = (if len > bm_length b then len else bm_length b);
                     newlen = (if reflen > SIZE_MAX div 2 then SIZE_MAX
                               else if reflen * 2 < DEFAULT_BUF_SIZE then DEFAULT_BUF_SIZE
                               else reflen * 2)
                 in (case BUF_MEM_grow al b newlen of
                       (r, b') \<Rightarrow> if r = 0 then None else Some (p\<lparr>wp_buf := Some b'\<rparr>))
               else Some p)
        in (case grown of
              None \<Rightarrow> None
            | Some p' \<Rightarrow>
                Some ((case WPACKET_get_curr p' of
                         None \<Rightarrow> None
                       | Some c \<Rightarrow> Some (if wp_endfirst p' then c - len else c)), p')))"

definition WPACKET_allocate_bytes ::
    "allocator \<Rightarrow> wpacket \<Rightarrow> nat \<Rightarrow> (nat option \<times> wpacket) option" where
  "WPACKET_allocate_bytes al p len =
     (case WPACKET_reserve_bytes al p len of
        None \<Rightarrow> None
      | Some (ptr, p') \<Rightarrow>
          Some (ptr, p'\<lparr>wp_written := size_add (wp_written p') len,
                        wp_curr := size_add (wp_curr p') len\<rparr>))"

definition WPACKET_sub_reserve_bytes ::
    "allocator \<Rightarrow> wpacket \<Rightarrow> nat \<Rightarrow> nat \<Rightarrow> (nat option \<times> wpacket) option" where
  "WPACKET_sub_reserve_bytes al p len lenbytes =
     (if wp_endfirst p \<and> lenbytes > 0 then None
      else case WPACKET_reserve_bytes al p (size_add lenbytes len) of
             None \<Rightarrow> None
           | Some (ptr, p') \<Rightarrow> Some (map_option (\<lambda>c. c + lenbytes) ptr, p'))"

definition maxmaxsize :: "nat \<Rightarrow> nat" where
  "maxmaxsize lenbytes =
     (if lenbytes \<ge> 8 \<or> lenbytes = 0 then SIZE_MAX else 2 ^ (lenbytes * 8) - 1 + lenbytes)"

definition new_sub :: wpacket_sub where
  "new_sub = \<lparr>sub_packet_len = 0, sub_lenbytes = 0, sub_pwritten = 0, sub_flags = 0\<rparr>"

definition wpacket_intern_init_len :: "allocator \<Rightarrow> wpacket \<Rightarrow> nat \<Rightarrow> wpacket option" where
  "wpacket_intern_init_len al p lenbytes =
     (if \<not> al sizeof_wpacket_sub then None
      else if lenbytes = 0 then Some (p\<lparr>wp_curr := 0, wp_written := 0, wp_subs := [new_sub]\<rparr>)
      else
        let p' = p\<lparr>wp_curr := 0, wp_written := 0,
                   wp_subs := [new_sub\<lparr>sub_pwritten := lenbytes, sub_lenbytes := lenbytes\<rparr>]\<rparr>
        in map_option snd (WPACKET_allocate_bytes al p' lenbytes))"

definition WPACKET_init_static_len :: "allocator \<Rightarrow> bytes \<Rightarrow> nat \<Rightarrow> nat \<Rightarrow> wpacket option" where
  "WPACKET_init_static_len al buf len lenbytes =
     (let max = maxmaxsize lenbytes
      in if \<not> len > 0 then None
         else wpacket_intern_init_len al
                \<lparr>wp_buf = None, wp_staticbuf = Some buf, wp_curr = 0, wp_written = 0,
                 wp_maxsize = (if max < len then max else len), wp_subs = [], wp_endfirst = False\<rparr>
                lenbytes)"

definition WPACKET_init_der :: "allocator \<Rightarrow> bytes \<Rightarrow> nat \<Rightarrow> wpacket option" where
  "WPACKET_init_der al buf len =
     (if \<not> len > 0 then None
      else wpacket_intern_init_len al
             \<lparr>wp_buf = None, wp_staticbuf = Some buf, wp_curr = 0, wp_written = 0,
              wp_maxsize = len, wp_subs = [], wp_endfirst = True\<rparr> 0)"

definition WPACKET_init_len :: "allocator \<Rightarrow> buf_mem \<Rightarrow> nat \<Rightarrow> wpacket option" where
  "WPACKET_init_len al buf lenbytes =
     wpacket_intern_init_len al
       \<lparr>wp_buf = Some buf, wp_staticbuf = None, wp_curr = 0, wp_written = 0,
        wp_maxsize = maxmaxsize lenbytes, wp_subs = [], wp_endfirst = False\<rparr> lenbytes"

definition WPACKET_init :: "allocator \<Rightarrow> buf_mem \<Rightarrow> wpacket option" where
  "WPACKET_init al buf = WPACKET_init_len al buf 0"

definition WPACKET_init_null :: "allocator \<Rightarrow> nat \<Rightarrow> wpacket option" where
  "WPACKET_init_null al lenbytes =
     wpacket_intern_init_len al
       \<lparr>wp_buf = None, wp_staticbuf = None, wp_curr = 0, wp_written = 0,
        wp_maxsize = maxmaxsize lenbytes, wp_subs = [], wp_endfirst = False\<rparr> 0"

definition WPACKET_init_null_der :: "allocator \<Rightarrow> wpacket option" where
  "WPACKET_init_null_der al =
     wpacket_intern_init_len al
       \<lparr>wp_buf = None, wp_staticbuf = None, wp_curr = 0, wp_written = 0,
        wp_maxsize = SIZE_MAX, wp_subs = [], wp_endfirst = True\<rparr> 0"

definition WPACKET_set_flags :: "wpacket \<Rightarrow> u32 \<Rightarrow> wpacket option" where
  "WPACKET_set_flags p flags =
     (case wp_subs p of
        [] \<Rightarrow> None
      | sub # parents \<Rightarrow> Some (p\<lparr>wp_subs := sub\<lparr>sub_flags := flags\<rparr> # parents\<rparr>))"

text \<open>
  The loop of \<open>put_value\<close> fills \<open>len\<close> bytes from the last to the first; what is left of the value
  is returned with them.
\<close>

primrec put_value_loop :: "u64 \<Rightarrow> nat \<Rightarrow> bytes \<Rightarrow> bytes \<times> u64" where
  "put_value_loop value 0 acc = (acc, value)"
| "put_value_loop value (Suc len) acc =
     put_value_loop (drop_bit 8 value) len (ucast (value AND 0xff) # acc)"

definition put_value :: "wpacket \<Rightarrow> nat option \<Rightarrow> u64 \<Rightarrow> nat \<Rightarrow> wpacket option" where
  "put_value p data value len =
     (case data of
        None \<Rightarrow> Some p
      | Some off \<Rightarrow>
          (case put_value_loop value len [] of
             (ds, rest) \<Rightarrow> if rest > 0 then None else Some (wp_store p (Some off) ds)))"

definition put_quic_value :: "wpacket \<Rightarrow> nat option \<Rightarrow> u64 \<Rightarrow> nat \<Rightarrow> wpacket option" where
  "put_quic_value p data value len =
     (case data of
        None \<Rightarrow> Some p
      | Some off \<Rightarrow>
          if ossl_quic_vlint_encode_len value > len then None
          else Some (wp_store p (Some off) (ossl_quic_vlint_encode_n value len)))"

definition WPACKET_put_bytes :: "allocator \<Rightarrow> wpacket \<Rightarrow> u64 \<Rightarrow> nat \<Rightarrow> wpacket option" where
  "WPACKET_put_bytes al p val sz =
     (if \<not> sz \<le> 8 then None
      else case WPACKET_allocate_bytes al p sz of
             None \<Rightarrow> None
           | Some (data, p') \<Rightarrow> put_value p' data val sz)"

text \<open>\<open>while ((tmplen = tmplen >> 8) > 0) numlenbytes++\<close>\<close>

fun der_numlenbytes :: "nat \<Rightarrow> nat \<Rightarrow> nat" where
  "der_numlenbytes tmplen numlenbytes =
     (if tmplen div 256 > 0 then der_numlenbytes (tmplen div 256) (numlenbytes + 1)
      else numlenbytes)"

declare der_numlenbytes.simps [simp del]

text \<open>
  The part of \<open>wpacket_intern_close\<close> that writes the length: into the bytes kept for it, or in
  front of the contents for a sub-packet of a DER writer.
\<close>

definition close_fill ::
    "allocator \<Rightarrow> wpacket \<Rightarrow> wpacket_sub \<Rightarrow> wpacket_sub list \<Rightarrow> nat \<Rightarrow> wpacket option" where
  "close_fill al p sub parents packlen =
     (if sub_lenbytes sub > 0 then
        (if GETBUF p \<noteq> None then
           (if sub_flags sub AND WPACKET_FLAGS_QUIC_VLINT = 0
            then put_value p (Some (sub_packet_len sub)) (of_nat packlen) (sub_lenbytes sub)
            else put_quic_value p (Some (sub_packet_len sub)) (of_nat packlen) (sub_lenbytes sub))
         else Some p)
      else if wp_endfirst p \<and> parents \<noteq> []
              \<and> (packlen \<noteq> 0 \<or> sub_flags sub AND WPACKET_FLAGS_ABANDON_ON_ZERO_LENGTH = 0) then
        let numlenbytes = der_numlenbytes packlen 1
        in (case WPACKET_put_bytes al p (of_nat packlen) numlenbytes of
              None \<Rightarrow> None
            | Some p2 \<Rightarrow>
                if packlen > 0x7f then WPACKET_put_bytes al p2 (of_nat numlenbytes OR 0x80) 1
                else Some p2)
      else Some p)"

text \<open>
  \<open>wpacket_intern_close\<close> on a sub-packet with the given parents. The flags tested are those of the
  C code: an empty sub-packet may be refused, or abandoned together with its length bytes.
\<close>

definition wpacket_intern_close ::
    "allocator \<Rightarrow> wpacket \<Rightarrow> wpacket_sub \<Rightarrow> wpacket_sub list \<Rightarrow> bool \<Rightarrow> wpacket option" where
  "wpacket_intern_close al p sub parents doclose =
     (let packlen = size_sub (wp_written p) (sub_pwritten sub);
          abandon = (packlen = 0 \<and> sub_flags sub AND WPACKET_FLAGS_ABANDON_ON_ZERO_LENGTH \<noteq> 0)
      in if packlen = 0 \<and> sub_flags sub AND WPACKET_FLAGS_NON_ZERO_LENGTH \<noteq> 0 then None
         else if abandon \<and> \<not> doclose then None
         else
           let p1 = (if abandon \<and> size_sub (wp_curr p) (sub_lenbytes sub) = sub_packet_len sub
                     then p\<lparr>wp_written := size_sub (wp_written p) (sub_lenbytes sub),
                            wp_curr := size_sub (wp_curr p) (sub_lenbytes sub)\<rparr>
                     else p);
               sub1 = (if abandon then sub\<lparr>sub_packet_len := 0, sub_lenbytes := 0\<rparr> else sub)
           in map_option (\<lambda>p2. if doclose then p2\<lparr>wp_subs := parents\<rparr> else p2)
                (close_fill al p1 sub1 parents packlen))"

text \<open>The loop of \<open>WPACKET_fill_lengths\<close> over \<open>pkt->subs\<close> and its parents.\<close>

fun fill_lengths_loop :: "allocator \<Rightarrow> wpacket \<Rightarrow> wpacket_sub list \<Rightarrow> wpacket option" where
  "fill_lengths_loop al p [] = Some p"
| "fill_lengths_loop al p (sub # parents) =
     (case wpacket_intern_close al p sub parents False of
        None \<Rightarrow> None
      | Some p' \<Rightarrow> fill_lengths_loop al p' parents)"

definition WPACKET_fill_lengths :: "allocator \<Rightarrow> wpacket \<Rightarrow> wpacket option" where
  "WPACKET_fill_lengths al p =
     (if wp_subs p = [] then None else fill_lengths_loop al p (wp_subs p))"

definition WPACKET_close :: "allocator \<Rightarrow> wpacket \<Rightarrow> wpacket option" where
  "WPACKET_close al p =
     (case wp_subs p of
        [] \<Rightarrow> None
      | sub # parents \<Rightarrow> if parents = [] then None
                         else wpacket_intern_close al p sub parents True)"

definition WPACKET_finish :: "allocator \<Rightarrow> wpacket \<Rightarrow> wpacket option" where
  "WPACKET_finish al p =
     (case wp_subs p of
        [] \<Rightarrow> None
      | sub # parents \<Rightarrow> if parents \<noteq> [] then None
                         else wpacket_intern_close al p sub parents True)"

definition WPACKET_start_sub_packet_len :: "allocator \<Rightarrow> wpacket \<Rightarrow> nat \<Rightarrow> wpacket option" where
  "WPACKET_start_sub_packet_len al p lenbytes =
     (if wp_subs p = [] then None
      else if lenbytes > 0 \<and> wp_endfirst p then None
      else if \<not> al sizeof_wpacket_sub then None
      else
        let sub = new_sub\<lparr>sub_pwritten := size_add (wp_written p) lenbytes,
                          sub_lenbytes := lenbytes,
                          sub_packet_len := (if lenbytes = 0 then 0 else wp_written p)\<rparr>;
            p' = p\<lparr>wp_subs := sub # wp_subs p\<rparr>
        in if lenbytes = 0 then Some p'
           else map_option snd (WPACKET_allocate_bytes al p' lenbytes))"

definition WPACKET_start_sub_packet :: "allocator \<Rightarrow> wpacket \<Rightarrow> wpacket option" where
  "WPACKET_start_sub_packet al p = WPACKET_start_sub_packet_len al p 0"

definition WPACKET_sub_allocate_bytes ::
    "allocator \<Rightarrow> wpacket \<Rightarrow> nat \<Rightarrow> nat \<Rightarrow> (nat option \<times> wpacket) option" where
  "WPACKET_sub_allocate_bytes al p len lenbytes =
     (case WPACKET_start_sub_packet_len al p lenbytes of
        None \<Rightarrow> None
      | Some p1 \<Rightarrow>
          (case WPACKET_allocate_bytes al p1 len of
             None \<Rightarrow> None
           | Some (ptr, p2) \<Rightarrow> map_option (Pair ptr) (WPACKET_close al p2)))"

definition WPACKET_set_max_size :: "wpacket \<Rightarrow> nat \<Rightarrow> wpacket option" where
  "WPACKET_set_max_size p maxsize =
     (if wp_subs p = [] then None
      else let lenbytes = (if sub_lenbytes (last (wp_subs p)) = 0 then 8
                           else sub_lenbytes (last (wp_subs p)))
           in if maxmaxsize lenbytes < maxsize \<or> maxsize < wp_written p then None
              else Some (p\<lparr>wp_maxsize := maxsize\<rparr>))"

definition WPACKET_memset :: "allocator \<Rightarrow> wpacket \<Rightarrow> byte \<Rightarrow> nat \<Rightarrow> wpacket option" where
  "WPACKET_memset al p ch len =
     (if len = 0 then Some p
      else case WPACKET_allocate_bytes al p len of
             None \<Rightarrow> None
           | Some (dest, p') \<Rightarrow> Some (wp_store p' dest (replicate len ch)))"

definition WPACKET_memcpy :: "allocator \<Rightarrow> wpacket \<Rightarrow> bytes \<Rightarrow> nat \<Rightarrow> wpacket option" where
  "WPACKET_memcpy al p src len =
     (if len = 0 then Some p
      else case WPACKET_allocate_bytes al p len of
             None \<Rightarrow> None
           | Some (dest, p') \<Rightarrow> Some (wp_store p' dest (take len src)))"

definition WPACKET_sub_memcpy ::
    "allocator \<Rightarrow> wpacket \<Rightarrow> bytes \<Rightarrow> nat \<Rightarrow> nat \<Rightarrow> wpacket option" where
  "WPACKET_sub_memcpy al p src len lenbytes =
     (case WPACKET_start_sub_packet_len al p lenbytes of
        None \<Rightarrow> None
      | Some p1 \<Rightarrow>
          (case WPACKET_memcpy al p1 src len of
             None \<Rightarrow> None
           | Some p2 \<Rightarrow> WPACKET_close al p2))"

definition WPACKET_get_total_written :: "wpacket \<Rightarrow> nat" where
  "WPACKET_get_total_written p = wp_written p"

definition WPACKET_get_length :: "wpacket \<Rightarrow> nat option" where
  "WPACKET_get_length p =
     (case wp_subs p of
        [] \<Rightarrow> None
      | sub # _ \<Rightarrow> Some (size_sub (wp_written p) (sub_pwritten sub)))"

definition WPACKET_is_null_buf :: "wpacket \<Rightarrow> bool" where
  "WPACKET_is_null_buf p \<longleftrightarrow> wp_buf p = None \<and> wp_staticbuf p = None"

definition WPACKET_cleanup :: "wpacket \<Rightarrow> wpacket" where
  "WPACKET_cleanup p = p\<lparr>wp_subs := []\<rparr>"

definition WPACKET_start_quic_sub_packet_bound ::
    "allocator \<Rightarrow> wpacket \<Rightarrow> nat \<Rightarrow> wpacket option" where
  "WPACKET_start_quic_sub_packet_bound al p max_len =
     (let enclen = ossl_quic_vlint_encode_len (of_nat max_len)
      in if enclen = 0 then None
         else case WPACKET_start_sub_packet_len al p enclen of
                None \<Rightarrow> None
              | Some p' \<Rightarrow>
                  (case wp_subs p' of
                     [] \<Rightarrow> None
                   | sub # parents \<Rightarrow>
                       Some (p'\<lparr>wp_subs :=
                         sub\<lparr>sub_flags := sub_flags sub OR WPACKET_FLAGS_QUIC_VLINT\<rparr> # parents\<rparr>)))"

definition WPACKET_start_quic_sub_packet :: "allocator \<Rightarrow> wpacket \<Rightarrow> wpacket option" where
  "WPACKET_start_quic_sub_packet al p =
     WPACKET_start_quic_sub_packet_bound al p (unat OSSL_QUIC_VLINT_4B_MIN)"

definition WPACKET_quic_sub_allocate_bytes ::
    "allocator \<Rightarrow> wpacket \<Rightarrow> nat \<Rightarrow> (nat option \<times> wpacket) option" where
  "WPACKET_quic_sub_allocate_bytes al p len =
     (case WPACKET_start_quic_sub_packet_bound al p len of
        None \<Rightarrow> None
      | Some p1 \<Rightarrow>
          (case WPACKET_allocate_bytes al p1 len of
             None \<Rightarrow> None
           | Some (ptr, p2) \<Rightarrow> map_option (Pair ptr) (WPACKET_close al p2)))"

text \<open>
  Unlike the other writers this one stores through \<open>b\<close> without testing it for the null pointer of
  a writer without a buffer; that call has no defined result, \<open>None\<close> here.
\<close>

definition WPACKET_quic_write_vlint :: "allocator \<Rightarrow> wpacket \<Rightarrow> u64 \<Rightarrow> wpacket option" where
  "WPACKET_quic_write_vlint al p v =
     (let enclen = ossl_quic_vlint_encode_len v
      in if enclen = 0 then None
         else case WPACKET_allocate_bytes al p enclen of
                None \<Rightarrow> None
              | Some (None, p') \<Rightarrow> None
              | Some (Some b, p') \<Rightarrow> Some (wp_store p' (Some b) (ossl_quic_vlint_encode v)))"

section \<open>The invariant\<close>

definition buf_mem_ok :: "buf_mem \<Rightarrow> bool" where
  "buf_mem_ok b \<longleftrightarrow>
     bm_length b \<le> bm_max b \<and> bm_max b \<le> SIZE_MAX \<and>
     (case bm_data b of None \<Rightarrow> bm_max b = 0 | Some d \<Rightarrow> length d = bm_max b)"

primrec subs_ok :: "nat \<Rightarrow> wpacket_sub list \<Rightarrow> bool" where
  "subs_ok w [] = True"
| "subs_ok w (s # ss) =
     (sub_pwritten s \<le> w \<and> sub_lenbytes s \<le> sub_pwritten s \<and>
      (sub_lenbytes s > 0 \<longrightarrow> sub_packet_len s + sub_lenbytes s = sub_pwritten s) \<and>
      subs_ok (sub_pwritten s - sub_lenbytes s) ss)"

definition wpacket_ok :: "wpacket \<Rightarrow> bool" where
  "wpacket_ok p \<longleftrightarrow>
     wp_curr p = wp_written p \<and> wp_written p \<le> wp_maxsize p \<and> wp_maxsize p \<le> SIZE_MAX \<and>
     subs_ok (wp_written p) (wp_subs p) \<and>
     (wp_endfirst p \<longrightarrow> wp_buf p = None \<and> (\<forall>s \<in> set (wp_subs p). sub_lenbytes s = 0)) \<and>
     (case wp_staticbuf p of
        Some d \<Rightarrow> wp_buf p = None \<and> wp_maxsize p \<le> length d
      | None \<Rightarrow> (case wp_buf p of
                   None \<Rightarrow> True
                 | Some b \<Rightarrow> buf_mem_ok b \<and> wp_written p \<le> bm_length b))"

text \<open>The bytes written so far: a prefix of the buffer, or its end when writing backwards.\<close>

definition wp_data :: "wpacket \<Rightarrow> bytes" where
  "wp_data p =
     (case GETBUF p of
        None \<Rightarrow> []
      | Some d \<Rightarrow> if wp_endfirst p
                  then take (wp_written p) (drop (wp_maxsize p - wp_written p) d)
                  else take (wp_written p) d)"

text \<open>The offset at which \<open>len\<close> bytes are handed out.\<close>

definition wp_ptr :: "wpacket \<Rightarrow> nat \<Rightarrow> nat" where
  "wp_ptr p len = (if wp_endfirst p then wp_maxsize p - wp_written p - len else wp_written p)"

text \<open>What growing the buffer does, if the packet has one: nothing but making room.\<close>

definition wp_grown :: "wpacket \<Rightarrow> wpacket \<Rightarrow> nat \<Rightarrow> bool" where
  "wp_grown p p' len \<longleftrightarrow>
     (\<exists>b'. p' = p\<lparr>wp_buf := b'\<rparr> \<and> (wp_buf p = None \<longleftrightarrow> b' = None) \<and>
        (\<forall>b. b' = Some b \<longrightarrow> buf_mem_ok b \<and> wp_written p + len \<le> bm_length b)) \<and>
     wp_data p' = wp_data p"

lemma GETBUF_update [simp]:
  "GETBUF (p\<lparr>wp_subs := ss\<rparr>) = GETBUF p" "GETBUF (p\<lparr>wp_written := w\<rparr>) = GETBUF p"
  "GETBUF (p\<lparr>wp_curr := c\<rparr>) = GETBUF p" "GETBUF (p\<lparr>wp_maxsize := m\<rparr>) = GETBUF p"
  by (simp_all add: GETBUF_def cong: if_cong option.case_cong)

lemma wp_data_subs [simp]: "wp_data (p\<lparr>wp_subs := ss\<rparr>) = wp_data p"
  by (simp add: wp_data_def cong: if_cong option.case_cong)

lemma length_wp_data_null: "GETBUF p = None \<Longrightarrow> wp_data p = []"
  by (simp add: wp_data_def)

lemma subs_ok_mono: "subs_ok w ss \<Longrightarrow> w \<le> w' \<Longrightarrow> subs_ok w' ss"
  by (cases ss) auto

lemma BUF_MEM_grow_ok:
  assumes "BUF_MEM_grow al b len = (r, b')" and "r \<noteq> 0" and "buf_mem_ok b"
    and "len \<le> SIZE_MAX" and "bm_length b \<le> len"
  shows "buf_mem_ok b'" and "bm_length b' = len"
    and "n \<le> bm_length b \<Longrightarrow> map_option (take n) (bm_data b) = map_option (take n) (bm_data b') \<or> (bm_data b = None \<and> n = 0)"
proof -
  have lim: "(len + 3) div 3 * 4 \<le> SIZE_MAX" if "len \<le> LIMIT_BEFORE_EXPANSION"
    using that by (simp add: LIMIT_BEFORE_EXPANSION_def SIZE_MAX_def)
  have len4: "len \<le> (len + 3) div 3 * 4"
    by simp
  from assms lim len4 show "buf_mem_ok b'" and "bm_length b' = len"
    by (auto simp: BUF_MEM_grow_def buf_mem_ok_def Let_def split: if_splits option.splits)
  from assms show "n \<le> bm_length b \<Longrightarrow> map_option (take n) (bm_data b) = map_option (take n) (bm_data b') \<or> (bm_data b = None \<and> n = 0)"
    by (auto simp: BUF_MEM_grow_def buf_mem_ok_def Let_def buf_simps min_def split: if_splits option.splits)
qed

lemma reserve_bytes_guard:
  assumes "WPACKET_reserve_bytes al p len = Some (ptr, p')" and "wpacket_ok p"
  shows "wp_subs p \<noteq> []" and "0 < len" and "wp_written p + len \<le> wp_maxsize p"
  using assms
  by (auto simp: WPACKET_reserve_bytes_def wpacket_ok_def size_sub_def split: if_splits)

lemma wp_grown_refl:
  "(\<And>b. wp_buf p = Some b \<Longrightarrow> buf_mem_ok b \<and> wp_written p + len \<le> bm_length b) \<Longrightarrow> wp_grown p p len"
  unfolding wp_grown_def by (intro conjI exI [of _ "wp_buf p"]) auto

lemma reserve_bytes_grown:
  assumes r: "WPACKET_reserve_bytes al p len = Some (ptr, p')" and ok: "wpacket_ok p"
  shows "wp_grown p p' len"
    and "ptr = (case GETBUF p' of None \<Rightarrow> None | Some d \<Rightarrow> Some (wp_ptr p len))"
proof -
  note guard = reserve_bytes_guard [OF r ok]
  have pos: "ptr = (case GETBUF p' of None \<Rightarrow> None | Some d \<Rightarrow> Some (wp_ptr p len))"
    if "p' = p\<lparr>wp_buf := b'\<rparr>"
      "ptr = (case WPACKET_get_curr p' of None \<Rightarrow> None
                | Some c \<Rightarrow> Some (if wp_endfirst p' then c - len else c))" for b'
    using that ok guard
    by (auto simp: WPACKET_get_curr_def wp_ptr_def wpacket_ok_def size_sub_le split: option.splits)
  show "wp_grown p p' len"
    and "ptr = (case GETBUF p' of None \<Rightarrow> None | Some d \<Rightarrow> Some (wp_ptr p len))"
  proof (atomize (full), cases "wp_buf p")
    case None
    with r guard have eq: "p' = p" "ptr = (case WPACKET_get_curr p' of None \<Rightarrow> None
                | Some c \<Rightarrow> Some (if wp_endfirst p' then c - len else c))"
      by (auto simp: WPACKET_reserve_bytes_def split: if_splits)
    then show "wp_grown p p' len \<and>
      ptr = (case GETBUF p' of None \<Rightarrow> None | Some d \<Rightarrow> Some (wp_ptr p len))"
      using None pos [of "wp_buf p"] wp_grown_refl [of p len] by simp
  next
    case (Some b)
    with ok have b: "buf_mem_ok b" "wp_written p \<le> bm_length b" "wp_staticbuf p = None" "\<not> wp_endfirst p"
      by (auto simp: wpacket_ok_def split: option.splits)
    show "wp_grown p p' len \<and>
      ptr = (case GETBUF p' of None \<Rightarrow> None | Some d \<Rightarrow> Some (wp_ptr p len))"
    proof (cases "size_sub (bm_length b) (wp_written p) < len")
      case False
      with r guard Some have eq: "p' = p" "ptr = (case WPACKET_get_curr p' of None \<Rightarrow> None
                | Some c \<Rightarrow> Some (if wp_endfirst p' then c - len else c))"
        by (auto simp: WPACKET_reserve_bytes_def split: if_splits)
      then show ?thesis
        using Some b False pos [of "wp_buf p"] wp_grown_refl [of p len] by (simp add: size_sub_le)
    next
      case True
      define reflen where "reflen = (if len > bm_length b then len else bm_length b)"
      define newlen where "newlen = (if reflen > SIZE_MAX div 2 then SIZE_MAX
                               else if reflen * 2 < DEFAULT_BUF_SIZE then DEFAULT_BUF_SIZE
                               else reflen * 2)"
      obtain n b' where g: "BUF_MEM_grow al b newlen = (n, b')"
        by fastforce
      with r guard Some True have n: "n \<noteq> 0" and p': "p' = p\<lparr>wp_buf := Some b'\<rparr>"
        and ptr: "ptr = (case WPACKET_get_curr p' of None \<Rightarrow> None
                | Some c \<Rightarrow> Some (if wp_endfirst p' then c - len else c))"
        by (auto simp: WPACKET_reserve_bytes_def Let_def reflen_def newlen_def split: if_splits)
      have new: "bm_length b \<le> newlen" "newlen \<le> SIZE_MAX" "wp_written p + len \<le> newlen"
        using b ok guard by (auto simp: newlen_def reflen_def buf_mem_ok_def wpacket_ok_def
            DEFAULT_BUF_SIZE_def SIZE_MAX_def)
      note grow = BUF_MEM_grow_ok [OF g n b(1) new(2) new(1)]
      have "wp_data p' = wp_data p"
        using grow(3) [OF b(2)] p' b Some
        by (auto simp: wp_data_def GETBUF_def split: option.splits)
      with grow p' b new Some have "wp_grown p p' len"
        by (auto simp: wp_grown_def)
      with pos [OF p' ptr] show ?thesis by simp
    qed
  qed
qed

lemma allocate_bytes_ok:
  assumes a: "WPACKET_allocate_bytes al p len = Some (ptr, p')" and ok: "wpacket_ok p"
  shows "wpacket_ok p'" and "wp_written p' = wp_written p + len" and "wp_subs p' = wp_subs p"
    and "wp_maxsize p' = wp_maxsize p" and "wp_endfirst p' = wp_endfirst p"
    and "wp_staticbuf p' = wp_staticbuf p"
proof -
  obtain q where r: "WPACKET_reserve_bytes al p len = Some (ptr, q)"
    and p': "p' = q\<lparr>wp_written := size_add (wp_written q) len, wp_curr := size_add (wp_curr q) len\<rparr>"
    using a by (auto simp: WPACKET_allocate_bytes_def split: option.splits)
  note guard = reserve_bytes_guard [OF r ok] and grown = reserve_bytes_grown(1) [OF r ok]
  have w: "size_add (wp_written p) len = wp_written p + len"
    using guard(3) ok by (simp add: size_add_le wpacket_ok_def)
  from grown guard ok w p' show "wpacket_ok p'" 
    by (auto simp: wp_grown_def wpacket_ok_def intro: subs_ok_mono split: option.splits)
  from grown guard ok w p' show "wp_written p' = wp_written p + len" and "wp_subs p' = wp_subs p"
    and "wp_maxsize p' = wp_maxsize p" and "wp_endfirst p' = wp_endfirst p"
    and "wp_staticbuf p' = wp_staticbuf p"
    by (auto simp: wp_grown_def wpacket_ok_def)
qed

lemma allocate_bytes_null:
  assumes "WPACKET_allocate_bytes al p len = Some (ptr, p')" and "wpacket_ok p"
  shows "WPACKET_is_null_buf p' = WPACKET_is_null_buf p"
proof -
  obtain q where r: "WPACKET_reserve_bytes al p len = Some (ptr, q)"
    and p': "p' = q\<lparr>wp_written := size_add (wp_written q) len, wp_curr := size_add (wp_curr q) len\<rparr>"
    using assms by (auto simp: WPACKET_allocate_bytes_def split: option.splits)
  from reserve_bytes_grown(1) [OF r assms(2)] show ?thesis
    by (auto simp: p' wp_grown_def WPACKET_is_null_buf_def)
qed

lemma GETBUF_null:
  "wpacket_ok p \<Longrightarrow> 0 < wp_written p \<Longrightarrow> GETBUF p = None \<longleftrightarrow> WPACKET_is_null_buf p"
  by (auto simp: GETBUF_def wpacket_ok_def buf_mem_ok_def WPACKET_is_null_buf_def split: option.splits)

lemma null_buf_store [simp]: "WPACKET_is_null_buf (wp_store p ptr ds) = WPACKET_is_null_buf p"
  by (auto simp: wp_store_def WPACKET_is_null_buf_def split: option.splits)

lemma null_buf_update [simp]:
  "WPACKET_is_null_buf (p\<lparr>wp_subs := ss\<rparr>) = WPACKET_is_null_buf p"
  by (simp add: WPACKET_is_null_buf_def)

lemma wp_store_fields [simp]:
  "wp_written (wp_store p ptr ds) = wp_written p" "wp_curr (wp_store p ptr ds) = wp_curr p"
  "wp_maxsize (wp_store p ptr ds) = wp_maxsize p" "wp_subs (wp_store p ptr ds) = wp_subs p"
  "wp_endfirst (wp_store p ptr ds) = wp_endfirst p"
  by (auto simp: wp_store_def split: option.splits)

lemma GETBUF_wp_store:
  "GETBUF (wp_store p ptr ds) =
     (case ptr of None \<Rightarrow> GETBUF p | Some off \<Rightarrow> map_option (\<lambda>d. store_at d off ds) (GETBUF p))"
  by (auto simp: GETBUF_def wp_store_def split: option.splits)

lemma wp_data_store:
  "GETBUF p = Some d \<Longrightarrow>
     wp_data (wp_store p (Some off) ds) =
       (if wp_endfirst p then take (wp_written p) (drop (wp_maxsize p - wp_written p) (store_at d off ds))
        else take (wp_written p) (store_at d off ds))"
  by (simp add: wp_data_def GETBUF_wp_store)

lemma wpacket_ok_store: "wpacket_ok p \<Longrightarrow> wpacket_ok (wp_store p ptr ds)"
  by (auto simp: wpacket_ok_def wp_store_def buf_mem_ok_def split: option.splits)

lemma wpacket_ok_pop:
  "wpacket_ok p \<Longrightarrow> wp_subs p = s # parents \<Longrightarrow> wpacket_ok (p\<lparr>wp_subs := parents\<rparr>)"
  using subs_ok_mono [of "sub_pwritten s - sub_lenbytes s" parents "wp_written p"]
  by (auto simp: wpacket_ok_def split: option.splits)

lemma GETBUF_length:
  "wpacket_ok p \<Longrightarrow> GETBUF p = Some d \<Longrightarrow>
     (if wp_endfirst p then wp_maxsize p \<le> length d else wp_written p \<le> length d)"
  by (auto simp: GETBUF_def wpacket_ok_def buf_mem_ok_def split: option.splits if_splits)

lemma allocate_bytes_split:
  assumes a: "WPACKET_allocate_bytes al p len = Some (ptr, p')" and ok: "wpacket_ok p"
  shows "0 < len" and "wp_subs p \<noteq> []" and "wp_written p + len \<le> wp_maxsize p"
    and "ptr = (case GETBUF p' of None \<Rightarrow> None | Some d \<Rightarrow> Some (wp_ptr p len))"
    and "GETBUF p' = Some d \<Longrightarrow> \<not> wp_endfirst p \<Longrightarrow> take (wp_written p) d = wp_data p"
    and "GETBUF p' = Some d \<Longrightarrow> wp_endfirst p \<Longrightarrow>
           take (wp_written p) (drop (wp_maxsize p - wp_written p) d) = wp_data p"
proof -
  obtain q where r: "WPACKET_reserve_bytes al p len = Some (ptr, q)"
    and p': "p' = q\<lparr>wp_written := size_add (wp_written q) len, wp_curr := size_add (wp_curr q) len\<rparr>"
    using a by (auto simp: WPACKET_allocate_bytes_def split: option.splits)
  have buf: "GETBUF p' = GETBUF q"
    by (simp add: p' GETBUF_def)
  note guard = reserve_bytes_guard [OF r ok] and grown = reserve_bytes_grown [OF r ok]
  from guard show "0 < len" and "wp_subs p \<noteq> []" and "wp_written p + len \<le> wp_maxsize p"
    by simp_all
  from grown(2) buf show "ptr = (case GETBUF p' of None \<Rightarrow> None | Some d \<Rightarrow> Some (wp_ptr p len))"
    by simp
  from grown(1) have q: "wp_data q = wp_data p" "wp_written q = wp_written p"
    "wp_endfirst q = wp_endfirst p" "wp_maxsize q = wp_maxsize p"
    by (auto simp: wp_grown_def)
  show "GETBUF p' = Some d \<Longrightarrow> \<not> wp_endfirst p \<Longrightarrow> take (wp_written p) d = wp_data p"
    and "GETBUF p' = Some d \<Longrightarrow> wp_endfirst p \<Longrightarrow>
           take (wp_written p) (drop (wp_maxsize p - wp_written p) d) = wp_data p"
    using q buf by (simp_all add: wp_data_def [of q] split: option.splits)
qed

text \<open>The region handed out lies inside the buffer.\<close>

lemma allocate_bytes_inside:
  assumes a: "WPACKET_allocate_bytes al p len = Some (Some off, p')" and ok: "wpacket_ok p"
  obtains d where "GETBUF p' = Some d" and "off = wp_ptr p len" and "off + len \<le> length d"
proof -
  note split = allocate_bytes_split [OF a ok] and ok' = allocate_bytes_ok [OF a ok]
  from split(4) obtain d where d: "GETBUF p' = Some d" "off = wp_ptr p len"
    by (auto split: option.splits)
  from GETBUF_length [OF ok'(1) d(1)] have "off + len \<le> length d"
    using split(3) d(2) ok'(2,4,5) by (auto simp: wp_ptr_def split: if_splits)
  with d that show ?thesis by blast
qed

lemma store_allocated:
  assumes a: "WPACKET_allocate_bytes al p len = Some (ptr, p')" and ok: "wpacket_ok p"
    and len: "length ds = len" and buf: "GETBUF p' \<noteq> None"
  shows "wp_data (wp_store p' ptr ds) = (if wp_endfirst p then ds @ wp_data p else wp_data p @ ds)"
proof -
  note split = allocate_bytes_split [OF a ok] and ok' = allocate_bytes_ok [OF a ok]
  from buf obtain d where d: "GETBUF p' = Some d"
    by blast
  with split(4) have ptr: "ptr = Some (wp_ptr p len)"
    by simp
  have "WPACKET_allocate_bytes al p len = Some (Some (wp_ptr p len), p')"
    using a ptr by simp
  from allocate_bytes_inside [OF this ok] d have inside: "wp_ptr p len + len \<le> length d"
    by auto
  show ?thesis
  proof (cases "wp_endfirst p")
    case False
    with d ptr ok' split(5) [OF d False] inside len show ?thesis
      by (simp add: wp_data_store wp_ptr_def buf_simps)
  next
    case True
    define k where "k = wp_maxsize p - wp_written p - len"
    have k: "wp_maxsize p - wp_written p = k + len" "wp_maxsize p - (wp_written p + len) = k"
      using split(3) by (auto simp: k_def)
    have "store_at d k ds = take k d @ ds @ drop (k + len) d"
      using inside True len by (simp add: store_at_eq wp_ptr_def k_def)
    moreover have "take (wp_written p) (drop (k + len) d) = wp_data p"
      using split(6) [OF d True] k by simp
    moreover have "k \<le> length d"
      using inside True by (simp add: wp_ptr_def k_def)
    ultimately show ?thesis
      using d ptr ok' True len k
      by (simp add: wp_data_store wp_ptr_def flip: k_def)
  qed
qed

section \<open>Writers\<close>

lemma memcpy_ok:
  assumes m: "WPACKET_memcpy al p src len = Some p'" and ok: "wpacket_ok p"
    and src: "len \<le> length src"
  shows "wpacket_ok p'" and "wp_subs p' = wp_subs p" and "wp_written p' = wp_written p + len"
    and "wp_maxsize p' = wp_maxsize p" and "wp_endfirst p' = wp_endfirst p"
    and "GETBUF p' \<noteq> None \<Longrightarrow>
           wp_data p' = (if wp_endfirst p then take len src @ wp_data p else wp_data p @ take len src)"
    and "WPACKET_is_null_buf p' = WPACKET_is_null_buf p"
proof -
  have "wpacket_ok p' \<and> wp_subs p' = wp_subs p \<and> wp_written p' = wp_written p + len \<and>
    wp_maxsize p' = wp_maxsize p \<and> wp_endfirst p' = wp_endfirst p \<and>
    (GETBUF p' \<noteq> None \<longrightarrow>
           wp_data p' = (if wp_endfirst p then take len src @ wp_data p else wp_data p @ take len src))
    \<and> WPACKET_is_null_buf p' = WPACKET_is_null_buf p"
  proof (cases "len = 0")
    case True
    with m ok show ?thesis
      by (simp add: WPACKET_memcpy_def)
  next
    case False
    with m obtain ptr q where a: "WPACKET_allocate_bytes al p len = Some (ptr, q)"
      and p': "p' = wp_store q ptr (take len src)"
      by (auto simp: WPACKET_memcpy_def split: option.splits)
    have "GETBUF p' \<noteq> None \<longleftrightarrow> GETBUF q \<noteq> None"
      by (simp add: p' GETBUF_wp_store split: option.splits)
    with allocate_bytes_ok [OF a ok] allocate_bytes_null [OF a ok]
      store_allocated [OF a ok, of "take len src"] src p'
    show ?thesis
      by (simp add: wpacket_ok_store)
  qed
  then show "wpacket_ok p'" and "wp_subs p' = wp_subs p" and "wp_written p' = wp_written p + len"
    and "wp_maxsize p' = wp_maxsize p" and "wp_endfirst p' = wp_endfirst p"
    and "GETBUF p' \<noteq> None \<Longrightarrow>
           wp_data p' = (if wp_endfirst p then take len src @ wp_data p else wp_data p @ take len src)"
    and "WPACKET_is_null_buf p' = WPACKET_is_null_buf p"
    by auto
qed

lemma put_value_loop_acc:
  "put_value_loop v n acc = (fst (put_value_loop v n []) @ acc, drop_bit (8 * n) v)"
proof (induction n arbitrary: v acc)
  case (Suc n)
  show ?case
    using Suc [of "drop_bit 8 v" "ucast v # acc"] Suc [of "drop_bit 8 v" "[ucast v]"]
    by (simp add: add.commute)
qed simp

lemma put_value_loop_Suc:
  "fst (put_value_loop v (Suc n) []) = fst (put_value_loop (drop_bit 8 v) n []) @ [ucast v]"
  using put_value_loop_acc [of "drop_bit 8 v" n "[ucast v]"] by simp

lemma length_put_value_loop [simp]: "length (fst (put_value_loop v n [])) = n"
proof (induction n arbitrary: v)
  case (Suc n)
  then show ?case
    by (simp only: put_value_loop_Suc) simp
qed simp

lemma be_value_put_value_loop: "be_value (fst (put_value_loop v n [])) = unat v mod 256 ^ n"
proof (induction n arbitrary: v)
  case (Suc n)
  have "unat (ucast v :: byte) = unat v mod 256"
    by (simp add: unsigned_ucast_eq take_bit_eq_mod)
  moreover have "unat (drop_bit 8 v) = unat v div 256"
    unfolding unat_drop_bit_eq by (simp add: drop_bit_eq_div)
  ultimately show ?case
    by (simp only: put_value_loop_Suc be_value_snoc Suc)
      (simp add: mod_mult2_eq mult.commute)
qed simp

lemma put_value_loop_fits:
  "snd (put_value_loop v n []) = 0 \<longleftrightarrow> unat v < 256 ^ n"
proof -
  have "drop_bit (8 * n) v = 0 \<longleftrightarrow> unat v div 2 ^ (8 * n) = 0"
    by (metis drop_bit_eq_div unat_eq_0 unat_drop_bit_eq)
  then show ?thesis
    by (subst put_value_loop_acc) (simp add: div_eq_0_iff power_mult)
qed

text \<open>A closed sub-packet with a length prefix: the prefix is overwritten with the length.\<close>

lemma close_prefixed:
  assumes ok: "wpacket_ok p" and subs: "wp_subs p = s # parents" and par: "parents \<noteq> []"
    and len: "sub_lenbytes s > 0" and flags: "sub_flags s = 0" and d: "GETBUF p = Some d"
    and fits: "wp_written p - sub_pwritten s < 256 ^ sub_lenbytes s"
  shows "\<exists>p'. WPACKET_close al p = Some p' \<and> wpacket_ok p' \<and> wp_subs p' = parents \<and>
     wp_written p' = wp_written p \<and> wp_maxsize p' = wp_maxsize p \<and> GETBUF p' \<noteq> None \<and>
     wp_data p' = take (sub_packet_len s) (wp_data p)
        @ fst (put_value_loop (of_nat (wp_written p - sub_pwritten s)) (sub_lenbytes s) [])
        @ drop (sub_pwritten s) (wp_data p)"
proof -
  let ?n = "wp_written p - sub_pwritten s"
  let ?ds = "fst (put_value_loop (of_nat ?n) (sub_lenbytes s) [])"
  let ?p' = "(wp_store p (Some (sub_packet_len s)) ?ds)\<lparr>wp_subs := parents\<rparr>"
  from ok subs have s: "sub_pwritten s \<le> wp_written p" "subs_ok (sub_pwritten s - sub_lenbytes s) parents"
    "sub_packet_len s + sub_lenbytes s = sub_pwritten s" "\<not> wp_endfirst p"
    "wp_written p \<le> SIZE_MAX"
    using len by (auto simp: wpacket_ok_def)
  have "unat (of_nat ?n :: u64) = ?n"
    using s(5) by (simp add: SIZE_MAX_def unat_of_nat)
  then have rest: "snd (put_value_loop (of_nat ?n) (sub_lenbytes s) []) = 0"
    using fits by (simp add: put_value_loop_fits)
  have close: "WPACKET_close al p = Some ?p'"
    using subs par len flags d s rest
    by (simp add: WPACKET_close_def wpacket_intern_close_def close_fill_def size_sub_le Let_def put_value_def
        case_prod_unfold)
  have d': "GETBUF ?p' = Some (store_at d (sub_packet_len s) ?ds)"
    using d by (simp add: GETBUF_def wp_store_def split: option.splits if_splits)
  have "wpacket_ok ?p'"
    using wpacket_ok_pop [OF wpacket_ok_store [OF ok]] subs by simp
  moreover have "wp_data ?p' = take (sub_packet_len s) (wp_data p) @ ?ds @ drop (sub_pwritten s) (wp_data p)"
  proof -
    have l: "wp_written p \<le> length d"
      using GETBUF_length [OF ok d] s(4) by simp
    have st: "store_at d (sub_packet_len s) ?ds =
        take (sub_packet_len s) d @ ?ds @ drop (sub_pwritten s) d"
      using l s by (subst store_at_eq) auto
    show ?thesis
      using l s len unfolding wp_data_def d d' st by (auto simp: min_def drop_take)
  qed
  ultimately show ?thesis
    using close d' by auto
qed


lemma reserve_bytes_subs:
  assumes "ss \<noteq> []" and "wp_subs p \<noteq> []"
  shows "WPACKET_reserve_bytes al (p\<lparr>wp_subs := ss\<rparr>) len =
    map_option (\<lambda>(ptr, q). (ptr, q\<lparr>wp_subs := ss\<rparr>)) (WPACKET_reserve_bytes al p len)"
  using assms
  by (cases "wp_buf p")
    (simp_all add: WPACKET_reserve_bytes_def WPACKET_get_curr_def GETBUF_def Let_def case_prod_unfold
      cong: if_cong option.case_cong)

lemma allocate_bytes_subs:
  assumes "ss \<noteq> []" and "wp_subs p \<noteq> []"
  shows "WPACKET_allocate_bytes al (p\<lparr>wp_subs := ss\<rparr>) len =
    map_option (\<lambda>(ptr, q). (ptr, q\<lparr>wp_subs := ss\<rparr>)) (WPACKET_allocate_bytes al p len)"
  using reserve_bytes_subs [OF assms]
  by (auto simp: WPACKET_allocate_bytes_def split: option.splits)

lemma wpacket_ok_push:
  assumes "wpacket_ok p" and "sub_pwritten s \<le> wp_written p" and "sub_lenbytes s \<le> sub_pwritten s"
    and "sub_lenbytes s > 0 \<Longrightarrow> sub_packet_len s + sub_lenbytes s = sub_pwritten s"
    and "subs_ok (sub_pwritten s - sub_lenbytes s) (wp_subs p)"
    and "wp_endfirst p \<Longrightarrow> sub_lenbytes s = 0"
  shows "wpacket_ok (p\<lparr>wp_subs := s # wp_subs p\<rparr>)"
  using assms by (auto simp: wpacket_ok_def split: option.splits)

lemma start_sub_packet_len_ok:
  assumes st: "WPACKET_start_sub_packet_len al p lenbytes = Some p'" and ok: "wpacket_ok p"
    and k: "0 < lenbytes"
  obtains s where "wpacket_ok p'" and "wp_subs p' = s # wp_subs p" and "wp_subs p \<noteq> []"
    and "sub_lenbytes s = lenbytes" and "sub_flags s = 0" and "sub_packet_len s = wp_written p"
    and "sub_pwritten s = wp_written p + lenbytes" and "wp_written p' = wp_written p + lenbytes"
    and "wp_maxsize p' = wp_maxsize p" and "\<not> wp_endfirst p'"
    and "GETBUF p' \<noteq> None \<Longrightarrow> take (wp_written p) (wp_data p') = wp_data p"
    and "WPACKET_is_null_buf p' = WPACKET_is_null_buf p"
proof -
  let ?s = "new_sub\<lparr>sub_pwritten := size_add (wp_written p) lenbytes, sub_lenbytes := lenbytes,
               sub_packet_len := wp_written p\<rparr>"
  let ?ss = "?s # wp_subs p"
  from st k obtain ptr where a: "WPACKET_allocate_bytes al (p\<lparr>wp_subs := ?ss\<rparr>) lenbytes = Some (ptr, p')"
    and ne: "wp_subs p \<noteq> []" and fw: "\<not> wp_endfirst p"
    by (auto simp: WPACKET_start_sub_packet_len_def Let_def split: if_splits)
  then obtain q where r: "WPACKET_allocate_bytes al p lenbytes = Some (ptr, q)"
    and p': "p' = q\<lparr>wp_subs := ?ss\<rparr>"
    using allocate_bytes_subs [of ?ss p al lenbytes] by auto
  note q = allocate_bytes_ok [OF r ok] allocate_bytes_null [OF r ok] and split = allocate_bytes_split [OF r ok]
  have w: "size_add (wp_written p) lenbytes = wp_written p + lenbytes"
    using split(3) ok by (simp add: size_add_le wpacket_ok_def)
  have "subs_ok (wp_written p) (wp_subs p)"
    using ok by (simp add: wpacket_ok_def)
  then have "wpacket_ok (q\<lparr>wp_subs := ?s # wp_subs q\<rparr>)"
    using q w fw by (intro wpacket_ok_push) (simp_all add: new_sub_def)
  then have "wpacket_ok p'"
    by (simp add: p' q)
  moreover have "take (wp_written p) (wp_data p') = wp_data p" if "GETBUF p' \<noteq> None"
  proof -
    from that obtain d where d: "GETBUF q = Some d"
      by (auto simp: p')
    from split(5) [OF d fw] show ?thesis
      using d q fw by (simp add: wp_data_def [of q] p' min_def)
  qed
  ultimately show ?thesis
    using that [of ?s] q w ne fw by (simp add: p' new_sub_def)
qed

lemma length_wp_data: "wpacket_ok p \<Longrightarrow> GETBUF p \<noteq> None \<Longrightarrow> length (wp_data p) = wp_written p"
  using GETBUF_length [of p]
  by (auto simp: wp_data_def min_def wpacket_ok_def split: if_splits)

lemma close_prefixed_fits:
  assumes c: "WPACKET_close al p = Some p'" and ok: "wpacket_ok p" and subs: "wp_subs p = s # parents"
    and len: "sub_lenbytes s > 0" and flags: "sub_flags s = 0" and buf: "GETBUF p \<noteq> None"
  shows "parents \<noteq> []" and "wp_written p - sub_pwritten s < 256 ^ sub_lenbytes s"
proof -
  let ?n = "wp_written p - sub_pwritten s"
  from ok subs have s: "sub_pwritten s \<le> wp_written p" "wp_written p \<le> SIZE_MAX"
    by (auto simp: wpacket_ok_def)
  have n: "unat (of_nat ?n :: u64) = ?n"
    using s(2) by (simp add: SIZE_MAX_def unat_of_nat)
  show par: "parents \<noteq> []"
    using c subs by (auto simp: WPACKET_close_def)
  from buf obtain d where "GETBUF p = Some d"
    by blast
  then have "snd (put_value_loop (of_nat ?n) (sub_lenbytes s) []) = 0"
    using c subs par len flags s
    by (simp add: WPACKET_close_def wpacket_intern_close_def close_fill_def size_sub_le Let_def put_value_def
        case_prod_unfold word_gt_0 split: if_splits)
  then show "?n < 256 ^ sub_lenbytes s"
    by (simp add: put_value_loop_fits n)
qed

lemma sub_memcpy_prefixed:
  assumes m: "WPACKET_sub_memcpy al p src len k = Some p'" and ok: "wpacket_ok p" and k: "0 < k"
    and src: "len \<le> length src" and buf: "\<not> WPACKET_is_null_buf p"
  shows "wpacket_ok p'" and "len < 256 ^ k" and
    "wp_data p' = wp_data p @ fst (put_value_loop (of_nat len) k []) @ take len src"
proof -
  obtain p1 p2 where st: "WPACKET_start_sub_packet_len al p k = Some p1"
    and mc: "WPACKET_memcpy al p1 src len = Some p2" and cl: "WPACKET_close al p2 = Some p'"
    using m by (auto simp: WPACKET_sub_memcpy_def split: option.splits)
  from start_sub_packet_len_ok [OF st ok k] obtain s where s: "wpacket_ok p1" "wp_subs p1 = s # wp_subs p"
    "sub_lenbytes s = k" "sub_flags s = 0" "sub_packet_len s = wp_written p"
    "sub_pwritten s = wp_written p + k" "wp_written p1 = wp_written p + k" "\<not> wp_endfirst p1"
    "GETBUF p1 \<noteq> None \<Longrightarrow> take (wp_written p) (wp_data p1) = wp_data p"
    "\<not> WPACKET_is_null_buf p1"
    using buf by metis
  note c = memcpy_ok [OF mc s(1) src]
  have subs2: "wp_subs p2 = s # wp_subs p" and len: "wp_written p2 - sub_pwritten s = len"
    using c s by simp_all
  have b1: "GETBUF p1 \<noteq> None" and b2: "GETBUF p2 \<noteq> None"
    using GETBUF_null [OF s(1)] GETBUF_null [OF c(1)] c s k by simp_all
  have l1: "length (wp_data p1) = wp_written p + k"
    using length_wp_data [OF s(1) b1] s by simp
  have d2: "wp_data p2 = wp_data p1 @ take len src"
    using c(6) [OF b2] s(8) by simp
  have ls: "0 < sub_lenbytes s" using k s by simp
  note fits = close_prefixed_fits [OF cl c(1) subs2 ls s(4) b2]
  from b2 obtain d where "GETBUF p2 = Some d"
    by blast
  from close_prefixed [OF c(1) subs2 fits(1) ls s(4) this fits(2), of al] cl
  have ok': "wpacket_ok p'" and d': "wp_data p' = take (sub_packet_len s) (wp_data p2)
        @ fst (put_value_loop (of_nat (wp_written p2 - sub_pwritten s)) (sub_lenbytes s) [])
        @ drop (sub_pwritten s) (wp_data p2)"
    by auto
  show "wpacket_ok p'" by (fact ok')
  show "len < 256 ^ k" using fits(2) len s by simp
  show "wp_data p' = wp_data p @ fst (put_value_loop (of_nat len) k []) @ take len src"
    using d' d2 l1 s(9) [OF b1] by (simp only: len) (simp add: s)
qed

section \<open>Every operation keeps the invariant\<close>

lemma reserve_bytes_ok:
  assumes r: "WPACKET_reserve_bytes al p len = Some (ptr, p')" and ok: "wpacket_ok p"
  shows "wpacket_ok p'"
  using reserve_bytes_grown(1) [OF r ok] ok
  by (auto simp: wp_grown_def wpacket_ok_def split: option.splits)

lemma put_value_ok: "put_value p data v n = Some p' \<Longrightarrow> wpacket_ok p \<Longrightarrow> wpacket_ok p'"
  by (auto simp: put_value_def case_prod_unfold wpacket_ok_store split: option.splits if_splits)

lemma put_quic_value_ok: "put_quic_value p data v n = Some p' \<Longrightarrow> wpacket_ok p \<Longrightarrow> wpacket_ok p'"
  by (auto simp: put_quic_value_def wpacket_ok_store split: option.splits if_splits)

lemma put_value_fields:
  "put_value p data v n = Some p' \<Longrightarrow> wp_subs p' = wp_subs p \<and> wp_written p' = wp_written p"
  by (auto simp: put_value_def case_prod_unfold split: option.splits if_splits)

lemma put_quic_value_fields:
  "put_quic_value p data v n = Some p' \<Longrightarrow> wp_subs p' = wp_subs p \<and> wp_written p' = wp_written p"
  by (auto simp: put_quic_value_def split: option.splits if_splits)

lemma put_bytes_ok:
  assumes "WPACKET_put_bytes al p v n = Some p'" and "wpacket_ok p"
  shows "wpacket_ok p'" and "wp_subs p' = wp_subs p" and "wp_written p' = wp_written p + n"
  using assms allocate_bytes_ok [of al p n] put_value_ok put_value_fields
  by (fastforce simp: WPACKET_put_bytes_def split: option.splits if_splits)+

lemma memset_ok:
  assumes "WPACKET_memset al p ch len = Some p'" and "wpacket_ok p"
  shows "wpacket_ok p'"
  using assms allocate_bytes_ok(1) [of al p len]
  by (auto simp: WPACKET_memset_def wpacket_ok_store split: option.splits if_splits)

lemma start_sub_packet_ok:
  assumes st: "WPACKET_start_sub_packet_len al p lenbytes = Some p'" and ok: "wpacket_ok p"
  shows "wpacket_ok p'"
proof (cases "lenbytes = 0")
  case True
  with st have "p' = p\<lparr>wp_subs := new_sub\<lparr>sub_pwritten := size_add (wp_written p) 0\<rparr> # wp_subs p\<rparr>"
    by (auto simp: WPACKET_start_sub_packet_len_def Let_def new_sub_def split: if_splits)
  moreover have "size_add (wp_written p) 0 = wp_written p" "subs_ok (wp_written p) (wp_subs p)"
    using ok by (auto simp: size_add_le wpacket_ok_def)
  ultimately show ?thesis
    using wpacket_ok_push [OF ok, of "new_sub\<lparr>sub_pwritten := wp_written p\<rparr>"]
    by (simp add: new_sub_def)
next
  case False
  with start_sub_packet_len_ok [OF st ok] show ?thesis by auto
qed

lemma wpacket_ok_flags:
  "wpacket_ok p \<Longrightarrow> wp_subs p = s # ss \<Longrightarrow> wpacket_ok (p\<lparr>wp_subs := s\<lparr>sub_flags := f\<rparr> # ss\<rparr>)"
  by (auto simp: wpacket_ok_def split: option.splits)

text \<open>Giving the length bytes of an empty sub-packet back.\<close>

lemma wpacket_ok_abandon:
  assumes ok: "wpacket_ok p" and subs: "wp_subs p = s # ss" and emp: "wp_written p = sub_pwritten s"
  shows "wpacket_ok (p\<lparr>wp_subs := ss, wp_written := wp_written p - sub_lenbytes s,
                        wp_curr := wp_curr p - sub_lenbytes s\<rparr>)"
  using assms by (auto simp: wpacket_ok_def split: option.splits)

lemma close_fill_ok:
  assumes "close_fill al p sub parents n = Some p'" and "wpacket_ok p"
  shows "wpacket_ok p'" and "wp_subs p' = wp_subs p"
  using assms put_value_ok put_quic_value_ok put_value_fields put_quic_value_fields
    put_bytes_ok(1,2)
  by (fastforce simp: close_fill_def Let_def split: if_splits option.splits)+

lemma intern_close_ok:
  assumes c: "wpacket_intern_close al p s ss True = Some p'" and ok: "wpacket_ok p"
    and subs: "wp_subs p = s # ss"
  shows "wpacket_ok p'" and "wp_subs p' = ss"
proof -
  let ?n = "size_sub (wp_written p) (sub_pwritten s)"
  from ok subs have s: "sub_pwritten s \<le> wp_written p" "sub_lenbytes s \<le> sub_pwritten s"
    "wp_curr p = wp_written p" "sub_lenbytes s > 0 \<longrightarrow> sub_packet_len s + sub_lenbytes s = sub_pwritten s"
    by (auto simp: wpacket_ok_def)
  have "wpacket_ok p' \<and> wp_subs p' = ss"
  proof (cases "?n = 0 \<and> sub_flags s AND WPACKET_FLAGS_ABANDON_ON_ZERO_LENGTH \<noteq> 0")
    case True
    then have emp: "wp_written p = sub_pwritten s"
      using s by (simp add: size_sub_le)
    have "p' = p\<lparr>wp_subs := ss, wp_written := wp_written p - sub_lenbytes s,
                  wp_curr := wp_curr p - sub_lenbytes s\<rparr>"
    proof (cases "sub_lenbytes s = 0")
      case l0: True
      with True c s emp show ?thesis
        by (auto simp: wpacket_intern_close_def close_fill_def Let_def size_sub_le split: if_splits)
    next
      case False
      with True c s emp show ?thesis
        by (auto simp: wpacket_intern_close_def close_fill_def Let_def size_sub_le split: if_splits)
    qed
    then show ?thesis
      using wpacket_ok_abandon [OF ok subs emp] by simp
  next
    case False
    with c obtain p2 where f: "close_fill al p s ss ?n = Some p2" and p': "p' = p2\<lparr>wp_subs := ss\<rparr>"
      by (auto simp: wpacket_intern_close_def Let_def split: if_splits)
    from close_fill_ok [OF f ok] subs show ?thesis
      using wpacket_ok_pop [of p2 s ss] by (simp add: p')
  qed
  then show "wpacket_ok p'" and "wp_subs p' = ss"
    by simp_all
qed

lemma intern_close_False_ok:
  assumes c: "wpacket_intern_close al p s ss False = Some p'" and ok: "wpacket_ok p"
  shows "wpacket_ok p'" and "wp_subs p' = wp_subs p"
  using c close_fill_ok [OF _ ok] 
  by (auto simp: wpacket_intern_close_def Let_def split: if_splits)

lemma fill_lengths_ok:
  "fill_lengths_loop al p subs = Some p' \<Longrightarrow> wpacket_ok p \<Longrightarrow> wpacket_ok p'"
proof (induction al p subs rule: fill_lengths_loop.induct)
  case (2 al p sub parents)
  then show ?case
    using intern_close_False_ok by (auto split: option.splits)
qed simp

lemma intern_init_len_ok:
  assumes i: "wpacket_intern_init_len al p lenbytes = Some p'"
    and ok: "wpacket_ok (p\<lparr>wp_curr := 0, wp_written := 0, wp_subs := [new_sub]\<rparr>)"
    and fw: "wp_endfirst p \<Longrightarrow> lenbytes = 0"
  shows "wpacket_ok p'"
proof (cases "lenbytes = 0")
  case True
  with i ok show ?thesis
    by (auto simp: wpacket_intern_init_len_def split: if_splits)
next
  case False
  let ?p = "p\<lparr>wp_curr := 0, wp_written := 0, wp_subs := [new_sub]\<rparr>"
  let ?ss = "[new_sub\<lparr>sub_pwritten := lenbytes, sub_lenbytes := lenbytes\<rparr>]"
  from i False obtain ptr where "WPACKET_allocate_bytes al (?p\<lparr>wp_subs := ?ss\<rparr>) lenbytes = Some (ptr, p')"
    by (auto simp: wpacket_intern_init_len_def Let_def split: if_splits)
  with allocate_bytes_subs [of ?ss ?p al lenbytes]
  obtain q where a: "WPACKET_allocate_bytes al ?p lenbytes = Some (ptr, q)"
    and p': "p' = q\<lparr>wp_subs := ?ss\<rparr>"
    by auto
  from allocate_bytes_ok [OF a ok] fw False show ?thesis
    by (auto simp: p' wpacket_ok_def new_sub_def split: option.splits)
qed

lemma init_ok:
  "WPACKET_init_static_len al buf len lenbytes = Some p \<Longrightarrow> len \<le> length buf \<Longrightarrow> len \<le> SIZE_MAX
     \<Longrightarrow> wpacket_ok p"
  "WPACKET_init_der al buf len = Some p \<Longrightarrow> len \<le> length buf \<Longrightarrow> len \<le> SIZE_MAX \<Longrightarrow> wpacket_ok p"
  "WPACKET_init_len al b lenbytes = Some p \<Longrightarrow> buf_mem_ok b \<Longrightarrow> wpacket_ok p"
  "WPACKET_init_null al lenbytes = Some p \<Longrightarrow> wpacket_ok p"
  "WPACKET_init_null_der al = Some p \<Longrightarrow> wpacket_ok p"
proof -
  have max: "maxmaxsize k \<le> SIZE_MAX" for k
    using power_increasing [of "k * 8" 56 "2 :: nat"] by (auto simp: maxmaxsize_def SIZE_MAX_def not_le)
  show "WPACKET_init_static_len al buf len lenbytes = Some p \<Longrightarrow> len \<le> length buf \<Longrightarrow> len \<le> SIZE_MAX
     \<Longrightarrow> wpacket_ok p"
    using intern_init_len_ok [of al "\<lparr>wp_buf = None, wp_staticbuf = Some buf, wp_curr = 0, wp_written = 0,
        wp_maxsize = (if maxmaxsize lenbytes < len then maxmaxsize lenbytes else len), wp_subs = [],
        wp_endfirst = False\<rparr>" lenbytes p] max [of lenbytes]
    by (auto simp: WPACKET_init_static_len_def Let_def wpacket_ok_def new_sub_def split: if_splits)
  show "WPACKET_init_der al buf len = Some p \<Longrightarrow> len \<le> length buf \<Longrightarrow> len \<le> SIZE_MAX \<Longrightarrow> wpacket_ok p"
    using intern_init_len_ok [of al "\<lparr>wp_buf = None, wp_staticbuf = Some buf, wp_curr = 0, wp_written = 0,
        wp_maxsize = len, wp_subs = [], wp_endfirst = True\<rparr>" 0 p]
    by (auto simp: WPACKET_init_der_def wpacket_ok_def new_sub_def split: if_splits)
  show "WPACKET_init_len al b lenbytes = Some p \<Longrightarrow> buf_mem_ok b \<Longrightarrow> wpacket_ok p"
    unfolding WPACKET_init_len_def
    by (erule intern_init_len_ok) (use max [of lenbytes] in \<open>auto simp: wpacket_ok_def new_sub_def\<close>)
  show "WPACKET_init_null al lenbytes = Some p \<Longrightarrow> wpacket_ok p"
    unfolding WPACKET_init_null_def
    by (erule intern_init_len_ok) (use max [of lenbytes] in \<open>auto simp: wpacket_ok_def new_sub_def\<close>)
  show "WPACKET_init_null_der al = Some p \<Longrightarrow> wpacket_ok p"
    unfolding WPACKET_init_null_der_def
    by (erule intern_init_len_ok) (auto simp: wpacket_ok_def new_sub_def)
qed

section \<open>Reachable states\<close>

text \<open>
  The states a writer can reach: it is initialised on a buffer that is as long as the caller says,
  any sequence of operations follows, and in between the caller fills regions it was handed.
\<close>

inductive wpacket_reach :: "wpacket \<Rightarrow> bool" where
  init_static: "WPACKET_init_static_len al buf len k = Some p \<Longrightarrow> len \<le> length buf \<Longrightarrow> len \<le> SIZE_MAX
    \<Longrightarrow> wpacket_reach p"
| init_der: "WPACKET_init_der al buf len = Some p \<Longrightarrow> len \<le> length buf \<Longrightarrow> len \<le> SIZE_MAX
    \<Longrightarrow> wpacket_reach p"
| init_len: "WPACKET_init_len al b k = Some p \<Longrightarrow> buf_mem_ok b \<Longrightarrow> wpacket_reach p"
| init_null: "WPACKET_init_null al k = Some p \<Longrightarrow> wpacket_reach p"
| init_null_der: "WPACKET_init_null_der al = Some p \<Longrightarrow> wpacket_reach p"
| reserve: "wpacket_reach p \<Longrightarrow> WPACKET_reserve_bytes al p len = Some (ptr, p') \<Longrightarrow> wpacket_reach p'"
| allocate: "wpacket_reach p \<Longrightarrow> WPACKET_allocate_bytes al p len = Some (ptr, p') \<Longrightarrow> wpacket_reach p'"
| sub_allocate: "wpacket_reach p \<Longrightarrow> WPACKET_sub_allocate_bytes al p len k = Some (ptr, p')
    \<Longrightarrow> wpacket_reach p'"
| sub_reserve: "wpacket_reach p \<Longrightarrow> WPACKET_sub_reserve_bytes al p len k = Some (ptr, p')
    \<Longrightarrow> wpacket_reach p'"
| fill: "wpacket_reach p \<Longrightarrow> wpacket_reach (wp_store p ptr ds)"
| put: "wpacket_reach p \<Longrightarrow> WPACKET_put_bytes al p v n = Some p' \<Longrightarrow> wpacket_reach p'"
| memset: "wpacket_reach p \<Longrightarrow> WPACKET_memset al p ch len = Some p' \<Longrightarrow> wpacket_reach p'"
| memcpy: "wpacket_reach p \<Longrightarrow> WPACKET_memcpy al p src len = Some p' \<Longrightarrow> len \<le> length src
    \<Longrightarrow> wpacket_reach p'"
| sub_memcpy: "wpacket_reach p \<Longrightarrow> WPACKET_sub_memcpy al p src len k = Some p' \<Longrightarrow> len \<le> length src
    \<Longrightarrow> wpacket_reach p'"
| start: "wpacket_reach p \<Longrightarrow> WPACKET_start_sub_packet_len al p k = Some p' \<Longrightarrow> wpacket_reach p'"
| close: "wpacket_reach p \<Longrightarrow> WPACKET_close al p = Some p' \<Longrightarrow> wpacket_reach p'"
| fill_lengths: "wpacket_reach p \<Longrightarrow> WPACKET_fill_lengths al p = Some p' \<Longrightarrow> wpacket_reach p'"
| finish: "wpacket_reach p \<Longrightarrow> WPACKET_finish al p = Some p' \<Longrightarrow> wpacket_reach p'"
| set_flags: "wpacket_reach p \<Longrightarrow> WPACKET_set_flags p f = Some p' \<Longrightarrow> wpacket_reach p'"
| set_max_size: "wpacket_reach p \<Longrightarrow> WPACKET_set_max_size p m = Some p' \<Longrightarrow>
    (\<And>d. wp_staticbuf p = Some d \<Longrightarrow> m \<le> length d) \<Longrightarrow> m \<le> SIZE_MAX \<Longrightarrow> wpacket_reach p'"
| start_quic: "wpacket_reach p \<Longrightarrow> WPACKET_start_quic_sub_packet_bound al p m = Some p'
    \<Longrightarrow> wpacket_reach p'"
| quic_sub_allocate: "wpacket_reach p \<Longrightarrow> WPACKET_quic_sub_allocate_bytes al p len = Some (ptr, p')
    \<Longrightarrow> wpacket_reach p'"
| write_vlint: "wpacket_reach p \<Longrightarrow> WPACKET_quic_write_vlint al p v = Some p' \<Longrightarrow> wpacket_reach p'"
| cleanup: "wpacket_reach p \<Longrightarrow> wpacket_reach (WPACKET_cleanup p)"

lemma close_ok: "WPACKET_close al p = Some p' \<Longrightarrow> wpacket_ok p \<Longrightarrow> wpacket_ok p'"
  using intern_close_ok(1) by (auto simp: WPACKET_close_def split: list.splits if_splits)

lemma finish_ok: "WPACKET_finish al p = Some p' \<Longrightarrow> wpacket_ok p \<Longrightarrow> wpacket_ok p'"
  using intern_close_ok(1) by (auto simp: WPACKET_finish_def split: list.splits if_splits)

lemma set_max_size_ok:
  "WPACKET_set_max_size p m = Some p' \<Longrightarrow> wpacket_ok p \<Longrightarrow>
     (\<And>d. wp_staticbuf p = Some d \<Longrightarrow> m \<le> length d) \<Longrightarrow> m \<le> SIZE_MAX \<Longrightarrow> wpacket_ok p'"
  by (auto simp: WPACKET_set_max_size_def wpacket_ok_def Let_def split: if_splits option.splits)

lemma start_quic_ok:
  "WPACKET_start_quic_sub_packet_bound al p m = Some p' \<Longrightarrow> wpacket_ok p \<Longrightarrow> wpacket_ok p'"
  using start_sub_packet_ok wpacket_ok_flags
  by (auto simp: WPACKET_start_quic_sub_packet_bound_def Let_def split: if_splits option.splits list.splits)

lemma wpacket_reach_ok: "wpacket_reach p \<Longrightarrow> wpacket_ok p"
proof (induction rule: wpacket_reach.induct)
  case (sub_allocate p al len k ptr p')
  then show ?case
    using start_sub_packet_ok allocate_bytes_ok(1) close_ok
    by (fastforce simp: WPACKET_sub_allocate_bytes_def split: option.splits)
next
  case (sub_reserve p al len k ptr p')
  then show ?case
    using reserve_bytes_ok
    by (fastforce simp: WPACKET_sub_reserve_bytes_def split: option.splits if_splits)
next
  case (sub_memcpy p al src len k p')
  then show ?case
    using start_sub_packet_ok memcpy_ok(1) close_ok
    by (fastforce simp: WPACKET_sub_memcpy_def split: option.splits)
next
  case (quic_sub_allocate p al len ptr p')
  then show ?case
    using start_quic_ok allocate_bytes_ok(1) close_ok
    by (fastforce simp: WPACKET_quic_sub_allocate_bytes_def split: option.splits)
next
  case (write_vlint p al v p')
  then show ?case
    using allocate_bytes_ok(1) wpacket_ok_store
    by (fastforce simp: WPACKET_quic_write_vlint_def Let_def split: option.splits if_splits)
next
  case (set_flags p f p')
  then show ?case
    using wpacket_ok_flags by (auto simp: WPACKET_set_flags_def split: list.splits)
next
  case (fill_lengths p al p')
  then show ?case
    using fill_lengths_ok by (auto simp: WPACKET_fill_lengths_def split: if_splits)
next
  case (cleanup p)
  then show ?case
    by (auto simp: WPACKET_cleanup_def wpacket_ok_def split: option.splits)
qed (auto intro: init_ok reserve_bytes_ok allocate_bytes_ok(1) wpacket_ok_store put_bytes_ok(1)
    memset_ok memcpy_ok(1) start_sub_packet_ok close_ok finish_ok set_max_size_ok start_quic_ok)

section \<open>Writing forward into a buffer of fixed size\<close>

text \<open>
  A writer on a caller's buffer, seen as that buffer filled up to \<open>wp_written\<close>: whatever the
  sequence of calls, its effect is \<^const>\<open>append\<close>.
\<close>

definition wp_static :: "wpacket \<Rightarrow> bool" where
  "wp_static p \<longleftrightarrow> wpacket_ok p \<and> wp_staticbuf p \<noteq> None \<and> \<not> wp_endfirst p \<and> wp_subs p \<noteq> []"

definition wp_room :: "wpacket \<Rightarrow> nat" where
  "wp_room p = wp_maxsize p - wp_written p"

definition wp_append :: "wpacket \<Rightarrow> bytes \<Rightarrow> wpacket" where
  "wp_append p ds =
     p\<lparr>wp_staticbuf := map_option (\<lambda>d. store_at d (wp_written p) ds) (wp_staticbuf p),
       wp_written := wp_written p + length ds, wp_curr := wp_curr p + length ds\<rparr>"

lemma wp_append_Nil [simp]: "wp_append p [] = p"
  by (cases p) (simp add: wp_append_def map_option.id [unfolded id_def])

lemma wp_append_append [simp]: "wp_append (wp_append p xs) ys = wp_append p (xs @ ys)"
  by (simp add: wp_append_def store_at_append option.map_comp o_def)

lemma wp_append_static:
  "wp_static p \<Longrightarrow> length ds \<le> wp_room p \<Longrightarrow> wp_static (wp_append p ds)"
  using subs_ok_mono [of "wp_written p" "wp_subs p" "wp_written p + length ds"]
  by (auto simp: wp_static_def wp_append_def wpacket_ok_def wp_room_def split: option.splits)

lemma wp_append_room [simp]: "wp_room (wp_append p ds) = wp_room p - length ds"
  by (simp add: wp_append_def wp_room_def)

lemma wp_append_written [simp]: "wp_written (wp_append p ds) = wp_written p + length ds"
  by (simp add: wp_append_def)

lemma wp_append_data:
  assumes "wp_static p" and "length ds \<le> wp_room p"
  shows "wp_data (wp_append p ds) = wp_data p @ ds"
  using assms
  by (auto simp: wp_static_def wp_append_def wp_data_def GETBUF_def wpacket_ok_def wp_room_def buf_simps
      split: option.splits)

lemma allocate_static:
  assumes "wp_static p"
  shows "WPACKET_allocate_bytes al p len =
    (if 0 < len \<and> len \<le> wp_room p
     then Some (Some (wp_written p), p\<lparr>wp_written := wp_written p + len, wp_curr := wp_curr p + len\<rparr>)
     else None)"
proof -
  obtain d where p: "wp_buf p = None" "wp_staticbuf p = Some d" "\<not> wp_endfirst p" "wp_subs p \<noteq> []"
    "wp_curr p = wp_written p" "wp_written p \<le> wp_maxsize p" "wp_maxsize p \<le> SIZE_MAX"
    using assms by (auto simp: wp_static_def wpacket_ok_def)
  have "WPACKET_reserve_bytes al p len = (if 0 < len \<and> len \<le> wp_room p then Some (Some (wp_written p), p) else None)"
    using p by (simp add: WPACKET_reserve_bytes_def WPACKET_get_curr_def GETBUF_def wp_room_def size_sub_le)
  moreover have "len \<le> wp_room p \<Longrightarrow> size_add (wp_written p) len = wp_written p + len"
    using p by (simp add: size_add_le wp_room_def)
  ultimately show ?thesis
    using p(5) by (simp add: WPACKET_allocate_bytes_def)
qed

lemma store_allocated_static:
  assumes "wp_static p" and "length ds = len"
  shows "wp_store (p\<lparr>wp_written := wp_written p + len, wp_curr := wp_curr p + len\<rparr>)
           (Some (wp_written p)) ds = wp_append p ds"
  using assms by (auto simp: wp_store_def wp_append_def wp_static_def split: option.splits)

lemma memcpy_static:
  assumes "wp_static p" and "len \<le> length src"
  shows "WPACKET_memcpy al p src len =
    (if len \<le> wp_room p then Some (wp_append p (take len src)) else None)"
  using assms store_allocated_static [of p "take len src" len]
  by (auto simp: WPACKET_memcpy_def allocate_static)

lemma init_static_ok:
  assumes "al sizeof_wpacket_sub" and "0 < len" and "len \<le> length buf" and "len \<le> SIZE_MAX"
  obtains p where "WPACKET_init_static_len al buf len 0 = Some p" and "wp_static p"
    and "wp_written p = 0" and "wp_room p = len" and "wp_staticbuf p = Some buf" and "wp_subs p = [new_sub]"
proof -
  let ?p = "\<lparr>wp_buf = None, wp_staticbuf = Some buf, wp_curr = 0, wp_written = 0,
             wp_maxsize = len, wp_subs = [new_sub], wp_endfirst = False\<rparr>"
  have "WPACKET_init_static_len al buf len 0 = Some ?p"
    using assms by (auto simp: WPACKET_init_static_len_def wpacket_intern_init_len_def maxmaxsize_def Let_def)
  then show ?thesis
    using assms by (intro that) (auto simp: wp_static_def wpacket_ok_def wp_room_def new_sub_def)
qed

lemma finish_static:
  assumes "wp_static p" and "wp_subs p = [s]" and "sub_lenbytes s = 0" and "sub_flags s = 0"
  shows "WPACKET_finish al p = Some (p\<lparr>wp_subs := []\<rparr>)"
  using assms
  by (auto simp: WPACKET_finish_def wpacket_intern_close_def close_fill_def Let_def wp_static_def wpacket_ok_def)

lemma length_wp_data_buf:
  assumes "wpacket_ok p" and "\<not> WPACKET_is_null_buf p"
  shows "length (wp_data p) = wp_written p"
  using assms GETBUF_null [of p] length_wp_data [of p] length_wp_data_null [of p]
  by (cases "GETBUF p = None") auto

lemma sub_memcpy_len:
  assumes "WPACKET_sub_memcpy al p src len k = Some p'" and "wpacket_ok p" and "0 < k"
    and "len \<le> length src"
  shows "len \<le> SIZE_MAX"
proof -
  obtain p1 p2 where st: "WPACKET_start_sub_packet_len al p k = Some p1"
    and mc: "WPACKET_memcpy al p1 src len = Some p2"
    using assms by (auto simp: WPACKET_sub_memcpy_def split: option.splits)
  from start_sub_packet_len_ok [OF st assms(2,3)] have "wpacket_ok p1"
    by metis
  from memcpy_ok(1,3) [OF mc this assms(4)] show ?thesis
    by (auto simp: wpacket_ok_def)
qed

lemma start_static:
  assumes p: "wp_static p" and al: "al sizeof_wpacket_sub" and k: "0 < k"
  shows "WPACKET_start_sub_packet_len al p k =
    (if k \<le> wp_room p
     then Some (p\<lparr>wp_subs := new_sub\<lparr>sub_pwritten := wp_written p + k, sub_lenbytes := k,
                                        sub_packet_len := wp_written p\<rparr> # wp_subs p,
                   wp_written := wp_written p + k, wp_curr := wp_curr p + k\<rparr>)
     else None)"
proof -
  let ?ss = "new_sub\<lparr>sub_pwritten := size_add (wp_written p) k, sub_lenbytes := k,
                     sub_packet_len := wp_written p\<rparr> # wp_subs p"
  have ne: "wp_subs p \<noteq> []" "\<not> wp_endfirst p"
    using p by (auto simp: wp_static_def)
  have "k \<le> wp_room p \<Longrightarrow> size_add (wp_written p) k = wp_written p + k"
    using p by (auto simp: wp_static_def wp_room_def wpacket_ok_def size_add_le)
  with allocate_bytes_subs [of ?ss p al k] ne al k allocate_static [OF p, of al k] show ?thesis
    by (simp add: WPACKET_start_sub_packet_len_def Let_def)
qed

lemma sub_memcpy_static:
  assumes "wp_static p" and "al sizeof_wpacket_sub" and "0 < k" and "len \<le> length src"
  shows "WPACKET_sub_memcpy al p src len k \<noteq> None \<longleftrightarrow> len < 256 ^ k \<and> k + len \<le> wp_room p"
proof -
  note ok = assms(1) [unfolded wp_static_def, THEN conjunct1]
  define s where "s = new_sub\<lparr>sub_pwritten := wp_written p + k, sub_lenbytes := k,
                                sub_packet_len := wp_written p\<rparr>"
  define p1 where "p1 = p\<lparr>wp_subs := s # wp_subs p, wp_written := wp_written p + k, wp_curr := wp_curr p + k\<rparr>"
  have st: "WPACKET_start_sub_packet_len al p k = (if k \<le> wp_room p then Some p1 else None)"
    using start_static [of p al k, OF assms(1-3)] by (simp add: p1_def s_def)
  have static: "wp_static p1" if "k \<le> wp_room p"
    using start_sub_packet_ok [of al p k p1] ok st that assms(1) by (simp add: wp_static_def p1_def)
  have cl: "WPACKET_close al (wp_append p1 (take len src)) \<noteq> None \<longleftrightarrow> len < 256 ^ k"
    if "k + len \<le> wp_room p"
  proof -
    let ?p2 = "wp_append p1 (take len src)"
    have "wp_static ?p2"
      using static that assms(4) by (intro wp_append_static) (auto simp: p1_def wp_room_def)
    then obtain d where ok2: "wpacket_ok ?p2" and d: "GETBUF ?p2 = Some d"
      by (auto simp: wp_static_def GETBUF_def split: option.splits)
    have subs: "wp_subs ?p2 = s # wp_subs p" and ne: "wp_subs p \<noteq> []"
      and w: "wp_written ?p2 - sub_pwritten s = len" "sub_lenbytes s = k" "sub_flags s = 0"
      using assms(1,4) by (auto simp: p1_def wp_append_def s_def wp_static_def new_sub_def)
    show ?thesis
      using close_prefixed [OF ok2 subs ne _ w(3) d, of al] close_prefixed_fits(2) [OF _ ok2 subs _ w(3), of al]
        w assms(3) d by auto
  qed
  have "WPACKET_sub_memcpy al p src len k =
    (if k + len \<le> wp_room p then WPACKET_close al (wp_append p1 (take len src)) else None)"
    using st memcpy_static [OF static assms(4), of al] by (auto simp: WPACKET_sub_memcpy_def wp_room_def p1_def)
  with cl show ?thesis
    by auto
qed

section \<open>Properties\<close>

text \<open>A writer over 16 bytes, on which the properties are exercised.\<close>

definition writer_ex :: wpacket where
  "writer_ex = \<lparr>wp_buf = None, wp_staticbuf = Some (replicate 16 0), wp_curr = 0, wp_written = 0,
     wp_maxsize = 16, wp_subs = [new_sub], wp_endfirst = False\<rparr>"

lemma writer_ex_init: "WPACKET_init_static_len (\<lambda>_. True) (replicate 16 0) 16 0 = Some writer_ex"
  by (simp add: writer_ex_def WPACKET_init_static_len_def wpacket_intern_init_len_def maxmaxsize_def
      SIZE_MAX_def Let_def)

lemma writer_ex_reach: "wpacket_reach writer_ex"
  by (rule wpacket_reach.init_static [OF writer_ex_init]) (simp_all add: SIZE_MAX_def)

lemma writer_ex_static: "wp_static writer_ex"
  using wpacket_reach_ok [OF writer_ex_reach] by (simp add: wp_static_def writer_ex_def)

lemma writer_ex_fields:
  "wp_room writer_ex = 16" "wp_written writer_ex = 0" "\<not> wp_endfirst writer_ex"
  "\<not> WPACKET_is_null_buf writer_ex"
  by (simp_all add: writer_ex_def wp_room_def WPACKET_is_null_buf_def)



text \<open>C20: a sub-packet written with a length prefix of one, two or three bytes is read back by the
  matching reader: the reader yields the bytes copied and leaves nothing behind.\<close>

theorem WPACKET_sub_memcpy_read:
  assumes "wpacket_reach p" and "\<not> WPACKET_is_null_buf p" and "len \<le> length src"
    and "WPACKET_sub_memcpy al p src len k = Some p'"
    and "PACKET_buf_init (drop (wp_written p) (wp_data p')) (k + len) = Some pkt"
  shows "(k = 1 \<longrightarrow> (\<exists>r. PACKET_get_length_prefixed_1 pkt = Some (\<lparr>pkt_curr = take len src, pkt_remaining = len\<rparr>, r)
            \<and> PACKET_remaining r = 0)) \<and>
         (k = 2 \<longrightarrow> (\<exists>r. PACKET_get_length_prefixed_2 pkt = Some (\<lparr>pkt_curr = take len src, pkt_remaining = len\<rparr>, r)
            \<and> PACKET_remaining r = 0)) \<and>
         (k = 3 \<longrightarrow> (\<exists>r. PACKET_get_length_prefixed_3 pkt = Some (\<lparr>pkt_curr = take len src, pkt_remaining = len\<rparr>, r)
            \<and> PACKET_remaining r = 0))"
proof (cases "0 < k")
  case True
  note ok = wpacket_reach_ok [OF assms(1)]
  note w = sub_memcpy_prefixed [OF assms(4) ok True assms(3,2)]
  let ?l = "fst (put_value_loop (of_nat len) k [])"
  have d: "drop (wp_written p) (wp_data p') = ?l @ take len src"
    using w(3) length_wp_data_buf [OF ok assms(2)] by simp
  have pkt: "pkt_ok pkt" "pkt_bytes pkt = ?l @ take len src @ []"
    using buf_init_bytes [OF assms(5)] assms(3) by (simp_all add: d)
  have l: "length ?l = k" "be_value ?l = length (take len src)"
    using w(2) assms(3) sub_memcpy_len [OF assms(4) ok True assms(3)]
    by (simp_all add: be_value_put_value_loop unat_of_nat SIZE_MAX_def)
  have rem: "pkt_ok r \<and> pkt_bytes r = [] \<Longrightarrow> PACKET_remaining r = 0" for r
    using length_pkt_bytes [of r] by (simp add: PACKET_remaining_def)
  show ?thesis
    using lp1.get_prefixed_read [OF pkt _ l(2)] lp2.get_prefixed_read [OF pkt _ l(2)]
      lp3.get_prefixed_read [OF pkt _ l(2)] l(1) assms(3) rem by auto
qed simp

theorem WPACKET_sub_memcpy_read_witness:
  "\<exists>r. PACKET_get_length_prefixed_2 (the (PACKET_buf_init (drop 0 (wp_data
       (the (WPACKET_sub_memcpy (\<lambda>_. True) writer_ex [7, 8, 9] 3 2)))) (2 + 3))) =
     Some (\<lparr>pkt_curr = [7, 8, 9], pkt_remaining = 3\<rparr>, r) \<and> PACKET_remaining r = 0"
proof -
  let ?m = "WPACKET_sub_memcpy (\<lambda>_. True) writer_ex [7, 8, 9] 3 2"
  let ?i = "PACKET_buf_init (drop (wp_written writer_ex) (wp_data (the ?m))) (2 + 3)"
  have m: "?m = Some (the ?m)"
    using sub_memcpy_static [OF writer_ex_static, of "\<lambda>_. True" 2 3 "[7, 8, 9]"]
    by (simp add: writer_ex_fields)
  have i: "?i = Some (the ?i)"
    by (simp add: PACKET_buf_init_def SIZE_MAX_def)
  from WPACKET_sub_memcpy_read [OF writer_ex_reach writer_ex_fields(4) _ m i] show ?thesis
    by (simp add: writer_ex_fields)
qed

text \<open>C21: on a caller's buffer, writing a length-prefixed sub-packet succeeds exactly when the
  length fits into the prefix and prefix and contents fit into the room left.\<close>

theorem WPACKET_sub_memcpy_total:
  assumes "wp_static p" and "al sizeof_wpacket_sub" and "0 < k" and "len \<le> length src"
  shows "WPACKET_sub_memcpy al p src len k \<noteq> None \<longleftrightarrow> len < 256 ^ k \<and> k + len \<le> wp_room p"
  using assms by (rule sub_memcpy_static)

theorem WPACKET_sub_memcpy_total_witness:
  "WPACKET_sub_memcpy (\<lambda>_. True) writer_ex [7, 8, 9] 3 2 \<noteq> None"
  using WPACKET_sub_memcpy_total [OF writer_ex_static, of "\<lambda>_. True" 2 3 "[7, 8, 9]"]
  by (simp add: writer_ex_fields)

text \<open>C22: a QUIC variable-length integer that the writer accepts is read back, and the reader stops
  right behind it.\<close>

theorem WPACKET_quic_write_vlint_read:
  assumes "wpacket_reach p" and "\<not> wp_endfirst p" and "WPACKET_quic_write_vlint al p v = Some p'"
    and "PACKET_buf_init (drop (wp_written p) (wp_data p') @ rest) (wp_written p' - wp_written p + length rest) = Some pkt"
  shows "PACKET_get_quic_vlint pkt = Some (v, \<lparr>pkt_curr = rest, pkt_remaining = length rest\<rparr>)"
proof -
  note ok = wpacket_reach_ok [OF assms(1)]
  let ?n = "ossl_quic_vlint_encode_len v"
  let ?e = "ossl_quic_vlint_encode v"
  obtain b q where a: "WPACKET_allocate_bytes al p ?n = Some (Some b, q)"
    and p': "p' = wp_store q (Some b) ?e" and n: "?n \<noteq> 0"
    using assms(3) unfolding WPACKET_quic_write_vlint_def Let_def
    by (cases "WPACKET_allocate_bytes al p ?n") (auto split: if_splits option.splits)
  have v: "unat v < 2 ^ 62"
    using n by (auto simp: encode_len_eq split: if_splits)
  note len = vlint_encode_length [OF v]
  obtain d where "GETBUF q = Some d"
    using allocate_bytes_inside [OF a ok] .
  then have dat: "wp_data p' = wp_data p @ ?e" and buf: "\<not> WPACKET_is_null_buf p"
    using store_allocated [OF a ok len] assms(2) allocate_bytes_null [OF a ok]
    by (auto simp: p' WPACKET_is_null_buf_def GETBUF_def split: option.splits)
  have w: "wp_written p' = wp_written p + length ?e"
    using allocate_bytes_ok(2) [OF a ok] len by (simp add: p')
  have pkt: "pkt = \<lparr>pkt_curr = ?e @ rest, pkt_remaining = length ?e + length rest\<rparr>"
    using assms(4) length_wp_data_buf [OF ok buf]
    by (simp add: dat w PACKET_buf_init_def split: if_splits)
  have "0 < length ?e"
    using n len by simp
  then show ?thesis
    using vlint_decode_encode [OF v, of rest]
    by (simp add: pkt PACKET_get_quic_vlint_def PACKET_remaining_def Let_def packet_forward_def size_sub_le)
qed

theorem WPACKET_quic_write_vlint_read_witness:
  "PACKET_get_quic_vlint (the (PACKET_buf_init (drop 0 (wp_data
       (the (WPACKET_quic_write_vlint (\<lambda>_. True) writer_ex 70000))) @ [1]) 5)) =
     Some (70000, \<lparr>pkt_curr = [1], pkt_remaining = 1\<rparr>)"
proof -
  let ?m = "WPACKET_quic_write_vlint (\<lambda>_. True) writer_ex 70000"
  let ?i = "PACKET_buf_init (drop (wp_written writer_ex) (wp_data (the ?m)) @ [1])
              (wp_written (the ?m) - wp_written writer_ex + length [1 :: byte])"
  have "ossl_quic_vlint_encode_len 70000 = 4"
    by (simp add: encode_len_eq)
  then have m: "?m = Some (the ?m)" and w: "wp_written (the ?m) = 4"
    unfolding WPACKET_quic_write_vlint_def Let_def
    by (simp_all add: allocate_static [OF writer_ex_static] writer_ex_fields)
  have i: "?i = Some (the ?i)"
    by (simp add: PACKET_buf_init_def SIZE_MAX_def w)
  from WPACKET_quic_write_vlint_read [OF writer_ex_reach writer_ex_fields(3) m i] show ?thesis
    by (simp add: w writer_ex_fields)
qed

text \<open>C30: \<open>WPACKET_set_max_size\<close> compares the new limit with the width of the outermost length prefix
  only. On a writer over a caller's buffer it accepts a limit above the size of that buffer, and an
  allocation then hands out a region that ends behind the buffer.\<close>

theorem WPACKET_set_max_size_static_overrun:
  "\<exists>buf p p' off q. WPACKET_init_static_len (\<lambda>_. True) buf (length buf) 0 = Some p \<and>
     WPACKET_set_max_size p (2 * length buf) = Some p' \<and>
     WPACKET_allocate_bytes (\<lambda>_. True) p' (2 * length buf) = Some (Some off, q) \<and>
     off + 2 * length buf > length buf"
proof -
  let ?p' = "writer_ex\<lparr>wp_maxsize := 32\<rparr>"
  have "WPACKET_set_max_size writer_ex (2 * 16) = Some ?p'"
    by (simp add: WPACKET_set_max_size_def writer_ex_def new_sub_def maxmaxsize_def SIZE_MAX_def)
  moreover obtain q where "WPACKET_allocate_bytes (\<lambda>_. True) ?p' (2 * 16) = Some (Some 0, q)"
    by (simp add: WPACKET_allocate_bytes_def WPACKET_reserve_bytes_def WPACKET_get_curr_def GETBUF_def
        writer_ex_def size_sub_le)
  ultimately have "WPACKET_init_static_len (\<lambda>_. True) (replicate 16 0) (length (replicate 16 (0 :: byte))) 0 = Some writer_ex \<and>
     WPACKET_set_max_size writer_ex (2 * length (replicate 16 (0 :: byte))) = Some ?p' \<and>
     WPACKET_allocate_bytes (\<lambda>_. True) ?p' (2 * length (replicate 16 (0 :: byte))) = Some (Some 0, q) \<and>
     0 + 2 * length (replicate 16 (0 :: byte)) > length (replicate 16 (0 :: byte))"
    using writer_ex_init by simp
  then show ?thesis
    by blast
qed

end
