(* ===== verification/Slh_Hash.thy ===== *)
theory Slh_Hash
  imports Slh_Params Slh_Adrs Wpacket
begin

text \<open>
  The tweakable hash functions of \<open>crypto/slh_dsa/slh_hash.c\<close> in their SHAKE and SHA2 forms, with
  \<open>PKCS1_MGF1\<close> of \<open>crypto/rsa/rsa_oaep.c\<close> which the latter uses.

  The digests behind EVP are parameters: a digest maps the bytes it was fed to an output stream, or
  fails. A pointer argument is the list of the bytes from it on, so that each function takes the
  number of bytes it reads from it. The contract of a table of hash functions is the locale
  \<open>slh_hash\<close>; both tables keep it as soon as the digests do not fail.
\<close>

section \<open>Digests\<close>

record evp_md =
  md_size :: int
  md_digest :: "bytes \<Rightarrow> (nat \<Rightarrow> byte) option"

text \<open>A MAC: the underlying digest, the key and the data.\<close>

type_synonym evp_mac = "evp_md \<Rightarrow> bytes \<Rightarrow> bytes \<Rightarrow> (nat \<Rightarrow> byte) option"

text \<open>
  The library context and the \<open>EVP\<close> and \<open>RAND\<close> services behind it: fetching a digest or a MAC by name
  and property query, creating and duplicating contexts, and random bytes.
\<close>

record evp_lib =
  lib_md_fetch :: "string \<Rightarrow> string option \<Rightarrow> evp_md option"
  lib_mac_fetch :: "string \<Rightarrow> string option \<Rightarrow> evp_mac option"
  lib_md_ctx_new :: bool
  lib_digest_init :: "evp_md \<Rightarrow> bool"
  lib_md_ctx_dup :: bool
  lib_mac_ctx_new :: bool
  lib_mac_ctx_dup :: bool
  lib_rand_priv :: "nat \<Rightarrow> bytes option"
  lib_rand :: "nat \<Rightarrow> bytes option"

text \<open>
  What the hash functions read of \<open>SLH_DSA_HASH_CTX\<close> and of its key: the parameters, the digests
  behind \<open>md_ctx\<close> and \<open>md_big_ctx\<close>, \<open>key->md_big\<close>, the MAC, and the state of \<open>hmac_ctx\<close>.
\<close>

record hash_env =
  he_params :: slh_dsa_params
  he_md :: evp_md
  he_md_big :: "evp_md option"
  he_key_md_big :: "evp_md option"
  he_hmac :: "evp_mac option"
  he_hmac_md :: "evp_md option"
  he_hmac_digest_used :: bool

definition MAX_DIGEST_SIZE :: nat where "MAX_DIGEST_SIZE = 64"
definition SLH_MAX_N :: nat where "SLH_MAX_N = 32"

definition xof_digest_3 ::
    "evp_md \<Rightarrow> bytes \<Rightarrow> nat \<Rightarrow> bytes \<Rightarrow> nat \<Rightarrow> bytes \<Rightarrow> nat \<Rightarrow> nat \<Rightarrow> bytes option" where
  "xof_digest_3 md in1 in1_len in2 in2_len in3 in3_len out_len =
     map_option (\<lambda>s. map s [0..<out_len])
       (md_digest md (take in1_len in1 @ take in2_len in2 @ take in3_len in3))"

definition xof_digest_4 ::
    "evp_md \<Rightarrow> bytes \<Rightarrow> nat \<Rightarrow> bytes \<Rightarrow> nat \<Rightarrow> bytes \<Rightarrow> nat \<Rightarrow> bytes \<Rightarrow> nat \<Rightarrow> nat \<Rightarrow> bytes option" where
  "xof_digest_4 md in1 in1_len in2 in2_len in3 in3_len in4 in4_len out_len =
     map_option (\<lambda>s. map s [0..<out_len])
       (md_digest md (take in1_len in1 @ take in2_len in2 @ take in3_len in3 @ take in4_len in4))"

definition digest_4 ::
    "evp_md \<Rightarrow> bytes \<Rightarrow> nat \<Rightarrow> bytes \<Rightarrow> nat \<Rightarrow> bytes \<Rightarrow> nat \<Rightarrow> bytes \<Rightarrow> nat \<Rightarrow> bytes option" where
  "digest_4 md in1 in1_len in2 in2_len in3 in3_len in4 in4_len =
     map_option (\<lambda>s. map s [0..<nat (md_size md)])
       (md_digest md (take in1_len in1 @ take in2_len in2 @ take in3_len in3 @ take in4_len in4))"

section \<open>MGF1\<close>

text \<open>
  The loop of \<open>PKCS1_MGF1\<close>; \<open>msk\<close> holds the \<open>outlen\<close> bytes written so far. The caller has
  excluded \<open>mdlen = 0\<close>, for which the loop would not end.
\<close>

function MGF1_loop :: "evp_md \<Rightarrow> nat \<Rightarrow> bytes \<Rightarrow> nat \<Rightarrow> nat \<Rightarrow> bytes \<Rightarrow> bytes option" where
  "MGF1_loop dgst mdlen seed len i msk =
     (if \<not> length msk < len then Some msk
      else if mdlen = 0 then None
      else
        let c = of_nat i :: u64;
            cnt = [ucast (drop_bit 24 c AND 255), ucast (drop_bit 16 c AND 255),
                   ucast (drop_bit 8 c AND 255), ucast (c AND 255)]
        in (case md_digest dgst (seed @ cnt) of
              None \<Rightarrow> None
            | Some s \<Rightarrow>
                if length msk + mdlen \<le> len
                then MGF1_loop dgst mdlen seed len (Suc i) (msk @ map s [0..<mdlen])
                else MGF1_loop dgst mdlen seed len (Suc i)
                       (msk @ take (len - length msk) (map s [0..<mdlen]))))"
  by pat_completeness auto
termination
  by (relation "measure (\<lambda>(dgst, mdlen, seed, len, i, msk). len - length msk)") auto

declare MGF1_loop.simps [simp del]

definition PKCS1_MGF1 :: "nat \<Rightarrow> bytes \<Rightarrow> nat \<Rightarrow> evp_md \<Rightarrow> bytes option" where
  "PKCS1_MGF1 len seed seedlen dgst =
     (let mdlen = md_size dgst
      in if mdlen \<le> 0 then None else MGF1_loop dgst (nat mdlen) (take seedlen seed) len 0 [])"

section \<open>SHAKE\<close>

definition slh_hmsg_shake ::
    "hash_env \<Rightarrow> bytes \<Rightarrow> bytes \<Rightarrow> bytes \<Rightarrow> bytes \<Rightarrow> nat \<Rightarrow> bytes option" where
  "slh_hmsg_shake ctx r pk_seed pk_root msg msg_len =
     (let m = sp_m (he_params ctx); n = sp_n (he_params ctx)
      in xof_digest_4 (he_md ctx) r n pk_seed n pk_root n msg msg_len m)"

definition slh_prf_shake :: "hash_env \<Rightarrow> bytes \<Rightarrow> bytes \<Rightarrow> bytes \<Rightarrow> bytes option" where
  "slh_prf_shake ctx pk_seed sk_seed adrs =
     (let n = sp_n (he_params ctx)
      in xof_digest_3 (he_md ctx) pk_seed n adrs SLH_ADRS_SIZE sk_seed n n)"

definition slh_prf_msg_shake ::
    "allocator \<Rightarrow> hash_env \<Rightarrow> bytes \<Rightarrow> bytes \<Rightarrow> bytes \<Rightarrow> nat \<Rightarrow> wpacket \<Rightarrow> hash_env \<times> wpacket option" where
  "slh_prf_msg_shake al ctx sk_prf opt_rand msg msg_len pkt =
     (let n = sp_n (he_params ctx)
      in (ctx, case xof_digest_3 (he_md ctx) sk_prf n opt_rand n msg msg_len n of
                 None \<Rightarrow> None
               | Some out \<Rightarrow> WPACKET_memcpy al pkt out n))"

definition slh_f_shake :: "hash_env \<Rightarrow> bytes \<Rightarrow> bytes \<Rightarrow> bytes \<Rightarrow> nat \<Rightarrow> bytes option" where
  "slh_f_shake ctx pk_seed adrs m1 m1_len =
     (let n = sp_n (he_params ctx)
      in xof_digest_3 (he_md ctx) pk_seed n adrs SLH_ADRS_SIZE m1 m1_len n)"

definition slh_h_shake :: "hash_env \<Rightarrow> bytes \<Rightarrow> bytes \<Rightarrow> bytes \<Rightarrow> bytes \<Rightarrow> bytes option" where
  "slh_h_shake ctx pk_seed adrs m1 m2 =
     (let n = sp_n (he_params ctx)
      in xof_digest_4 (he_md ctx) pk_seed n adrs SLH_ADRS_SIZE m1 n m2 n n)"

definition slh_t_shake :: "hash_env \<Rightarrow> bytes \<Rightarrow> bytes \<Rightarrow> bytes \<Rightarrow> nat \<Rightarrow> bytes option" where
  "slh_t_shake ctx pk_seed adrs ml ml_len =
     (let n = sp_n (he_params ctx)
      in xof_digest_3 (he_md ctx) pk_seed n adrs SLH_ADRS_SIZE ml ml_len n)"

section \<open>SHA2\<close>

definition slh_hmsg_sha2 ::
    "hash_env \<Rightarrow> bytes \<Rightarrow> bytes \<Rightarrow> bytes \<Rightarrow> bytes \<Rightarrow> nat \<Rightarrow> bytes option" where
  "slh_hmsg_sha2 hctx r pk_seed pk_root msg msg_len =
     (case (he_key_md_big hctx, he_md_big hctx) of
        (Some kmd, Some cmd) \<Rightarrow>
          let m = sp_m (he_params hctx); n = sp_n (he_params hctx); sz = md_size kmd;
              seed_len = nat sz + 2 * n
          in if sz \<le> 0 then None
             else (case digest_4 cmd r n pk_seed n pk_root n msg msg_len of
                     None \<Rightarrow> None
                   | Some dig \<Rightarrow>
                       let seed = store_at (store_at (store_at (replicate (2 * SLH_MAX_N + MAX_DIGEST_SIZE) 0)
                                    0 (take n r)) n (take n pk_seed)) (2 * n) dig
                       in PKCS1_MGF1 m seed seed_len kmd)
      | _ \<Rightarrow> None)"

text \<open>
  \<open>hmac_ctx\<close> gets its digest on the first call and keeps it. \<open>EVP_MAC_final\<close> fails when the MAC
  does not fit the 64 bytes of \<open>mac\<close>; these are zero beyond what it writes.
\<close>

definition slh_prf_msg_sha2 ::
    "allocator \<Rightarrow> hash_env \<Rightarrow> bytes \<Rightarrow> bytes \<Rightarrow> bytes \<Rightarrow> nat \<Rightarrow> wpacket \<Rightarrow> hash_env \<times> wpacket option" where
  "slh_prf_msg_sha2 al hctx sk_prf opt_rand msg msg_len pkt =
     (let n = sp_n (he_params hctx);
          hctx1 = (if \<not> he_hmac_digest_used hctx
                   then hctx\<lparr>he_hmac_md := he_key_md_big hctx, he_hmac_digest_used := True\<rparr>
                   else hctx)
      in (hctx1,
          case (he_hmac hctx1, he_hmac_md hctx1) of
            (Some hmac, Some md) \<Rightarrow>
              (case hmac md (take n sk_prf) (take n opt_rand @ take msg_len msg) of
                 None \<Rightarrow> None
               | Some s \<Rightarrow>
                   if md_size md > int MAX_DIGEST_SIZE then None
                   else WPACKET_memcpy al pkt
                          (store_at (replicate MAX_DIGEST_SIZE 0) 0 (map s [0..<nat (md_size md)])) n)
          | _ \<Rightarrow> None))"

definition do_hash ::
    "evp_md \<Rightarrow> nat \<Rightarrow> bytes \<Rightarrow> bytes \<Rightarrow> bytes \<Rightarrow> nat \<Rightarrow> nat \<Rightarrow> bytes option" where
  "do_hash md n pk_seed adrs m m_len b =
     (let zeros = replicate 128 0
      in (case digest_4 md pk_seed n zeros (size_sub b n) adrs SLH_ADRSC_SIZE m m_len of
            None \<Rightarrow> None
          | Some dig \<Rightarrow> Some (take n (store_at (replicate MAX_DIGEST_SIZE 0) 0 dig))))"

definition slh_prf_sha2 :: "hash_env \<Rightarrow> bytes \<Rightarrow> bytes \<Rightarrow> bytes \<Rightarrow> bytes option" where
  "slh_prf_sha2 hctx pk_seed sk_seed adrs =
     (let n = sp_n (he_params hctx)
      in do_hash (he_md hctx) n pk_seed adrs sk_seed n OSSL_SLH_DSA_SHA2_NUM_ZEROS_H_AND_T_BOUND1)"

definition slh_f_sha2 :: "hash_env \<Rightarrow> bytes \<Rightarrow> bytes \<Rightarrow> bytes \<Rightarrow> nat \<Rightarrow> bytes option" where
  "slh_f_sha2 hctx pk_seed adrs m1 m1_len =
     do_hash (he_md hctx) (sp_n (he_params hctx)) pk_seed adrs m1 m1_len
       OSSL_SLH_DSA_SHA2_NUM_ZEROS_H_AND_T_BOUND1"

definition slh_h_sha2 :: "hash_env \<Rightarrow> bytes \<Rightarrow> bytes \<Rightarrow> bytes \<Rightarrow> bytes \<Rightarrow> bytes option" where
  "slh_h_sha2 hctx pk_seed adrs m1 m2 =
     (let prms = he_params hctx; n = sp_n prms;
          m = store_at (store_at (replicate (SLH_MAX_N * 2) 0) 0 (take n m1)) n (take n m2)
      in (case he_md_big hctx of
            None \<Rightarrow> None
          | Some md \<Rightarrow> do_hash md n pk_seed adrs m (2 * n) (sp_sha2_h_and_t_bound prms)))"

definition slh_t_sha2 :: "hash_env \<Rightarrow> bytes \<Rightarrow> bytes \<Rightarrow> bytes \<Rightarrow> nat \<Rightarrow> bytes option" where
  "slh_t_sha2 hctx pk_seed adrs ml ml_len =
     (let prms = he_params hctx
      in (case he_md_big hctx of
            None \<Rightarrow> None
          | Some md \<Rightarrow> do_hash md (sp_n prms) pk_seed adrs ml ml_len (sp_sha2_h_and_t_bound prms)))"

section \<open>The method tables\<close>

record slh_hash_func =
  H_MSG :: "hash_env \<Rightarrow> bytes \<Rightarrow> bytes \<Rightarrow> bytes \<Rightarrow> bytes \<Rightarrow> nat \<Rightarrow> bytes option"
  PRF :: "hash_env \<Rightarrow> bytes \<Rightarrow> bytes \<Rightarrow> bytes \<Rightarrow> bytes option"
  PRF_MSG :: "allocator \<Rightarrow> hash_env \<Rightarrow> bytes \<Rightarrow> bytes \<Rightarrow> bytes \<Rightarrow> nat \<Rightarrow> wpacket \<Rightarrow> hash_env \<times> wpacket option"
  hash_F :: "hash_env \<Rightarrow> bytes \<Rightarrow> bytes \<Rightarrow> bytes \<Rightarrow> nat \<Rightarrow> bytes option"
  hash_H :: "hash_env \<Rightarrow> bytes \<Rightarrow> bytes \<Rightarrow> bytes \<Rightarrow> bytes \<Rightarrow> bytes option"
  hash_T :: "hash_env \<Rightarrow> bytes \<Rightarrow> bytes \<Rightarrow> bytes \<Rightarrow> nat \<Rightarrow> bytes option"

definition ossl_slh_get_hash_fn :: "bool \<Rightarrow> slh_hash_func" where
  "ossl_slh_get_hash_fn is_shake =
     (if is_shake then
        \<lparr>H_MSG = slh_hmsg_shake, PRF = slh_prf_shake, PRF_MSG = slh_prf_msg_shake,
         hash_F = slh_f_shake, hash_H = slh_h_shake, hash_T = slh_t_shake\<rparr>
      else
        \<lparr>H_MSG = slh_hmsg_sha2, PRF = slh_prf_sha2, PRF_MSG = slh_prf_msg_sha2,
         hash_F = slh_f_sha2, hash_H = slh_h_sha2, hash_T = slh_t_sha2\<rparr>)"

section \<open>The contract\<close>

text \<open>
  In an environment the table accepts, the functions succeed, yield as many bytes as their callers
  take, read of their arguments no more than they were told, and do not depend on the state of the
  MAC; the randomiser is appended to the packet.
\<close>

abbreviation env_mac :: "hash_env \<Rightarrow> evp_md option \<Rightarrow> bool \<Rightarrow> hash_env" where
  "env_mac env md used \<equiv> env\<lparr>he_hmac_md := md, he_hmac_digest_used := used\<rparr>"

locale slh_hash =
  fixes hf :: slh_hash_func and env_ok :: "hash_env \<Rightarrow> bool"
  assumes F_ok: "env_ok env \<Longrightarrow> \<exists>y. hash_F hf env pk adrs x l = Some y \<and> length y = sp_n (he_params env)"
    and H_ok: "env_ok env \<Longrightarrow> \<exists>y. hash_H hf env pk adrs x1 x2 = Some y \<and> length y = sp_n (he_params env)"
    and T_ok: "env_ok env \<Longrightarrow> \<exists>y. hash_T hf env pk adrs x l = Some y \<and> length y = sp_n (he_params env)"
    and PRF_ok: "env_ok env \<Longrightarrow> \<exists>y. PRF hf env pk sk adrs = Some y \<and> length y = sp_n (he_params env)"
    and H_MSG_ok: "env_ok env \<Longrightarrow>
      \<exists>y. H_MSG hf env r pk root msg l = Some y \<and> length y = sp_m (he_params env)"
    and PRF_MSG_ok: "env_ok env \<Longrightarrow>
      \<exists>y md used. sp_n (he_params env) \<le> length y \<and>
        PRF_MSG hf al env sk_prf rand msg l pkt =
          (env_mac env md used, WPACKET_memcpy al pkt y (sp_n (he_params env))) \<and>
        env_ok (env_mac env md used)"
    and F_take: "hash_F hf env pk adrs (take l x) l = hash_F hf env pk adrs x l"
    and T_take: "hash_T hf env pk adrs (take l x) l = hash_T hf env pk adrs x l"
    and H_MSG_take: "H_MSG hf env (take (sp_n (he_params env)) r) pk root msg l = H_MSG hf env r pk root msg l"
    and F_seed: "hash_F hf env (take (sp_n (he_params env)) pk) adrs x l = hash_F hf env pk adrs x l"
    and H_seed: "hash_H hf env (take (sp_n (he_params env)) pk) adrs x1 x2 = hash_H hf env pk adrs x1 x2"
    and T_seed: "hash_T hf env (take (sp_n (he_params env)) pk) adrs x l = hash_T hf env pk adrs x l"
    and PRF_seed: "PRF hf env (take (sp_n (he_params env)) pk) (take (sp_n (he_params env)) sk) adrs = PRF hf env pk sk adrs"
    and F_mac: "hash_F hf (env_mac env md used) = hash_F hf env"
    and H_mac: "hash_H hf (env_mac env md used) = hash_H hf env"
    and T_mac: "hash_T hf (env_mac env md used) = hash_T hf env"
    and PRF_mac: "PRF hf (env_mac env md used) = PRF hf env"
    and H_MSG_mac: "H_MSG hf (env_mac env md used) = H_MSG hf env"

section \<open>Both tables keep it\<close>

definition md_total :: "evp_md \<Rightarrow> bool" where
  "md_total md \<longleftrightarrow> (\<forall>x. md_digest md x \<noteq> None)"

definition shake_env_ok :: "hash_env \<Rightarrow> bool" where
  "shake_env_ok env \<longleftrightarrow> md_total (he_md env)"

definition mac_total :: "evp_mac \<Rightarrow> evp_md \<Rightarrow> bool" where
  "mac_total mac md \<longleftrightarrow> md_size md \<le> 64 \<and> (\<forall>k x. mac md k x \<noteq> None)"

definition sha2_env_ok :: "hash_env \<Rightarrow> bool" where
  "sha2_env_ok env \<longleftrightarrow>
     sp_n (he_params env) \<le> SLH_MAX_N \<and> md_total (he_md env) \<and>
     (\<exists>md hmac. he_md_big env = Some md \<and> he_key_md_big env = Some md \<and> md_total md \<and> 0 < md_size md \<and>
        he_hmac env = Some hmac \<and> mac_total hmac md \<and>
        (he_hmac_digest_used env \<longrightarrow> he_hmac_md env = Some md))"

lemma md_totalD: "md_total md \<Longrightarrow> \<exists>s. md_digest md x = Some s"
  by (auto simp: md_total_def)

lemma xof_ok:
  assumes "md_total md"
  shows "\<exists>y. xof_digest_3 md a la b lb c lc n = Some y \<and> length y = n"
    and "\<exists>y. xof_digest_4 md a la b lb c lc d ld n = Some y \<and> length y = n"
  using md_totalD [OF assms, of "take la a @ take lb b @ take lc c"]
    md_totalD [OF assms, of "take la a @ take lb b @ take lc c @ take ld d"]
  by (auto simp: xof_digest_3_def xof_digest_4_def)

lemma digest_4_Some: "md_total md \<Longrightarrow> \<exists>y. digest_4 md a la b lb c lc d ld = Some y"
  by (auto simp: digest_4_def md_total_def)

lemma do_hash_ok:
  "md_total md \<Longrightarrow> n \<le> MAX_DIGEST_SIZE \<Longrightarrow> \<exists>y. do_hash md n pk adrs m l b = Some y \<and> length y = n"
  using digest_4_Some [of md pk n "replicate 128 0" "size_sub b n" adrs SLH_ADRSC_SIZE m l]
  by (auto simp: do_hash_def)

lemma MGF1_loop_ok:
  assumes "md_total md" and "0 < mdlen"
  shows "length msk \<le> len \<Longrightarrow> \<exists>y. MGF1_loop md mdlen seed len i msk = Some y \<and> length y = len"
  using assms
proof (induction md mdlen seed len i msk rule: MGF1_loop.induct)
  case (1 md mdlen seed len i msk)
  show ?case
  proof (cases "length msk < len")
    case True
    define cnt where "cnt = (let c = of_nat i :: u64 in
      [ucast (drop_bit 24 c AND 255), ucast (drop_bit 16 c AND 255),
       ucast (drop_bit 8 c AND 255), ucast (c AND 255)] :: bytes)"
    obtain s where s: "md_digest md (seed @ cnt) = Some s"
      using md_totalD [OF 1(4)] by blast
    show ?thesis
      using 1 True s by (subst MGF1_loop.simps) (auto simp: Let_def cnt_def)
  next
    case False
    with 1 show ?thesis
      by (subst MGF1_loop.simps) simp
  qed
qed

lemma PKCS1_MGF1_ok:
  "md_total md \<Longrightarrow> 0 < md_size md \<Longrightarrow> \<exists>y. PKCS1_MGF1 len seed l md = Some y \<and> length y = len"
  by (simp add: PKCS1_MGF1_def MGF1_loop_ok)

interpretation shake: slh_hash "ossl_slh_get_hash_fn True" shake_env_ok
proof unfold_locales
  fix env :: hash_env and al :: allocator and sk_prf opt_rand msg :: bytes and l :: nat and pkt :: wpacket
  assume ok: "shake_env_ok env"
  let ?n = "sp_n (he_params env)"
  obtain y where "xof_digest_3 (he_md env) sk_prf ?n opt_rand ?n msg l ?n = Some y" "length y = ?n"
    using xof_ok(1) ok unfolding shake_env_ok_def by blast
  then show "\<exists>y md used. ?n \<le> length y \<and>
      PRF_MSG (ossl_slh_get_hash_fn True) al env sk_prf opt_rand msg l pkt =
        (env_mac env md used, WPACKET_memcpy al pkt y ?n) \<and> shake_env_ok (env_mac env md used)"
    using ok
    by (intro exI [of _ y] exI [of _ "he_hmac_md env"] exI [of _ "he_hmac_digest_used env"])
      (simp add: ossl_slh_get_hash_fn_def slh_prf_msg_shake_def shake_env_ok_def)
qed (simp_all add: ossl_slh_get_hash_fn_def shake_env_ok_def slh_f_shake_def slh_h_shake_def
      slh_t_shake_def slh_prf_shake_def slh_hmsg_shake_def xof_ok fun_eq_iff Let_def,
     simp_all add: xof_digest_3_def xof_digest_4_def)

lemma hmsg_sha2_ok:
  assumes "sha2_env_ok env"
  shows "\<exists>y. slh_hmsg_sha2 env r pk root msg l = Some y \<and> length y = sp_m (he_params env)"
proof -
  obtain md where md: "he_md_big env = Some md" "he_key_md_big env = Some md" "md_total md" "0 < md_size md"
    using assms by (auto simp: sha2_env_ok_def)
  let ?n = "sp_n (he_params env)"
  obtain dig where "digest_4 md r ?n pk ?n root ?n msg l = Some dig"
    using digest_4_Some [OF md(3)] by blast
  then show ?thesis
    using md PKCS1_MGF1_ok [OF md(3,4)] by (simp add: slh_hmsg_sha2_def Let_def)
qed

interpretation sha2: slh_hash "ossl_slh_get_hash_fn False" sha2_env_ok
proof unfold_locales
  fix env :: hash_env and al :: allocator and sk_prf opt_rand msg :: bytes and l :: nat and pkt :: wpacket
  assume ok: "sha2_env_ok env"
  let ?n = "sp_n (he_params env)"
  obtain md hmac where md: "he_md_big env = Some md" "he_key_md_big env = Some md" "he_hmac env = Some hmac"
    "mac_total hmac md" "he_hmac_digest_used env \<longrightarrow> he_hmac_md env = Some md"
    using ok by (auto simp: sha2_env_ok_def)
  obtain s where s: "hmac md (take ?n sk_prf) (take ?n opt_rand @ take l msg) = Some s"
    using md(4) by (auto simp: mac_total_def)
  have "sha2_env_ok (env_mac env (Some md) True)"
    using ok md by (simp add: sha2_env_ok_def)
  moreover have "?n \<le> 64"
    using ok by (simp add: sha2_env_ok_def SLH_MAX_N_def)
  moreover have "env_mac env (Some md) True = env" if "he_hmac_digest_used env"
    using md(5) that by simp
  ultimately show "\<exists>y md used. ?n \<le> length y \<and>
      PRF_MSG (ossl_slh_get_hash_fn False) al env sk_prf opt_rand msg l pkt =
        (env_mac env md used, WPACKET_memcpy al pkt y ?n) \<and> sha2_env_ok (env_mac env md used)"
    using md s
    by (intro exI [of _ "store_at (replicate 64 0) 0 (map s [0..<nat (md_size md)])"] exI [of _ "Some md"]
        exI [of _ True])
      (auto simp: ossl_slh_get_hash_fn_def slh_prf_msg_sha2_def mac_total_def MAX_DIGEST_SIZE_def Let_def)
next
  fix env :: hash_env and r pk root msg :: bytes and l :: nat
  assume "sha2_env_ok env"
  then show "\<exists>y. H_MSG (ossl_slh_get_hash_fn False) env r pk root msg l = Some y \<and> length y = sp_m (he_params env)"
    using hmsg_sha2_ok by (simp add: ossl_slh_get_hash_fn_def)
next
  fix env :: hash_env and pk adrs x x1 x2 sk :: bytes and l
  assume ok: "sha2_env_ok env"
  have n: "sp_n (he_params env) \<le> MAX_DIGEST_SIZE" and md: "md_total (he_md env)"
    using ok by (simp_all add: sha2_env_ok_def SLH_MAX_N_def MAX_DIGEST_SIZE_def)
  obtain big where big: "he_md_big env = Some big" "md_total big"
    using ok by (auto simp: sha2_env_ok_def)
  show "\<exists>y. hash_F (ossl_slh_get_hash_fn False) env pk adrs x l = Some y \<and> length y = sp_n (he_params env)"
    and "\<exists>y. PRF (ossl_slh_get_hash_fn False) env pk sk adrs = Some y \<and> length y = sp_n (he_params env)"
    and "\<exists>y. hash_H (ossl_slh_get_hash_fn False) env pk adrs x1 x2 = Some y \<and> length y = sp_n (he_params env)"
    and "\<exists>y. hash_T (ossl_slh_get_hash_fn False) env pk adrs x l = Some y \<and> length y = sp_n (he_params env)"
    using do_hash_ok [OF md n] do_hash_ok [OF big(2) n] big(1)
    by (simp_all add: ossl_slh_get_hash_fn_def slh_f_sha2_def slh_prf_sha2_def slh_h_sha2_def slh_t_sha2_def Let_def)
qed (simp_all add: ossl_slh_get_hash_fn_def slh_f_sha2_def slh_h_sha2_def slh_t_sha2_def slh_prf_sha2_def
      slh_hmsg_sha2_def do_hash_def digest_4_def fun_eq_iff Let_def split: option.splits)

end
