(* ===== verification/Slh_Wots.thy ===== *)
theory Slh_Wots
  imports Slh_Hash
begin

text \<open>
  Keys and contexts of SLH-DSA (\<open>slh_dsa_key.h\<close>, \<open>slh_dsa_local.h\<close>) and the one-time signatures
  WOTS+ of \<open>crypto/slh_dsa/slh_wots.c\<close>. A function that fails is \<open>None\<close>; one that succeeds
  returns its outputs together with the address, the packets and the writers it advanced.
\<close>

section \<open>Keys and contexts\<close>

text \<open>
  \<open>pub\<close> points to \<open>priv + 2 n\<close> or is null: it is a flag here. \<open>key_md_shared\<close> says that \<open>md_big\<close> and
  \<open>md\<close> are the same object.
\<close>

record slh_dsa_key =
  key_priv :: bytes
  key_pub :: bool
  key_libctx :: evp_lib
  key_propq :: "string option"
  key_has_priv :: bool
  key_params :: slh_dsa_params
  key_adrs_func :: slh_adrs_func
  key_hash_func :: slh_hash_func
  key_md :: "evp_md option"
  key_md_big :: "evp_md option"
  key_md_shared :: bool
  key_hmac :: "evp_mac option"

definition SLH_DSA_SK_SEED :: "slh_dsa_key \<Rightarrow> bytes" where
  "SLH_DSA_SK_SEED key = key_priv key"

definition SLH_DSA_SK_PRF :: "slh_dsa_key \<Rightarrow> bytes" where
  "SLH_DSA_SK_PRF key = drop (sp_n (key_params key)) (key_priv key)"

definition SLH_DSA_PK_SEED :: "slh_dsa_key \<Rightarrow> bytes" where
  "SLH_DSA_PK_SEED key = drop (sp_n (key_params key) * 2) (key_priv key)"

definition SLH_DSA_PK_ROOT :: "slh_dsa_key \<Rightarrow> bytes" where
  "SLH_DSA_PK_ROOT key = drop (sp_n (key_params key) * 3) (key_priv key)"

record slh_dsa_hash_ctx =
  sc_key :: slh_dsa_key
  sc_env :: hash_env

abbreviation ctx_n :: "slh_dsa_hash_ctx \<Rightarrow> nat" where
  "ctx_n ctx \<equiv> sp_n (key_params (sc_key ctx))"

section \<open>WOTS+\<close>

definition SLH_WOTS_LEN :: "nat \<Rightarrow> nat" where
  "SLH_WOTS_LEN n = 2 * n + 3"

definition SLH_WOTS_LEN_MAX :: nat where
  "SLH_WOTS_LEN_MAX = SLH_WOTS_LEN SLH_MAX_N"

definition NIBBLE_MASK :: byte where
  "NIBBLE_MASK = 15"

text \<open>The nibbles written to \<open>out\<close>.\<close>

definition slh_bytes_to_nibbles :: "bytes \<Rightarrow> nat \<Rightarrow> bytes" where
  "slh_bytes_to_nibbles inp in_len =
     concat (map (\<lambda>b. [drop_bit 4 b, b AND NIBBLE_MASK]) (take in_len inp))"

text \<open>The three nibbles of the checksum, computed in \<open>uint16_t\<close>.\<close>

definition compute_checksum_nibbles :: "bytes \<Rightarrow> nat \<Rightarrow> bytes" where
  "compute_checksum_nibbles inp in_len =
     (let csum0 = foldl (\<lambda>c b. c + ucast b) (0 :: u16) (take in_len inp);
          csum = of_nat (15 * in_len) - csum0
      in [ucast (drop_bit (2 * 4) csum) AND NIBBLE_MASK, ucast (drop_bit 4 csum) AND NIBBLE_MASK,
          ucast csum AND NIBBLE_MASK])"

definition msg_and_csum_nibbles :: "bytes \<Rightarrow> nat \<Rightarrow> bytes" where
  "msg_and_csum_nibbles msg n =
     (let nibbles = slh_bytes_to_nibbles msg n
      in nibbles @ compute_checksum_nibbles nibbles (2 * n))"

text \<open>
  The loop of \<open>slh_wots_chain\<close> with the \<open>n\<close> bytes at \<open>tmp\<close> as an argument; \<open>steps\<close> is the number
  of iterations left.
\<close>

fun wots_chain_loop ::
    "slh_dsa_hash_ctx \<Rightarrow> bytes \<Rightarrow> bytes \<Rightarrow> nat \<Rightarrow> nat \<Rightarrow> bytes \<Rightarrow> (bytes \<times> bytes) option" where
  "wots_chain_loop ctx pk_seed adrs j 0 tmp = Some (adrs, tmp)"
| "wots_chain_loop ctx pk_seed adrs j (Suc steps) tmp =
     (let adrs1 = set_hash_address (key_adrs_func (sc_key ctx)) adrs (of_nat j)
      in (case hash_F (key_hash_func (sc_key ctx)) (sc_env ctx) pk_seed adrs1 tmp (ctx_n ctx) of
            None \<Rightarrow> None
          | Some tmp' \<Rightarrow> wots_chain_loop ctx pk_seed adrs1 (Suc j) steps tmp'))"

definition slh_wots_chain ::
    "allocator \<Rightarrow> slh_dsa_hash_ctx \<Rightarrow> bytes \<Rightarrow> byte \<Rightarrow> byte \<Rightarrow> bytes \<Rightarrow> bytes \<Rightarrow> wpacket
       \<Rightarrow> (bytes \<times> wpacket) option" where
  "slh_wots_chain al ctx inp start_index steps pk_seed adrs wpkt =
     (let n = ctx_n ctx
      in if steps = 0 then map_option (Pair adrs) (WPACKET_memcpy al wpkt inp n)
         else
           (case WPACKET_allocate_bytes al wpkt n of
              None \<Rightarrow> None
            | Some (tmp, wpkt1) \<Rightarrow>
                let j = unat start_index;
                    adrs1 = set_hash_address (key_adrs_func (sc_key ctx)) adrs (of_nat j)
                in (case hash_F (key_hash_func (sc_key ctx)) (sc_env ctx) pk_seed adrs1 inp n of
                      None \<Rightarrow> None
                    | Some y \<Rightarrow>
                        (case wots_chain_loop ctx pk_seed adrs1 (Suc j) (unat steps - 1) y of
                           None \<Rightarrow> None
                         | Some (adrs2, z) \<Rightarrow> Some (adrs2, wp_store wpkt1 tmp z)))))"

text \<open>
  The loop that \<open>ossl_slh_wots_pk_gen\<close> and \<open>ossl_slh_wots_sign\<close> share: chain \<open>i\<close> runs for
  \<open>steps i\<close> steps from its secret value.
\<close>

fun wots_sk_chains ::
    "allocator \<Rightarrow> slh_dsa_hash_ctx \<Rightarrow> bytes \<Rightarrow> bytes \<Rightarrow> (nat \<Rightarrow> byte) \<Rightarrow> nat \<Rightarrow> nat \<Rightarrow> bytes \<Rightarrow> bytes
       \<Rightarrow> wpacket \<Rightarrow> (bytes \<times> wpacket) option" where
  "wots_sk_chains al ctx sk_seed pk_seed steps i 0 sk_adrs adrs wpkt = Some (adrs, wpkt)"
| "wots_sk_chains al ctx sk_seed pk_seed steps i (Suc todo) sk_adrs adrs wpkt =
     (let af = key_adrs_func (sc_key ctx);
          sk_adrs1 = set_chain_address af sk_adrs (of_nat i)
      in (case PRF (key_hash_func (sc_key ctx)) (sc_env ctx) pk_seed sk_seed sk_adrs1 of
            None \<Rightarrow> None
          | Some sk \<Rightarrow>
              (case slh_wots_chain al ctx sk 0 (steps i) pk_seed
                      (set_chain_address af adrs (of_nat i)) wpkt of
                 None \<Rightarrow> None
               | Some (adrs1, wpkt1) \<Rightarrow>
                   wots_sk_chains al ctx sk_seed pk_seed steps (Suc i) todo sk_adrs1 adrs1 wpkt1)))"

text \<open>The address of the secret values, and the address under which a public key is compressed.\<close>

definition wots_keypair_adrs :: "slh_dsa_hash_ctx \<Rightarrow> u32 \<Rightarrow> bytes \<Rightarrow> bytes" where
  "wots_keypair_adrs ctx type adrs =
     (let af = key_adrs_func (sc_key ctx);
          a1 = adrs_copy af SLH_ADRS_DECLARE adrs;
          a2 = set_type_and_clear af a1 type
      in copy_keypair_address af a2 adrs)"

definition ossl_slh_wots_pk_gen ::
    "allocator \<Rightarrow> slh_dsa_hash_ctx \<Rightarrow> bytes \<Rightarrow> bytes \<Rightarrow> bytes \<Rightarrow> (bytes \<times> bytes) option" where
  "ossl_slh_wots_pk_gen al ctx sk_seed pk_seed adrs =
     (let n = ctx_n ctx; len = SLH_WOTS_LEN n;
          tmp = replicate (SLH_WOTS_LEN_MAX * SLH_MAX_N) 0
      in (case WPACKET_init_static_len al tmp (SLH_WOTS_LEN_MAX * SLH_MAX_N) 0 of
            None \<Rightarrow> None
          | Some tmp_wpkt \<Rightarrow>
              (case wots_sk_chains al ctx sk_seed pk_seed (\<lambda>_. NIBBLE_MASK) 0 len
                      (wots_keypair_adrs ctx SLH_ADRS_TYPE_WOTS_PRF adrs) adrs tmp_wpkt of
                 None \<Rightarrow> None
               | Some (adrs1, wpkt1) \<Rightarrow>
                   map_option (\<lambda>pk. (pk, adrs1))
                     (hash_T (key_hash_func (sc_key ctx)) (sc_env ctx) pk_seed
                        (wots_keypair_adrs ctx SLH_ADRS_TYPE_WOTS_PK adrs1)
                        (the (GETBUF wpkt1)) (WPACKET_get_total_written wpkt1)))))"

definition ossl_slh_wots_sign ::
    "allocator \<Rightarrow> slh_dsa_hash_ctx \<Rightarrow> bytes \<Rightarrow> bytes \<Rightarrow> bytes \<Rightarrow> bytes \<Rightarrow> wpacket
       \<Rightarrow> (bytes \<times> wpacket) option" where
  "ossl_slh_wots_sign al ctx msg sk_seed pk_seed adrs sig_wpkt =
     (let n = ctx_n ctx; len = SLH_WOTS_LEN n;
          nibbles = msg_and_csum_nibbles msg n
      in wots_sk_chains al ctx sk_seed pk_seed (\<lambda>i. nibbles ! i) 0 len
           (wots_keypair_adrs ctx SLH_ADRS_TYPE_WOTS_PRF adrs) adrs sig_wpkt)"

text \<open>The loop of \<open>ossl_slh_wots_pk_from_sig\<close>.\<close>

fun wots_sig_chains ::
    "allocator \<Rightarrow> slh_dsa_hash_ctx \<Rightarrow> bytes \<Rightarrow> bytes \<Rightarrow> nat \<Rightarrow> nat \<Rightarrow> packet \<Rightarrow> bytes \<Rightarrow> wpacket
       \<Rightarrow> (packet \<times> bytes \<times> wpacket) option" where
  "wots_sig_chains al ctx nibbles pk_seed i 0 sig_rpkt adrs wpkt = Some (sig_rpkt, adrs, wpkt)"
| "wots_sig_chains al ctx nibbles pk_seed i (Suc todo) sig_rpkt adrs wpkt =
     (let adrs1 = set_chain_address (key_adrs_func (sc_key ctx)) adrs (of_nat i)
      in (case PACKET_get_bytes sig_rpkt (ctx_n ctx) of
            None \<Rightarrow> None
          | Some (sig_i, sig_rpkt1) \<Rightarrow>
              (case slh_wots_chain al ctx sig_i (nibbles ! i) (NIBBLE_MASK - nibbles ! i) pk_seed adrs1 wpkt of
                 None \<Rightarrow> None
               | Some (adrs2, wpkt1) \<Rightarrow>
                   wots_sig_chains al ctx nibbles pk_seed (Suc i) todo sig_rpkt1 adrs2 wpkt1)))"

definition ossl_slh_wots_pk_from_sig ::
    "allocator \<Rightarrow> slh_dsa_hash_ctx \<Rightarrow> packet \<Rightarrow> bytes \<Rightarrow> bytes \<Rightarrow> bytes
       \<Rightarrow> (bytes \<times> packet \<times> bytes) option" where
  "ossl_slh_wots_pk_from_sig al ctx sig_rpkt msg pk_seed adrs =
     (let n = ctx_n ctx; len = SLH_WOTS_LEN n;
          tmp = replicate (SLH_WOTS_LEN_MAX * SLH_MAX_N) 0
      in (case WPACKET_init_static_len al tmp (SLH_WOTS_LEN_MAX * SLH_MAX_N) 0 of
            None \<Rightarrow> None
          | Some tmp_pkt \<Rightarrow>
              let nibbles = msg_and_csum_nibbles msg n
              in (case wots_sig_chains al ctx nibbles pk_seed 0 len sig_rpkt adrs tmp_pkt of
                    None \<Rightarrow> None
                  | Some (sig_rpkt1, adrs1, tmp_pkt1) \<Rightarrow>
                      (case hash_T (key_hash_func (sc_key ctx)) (sc_env ctx) pk_seed
                              (wots_keypair_adrs ctx SLH_ADRS_TYPE_WOTS_PK adrs1)
                              (the (GETBUF tmp_pkt1)) (WPACKET_get_total_written tmp_pkt1) of
                         None \<Rightarrow> None
                       | Some pk \<Rightarrow>
                           if WPACKET_finish al tmp_pkt1 = None then None
                           else Some (pk, sig_rpkt1, adrs1)))))"

section \<open>What the chains compute\<close>

text \<open>
  The scheme over any pair of method tables that keep their contracts. \<open>ctx_ok\<close> says that a context
  uses these tables and an environment that the hash functions accept.
\<close>

locale slh_scheme = slh_adrs af enc + slh_hash hf env_ok
  for af :: slh_adrs_func and enc :: "adr \<Rightarrow> bytes" and hf :: slh_hash_func and env_ok :: "hash_env \<Rightarrow> bool"
begin

definition ctx_ok :: "slh_dsa_hash_ctx \<Rightarrow> bool" where
  "ctx_ok ctx \<longleftrightarrow>
     key_adrs_func (sc_key ctx) = af \<and> key_hash_func (sc_key ctx) = hf \<and> env_ok (sc_env ctx) \<and>
     he_params (sc_env ctx) = key_params (sc_key ctx) \<and> slh_params_ok (key_params (sc_key ctx))"

definition sF :: "slh_dsa_hash_ctx \<Rightarrow> bytes \<Rightarrow> adr \<Rightarrow> bytes \<Rightarrow> bytes" where
  "sF ctx pk a x = the (hash_F hf (sc_env ctx) pk (enc a) x (ctx_n ctx))"

definition sH :: "slh_dsa_hash_ctx \<Rightarrow> bytes \<Rightarrow> adr \<Rightarrow> bytes \<Rightarrow> bytes \<Rightarrow> bytes" where
  "sH ctx pk a x y = the (hash_H hf (sc_env ctx) pk (enc a) x y)"

definition sT :: "slh_dsa_hash_ctx \<Rightarrow> bytes \<Rightarrow> adr \<Rightarrow> bytes \<Rightarrow> bytes" where
  "sT ctx pk a x = the (hash_T hf (sc_env ctx) pk (enc a) x (length x))"

definition sPRF :: "slh_dsa_hash_ctx \<Rightarrow> bytes \<Rightarrow> bytes \<Rightarrow> adr \<Rightarrow> bytes" where
  "sPRF ctx sk pk a = the (PRF hf (sc_env ctx) pk sk (enc a))"

lemma ctx_okD:
  assumes "ctx_ok ctx"
  shows "key_adrs_func (sc_key ctx) = af" and "key_hash_func (sc_key ctx) = hf"
    and "hash_F hf (sc_env ctx) pk (enc a) x (ctx_n ctx) = Some (sF ctx pk a x)"
    and "hash_H hf (sc_env ctx) pk (enc a) x y = Some (sH ctx pk a x y)"
    and "hash_T hf (sc_env ctx) pk (enc a) x (length x) = Some (sT ctx pk a x)"
    and "PRF hf (sc_env ctx) pk sk (enc a) = Some (sPRF ctx sk pk a)"
    and "length (sF ctx pk a x) = ctx_n ctx" and "length (sH ctx pk a x y) = ctx_n ctx"
    and "length (sT ctx pk a x) = ctx_n ctx" and "length (sPRF ctx sk pk a) = ctx_n ctx"
    and "slh_params_ok (key_params (sc_key ctx))"
  using F_ok [of "sc_env ctx" pk "enc a" x "ctx_n ctx"] H_ok [of "sc_env ctx" pk "enc a" x y]
    T_ok [of "sc_env ctx" pk "enc a" x "length x"] PRF_ok [of "sc_env ctx" pk sk "enc a"] assms
  by (auto simp: ctx_ok_def sF_def sH_def sT_def sPRF_def)

lemma ctx_n_bounds: "ctx_ok ctx \<Longrightarrow> 0 < ctx_n ctx \<and> ctx_n ctx \<le> 32"
  unfolding ctx_ok_def by (simp add: slh_params_n)

text \<open>\<open>s\<close> steps of a chain from index \<open>i\<close> on.\<close>

primrec chain :: "slh_dsa_hash_ctx \<Rightarrow> bytes \<Rightarrow> adr \<Rightarrow> bytes \<Rightarrow> nat \<Rightarrow> nat \<Rightarrow> bytes" where
  "chain ctx pk a x i 0 = x"
| "chain ctx pk a x i (Suc s) = sF ctx pk (a\<lparr>adr_hash := of_nat (i + s)\<rparr>) (chain ctx pk a x i s)"

lemma chain_add: "chain ctx pk a x i (s + t) = chain ctx pk a (chain ctx pk a x i s) (i + s) t"
  by (induction t) (simp_all add: add.assoc)

lemma chain_Suc_first:
  "chain ctx pk a x i (Suc s) = chain ctx pk a (sF ctx pk (a\<lparr>adr_hash := of_nat i\<rparr>) x) (Suc i) s"
  using chain_add [of ctx pk a x i 1 s] by simp

lemma chain_hash [simp]: "chain ctx pk (a\<lparr>adr_hash := h\<rparr>) x i s = chain ctx pk a x i s"
  by (induction s) simp_all

lemma length_chain: "ctx_ok ctx \<Longrightarrow> length x = ctx_n ctx \<Longrightarrow> length (chain ctx pk a x i s) = ctx_n ctx"
  by (induction s) (simp_all add: ctx_okD)

lemma wots_chain_loop_eq:
  assumes ctx: "ctx_ok ctx"
  shows "\<exists>h. wots_chain_loop ctx pk (enc a) j s x = Some (enc (a\<lparr>adr_hash := h\<rparr>), chain ctx pk a x j s)"
proof (induction s arbitrary: a j x)
  case 0
  show ?case
    by (rule exI [of _ "adr_hash a"]) simp
next
  case (Suc s)
  show ?case
    using Suc.IH [of "a\<lparr>adr_hash := of_nat j\<rparr>" "Suc j" "sF ctx pk (a\<lparr>adr_hash := of_nat j\<rparr>) x"]
    by (simp add: ctx_okD [OF ctx] enc_simps chain_Suc_first del: chain.simps)
qed

lemma wots_chain_eq:
  assumes ctx: "ctx_ok ctx" and w: "wp_static p" "ctx_n ctx \<le> wp_room p" and x: "length x = ctx_n ctx"
  shows "\<exists>h. slh_wots_chain al ctx x start steps pk (enc a) p =
     Some (enc (a\<lparr>adr_hash := h\<rparr>), wp_append p (chain ctx pk a x (unat start) (unat steps)))"
proof (cases "steps = 0")
  case True
  then show ?thesis
    using w x by (intro exI [of _ "adr_hash a"]) (simp add: slh_wots_chain_def memcpy_static)
next
  case False
  then obtain s where s: "unat steps = Suc s"
    using not0_implies_Suc unat_eq_0 by blast
  let ?y = "sF ctx pk (a\<lparr>adr_hash := of_nat (unat start)\<rparr>) x"
  obtain h where h: "wots_chain_loop ctx pk (enc (a\<lparr>adr_hash := of_nat (unat start)\<rparr>)) (Suc (unat start)) s ?y =
    Some (enc (a\<lparr>adr_hash := h\<rparr>), chain ctx pk a x (unat start) (Suc s))"
    using wots_chain_loop_eq [OF ctx, of pk "a\<lparr>adr_hash := of_nat (unat start)\<rparr>" "Suc (unat start)" s ?y]
    by (auto simp: chain_Suc_first simp del: chain.simps)
  have "length (chain ctx pk a x (unat start) (Suc s)) = ctx_n ctx"
    using length_chain [OF ctx x] .
  note st = store_allocated_static [OF w(1) this]
  have n0: "0 < ctx_n ctx"
    using ctx_n_bounds [OF ctx] by simp
  show ?thesis
    using False h st n0 w
    by (intro exI [of _ h]) (simp add: slh_wots_chain_def s allocate_static ctx_okD [OF ctx] enc_simps del: chain.simps of_nat_unat)
qed

text \<open>The value of chain \<open>i\<close> after \<open>s\<close> steps, and the address of its secret value.\<close>

definition prf_adr :: "adr \<Rightarrow> adr" where
  "prf_adr a = (adr_type_clear a SLH_ADRS_TYPE_WOTS_PRF)\<lparr>adr_keypair := adr_keypair a\<rparr>"

definition pk_adr :: "adr \<Rightarrow> adr" where
  "pk_adr a = (adr_type_clear a SLH_ADRS_TYPE_WOTS_PK)\<lparr>adr_keypair := adr_keypair a\<rparr>"

definition chain_val :: "slh_dsa_hash_ctx \<Rightarrow> bytes \<Rightarrow> bytes \<Rightarrow> adr \<Rightarrow> nat \<Rightarrow> nat \<Rightarrow> bytes" where
  "chain_val ctx sk pk a i s =
     chain ctx pk (a\<lparr>adr_chain := of_nat i\<rparr>) (sPRF ctx sk pk ((prf_adr a)\<lparr>adr_chain := of_nat i\<rparr>)) 0 s"

definition wots_pk :: "slh_dsa_hash_ctx \<Rightarrow> bytes \<Rightarrow> bytes \<Rightarrow> adr \<Rightarrow> bytes" where
  "wots_pk ctx sk pk a =
     sT ctx pk (pk_adr a) (concat (map (\<lambda>i. chain_val ctx sk pk a i 15) [0..<SLH_WOTS_LEN (ctx_n ctx)]))"

definition wots_sig :: "slh_dsa_hash_ctx \<Rightarrow> bytes \<Rightarrow> bytes \<Rightarrow> adr \<Rightarrow> bytes \<Rightarrow> bytes list" where
  "wots_sig ctx sk pk a msg =
     map (\<lambda>i. chain_val ctx sk pk a i (unat (msg_and_csum_nibbles msg (ctx_n ctx) ! i)))
       [0..<SLH_WOTS_LEN (ctx_n ctx)]"

lemma length_chain_val: "ctx_ok ctx \<Longrightarrow> length (chain_val ctx sk pk a i s) = ctx_n ctx"
  by (simp add: chain_val_def length_chain ctx_okD)

lemma wots_keypair_adrs_eq:
  "ctx_ok ctx \<Longrightarrow> wots_keypair_adrs ctx y (enc a) = enc ((adr_type_clear a y)\<lparr>adr_keypair := adr_keypair a\<rparr>)"
  by (simp add: wots_keypair_adrs_def ctx_okD enc_simps Let_def)

lemma wots_sk_chains_eq:
  assumes ctx: "ctx_ok ctx" and "wp_static p" and "todo * ctx_n ctx \<le> wp_room p"
  shows "\<exists>c h. wots_sk_chains al ctx sk pk steps i todo (enc (b\<lparr>adr_chain := cb\<rparr>)) (enc (a\<lparr>adr_chain := ca, adr_hash := ha\<rparr>)) p =
     Some (enc (a\<lparr>adr_chain := c, adr_hash := h\<rparr>),
       wp_append p (concat (map (\<lambda>k. chain ctx pk (a\<lparr>adr_chain := of_nat k\<rparr>)
         (sPRF ctx sk pk (b\<lparr>adr_chain := of_nat k\<rparr>)) 0 (unat (steps k))) [i..<i + todo])))"
  using assms(2,3)
proof (induction todo arbitrary: i p cb ca ha)
  case 0
  then show ?case by (auto simp: wp_append_Nil)
next
  case (Suc todo)
  let ?a = "a\<lparr>adr_chain := of_nat i, adr_hash := ha\<rparr>"
  let ?sk = "sPRF ctx sk pk (b\<lparr>adr_chain := of_nat i\<rparr>)"
  let ?y = "chain ctx pk (a\<lparr>adr_chain := of_nat i\<rparr>) ?sk 0 (unat (steps i))"
  have n: "ctx_n ctx \<le> wp_room p"
    using Suc.prems by simp
  have y: "length ?y = ctx_n ctx"
    by (simp add: length_chain [OF ctx] ctx_okD [OF ctx])
  obtain h where h: "slh_wots_chain al ctx ?sk 0 (steps i) pk (enc ?a) p =
      Some (enc (a\<lparr>adr_chain := of_nat i, adr_hash := h\<rparr>), wp_append p ?y)"
    using wots_chain_eq [OF ctx Suc.prems(1) n, of ?sk al 0 "steps i" pk ?a] ctx_okD(10) [OF ctx] by auto
  have p': "wp_static (wp_append p ?y)" "todo * ctx_n ctx \<le> wp_room (wp_append p ?y)"
    using Suc.prems wp_append_static [OF Suc.prems(1)] y n by simp_all
  from Suc.IH [OF p', where i = "Suc i" and cb = "of_nat i" and ca = "of_nat i" and ha = h] obtain c h' where
    "wots_sk_chains al ctx sk pk steps (Suc i) todo (enc (b\<lparr>adr_chain := of_nat i\<rparr>))
       (enc (a\<lparr>adr_chain := of_nat i, adr_hash := h\<rparr>)) (wp_append p ?y) =
     Some (enc (a\<lparr>adr_chain := c, adr_hash := h'\<rparr>),
       wp_append (wp_append p ?y) (concat (map (\<lambda>k. chain ctx pk (a\<lparr>adr_chain := of_nat k\<rparr>)
         (sPRF ctx sk pk (b\<lparr>adr_chain := of_nat k\<rparr>)) 0 (unat (steps k))) [Suc i..<Suc i + todo])))"
    by blast
  with h show ?case
    by - (rule exI [of _ c], rule exI [of _ h'], simp add: ctx_okD [OF ctx] enc_simps upt_Suc_first del: upt_Suc add_Suc_right)
qed

lemma tmp_writer:
  assumes "al sizeof_wpacket_sub"
  obtains p where "WPACKET_init_static_len al (replicate (SLH_WOTS_LEN_MAX * SLH_MAX_N) 0)
      (SLH_WOTS_LEN_MAX * SLH_MAX_N) 0 = Some p"
    and "wp_static p" and "wp_written p = 0" and "wp_room p = SLH_WOTS_LEN_MAX * SLH_MAX_N"
    and "wp_subs p = [new_sub]"
  using init_static_ok [of al "SLH_WOTS_LEN_MAX * SLH_MAX_N" "replicate (SLH_WOTS_LEN_MAX * SLH_MAX_N) 0"] assms
  by (auto simp: SLH_WOTS_LEN_MAX_def SLH_WOTS_LEN_def SLH_MAX_N_def SIZE_MAX_def)

lemma wots_room: "ctx_ok ctx \<Longrightarrow> SLH_WOTS_LEN (ctx_n ctx) * ctx_n ctx \<le> SLH_WOTS_LEN_MAX * SLH_MAX_N"
  using ctx_n_bounds [of ctx]
  by (intro mult_le_mono) (auto simp: SLH_WOTS_LEN_MAX_def SLH_WOTS_LEN_def SLH_MAX_N_def)

text \<open>What T sees of the writer's buffer.\<close>

lemma hash_T_written:
  assumes ctx: "ctx_ok ctx" and p: "wp_static p" "wp_written p = 0" "length ds \<le> wp_room p"
  shows "hash_T hf (sc_env ctx) pk (enc a) (the (GETBUF (wp_append p ds)))
           (WPACKET_get_total_written (wp_append p ds)) = Some (sT ctx pk a ds)"
proof -
  note st = wp_append_static [OF p(1,3)]
  have "wp_data (wp_append p ds) = ds"
    using wp_append_data [OF p(1,3)] p by (simp add: wp_data_def split: option.splits)
  then have "take (length ds) (the (GETBUF (wp_append p ds))) = ds"
    using st p(2) by (auto simp: wp_data_def wp_static_def GETBUF_def split: option.splits)
  then show ?thesis
    using T_take [of "sc_env ctx" pk "enc a" "length ds" "the (GETBUF (wp_append p ds))"] p(2)
    by (simp add: WPACKET_get_total_written_def ctx_okD(5) [OF ctx])
qed

lemma wots_pk_gen_eq:
  assumes ctx: "ctx_ok ctx" and al: "al sizeof_wpacket_sub"
  shows "\<exists>c h. ossl_slh_wots_pk_gen al ctx sk pk (enc a) =
     Some (wots_pk ctx sk pk a, enc (a\<lparr>adr_chain := c, adr_hash := h\<rparr>))"
proof -
  obtain p where p: "WPACKET_init_static_len al (replicate (SLH_WOTS_LEN_MAX * SLH_MAX_N) 0)
      (SLH_WOTS_LEN_MAX * SLH_MAX_N) 0 = Some p" "wp_static p" "wp_written p = 0"
      "wp_room p = SLH_WOTS_LEN_MAX * SLH_MAX_N"
    using tmp_writer [of al] al by blast
  let ?n = "ctx_n ctx"
  let ?ds = "concat (map (\<lambda>i. chain_val ctx sk pk a i 15) [0..<SLH_WOTS_LEN ?n])"
  have room: "SLH_WOTS_LEN ?n * ?n \<le> wp_room p"
    using wots_room [OF ctx] p(4) by simp
  have len: "length ?ds \<le> wp_room p"
    using room by (subst length_concat_const [of _ ?n]) (auto simp: length_chain_val [OF ctx])
  obtain c h where "wots_sk_chains al ctx sk pk (\<lambda>_. NIBBLE_MASK) 0 (SLH_WOTS_LEN ?n)
      (enc (prf_adr a)) (enc a) p = Some (enc (a\<lparr>adr_chain := c, adr_hash := h\<rparr>), wp_append p ?ds)"
    using wots_sk_chains_eq [OF ctx p(2) room, where i = 0 and b = "prf_adr a" and cb = "adr_chain (prf_adr a)"
        and a = a and ca = "adr_chain a" and ha = "adr_hash a" and al = al and sk = sk and pk = pk and steps = "\<lambda>_. NIBBLE_MASK"]
    by (auto simp: chain_val_def NIBBLE_MASK_def)
  then show ?thesis
    using p hash_T_written [OF ctx p(2,3) len]
    by - (rule exI [of _ c], rule exI [of _ h], simp add: ossl_slh_wots_pk_gen_def ctx_okD(1,2) [OF ctx] wots_keypair_adrs_eq [OF ctx] wots_pk_def
        prf_adr_def pk_adr_def adr_type_clear_def)
qed

lemma wots_sign_eq:
  assumes ctx: "ctx_ok ctx" and p: "wp_static p" "SLH_WOTS_LEN (ctx_n ctx) * ctx_n ctx \<le> wp_room p"
  shows "\<exists>c h. ossl_slh_wots_sign al ctx msg sk pk (enc a) p =
     Some (enc (a\<lparr>adr_chain := c, adr_hash := h\<rparr>), wp_append p (concat (wots_sig ctx sk pk a msg)))"
  using wots_sk_chains_eq [OF ctx p, where i = 0 and b = "prf_adr a" and cb = "adr_chain (prf_adr a)"
      and a = a and ca = "adr_chain a" and ha = "adr_hash a" and al = al and sk = sk and pk = pk
      and steps = "\<lambda>i. msg_and_csum_nibbles msg (ctx_n ctx) ! i"]
  by (simp add: ossl_slh_wots_sign_def ctx_okD(1,2) [OF ctx] wots_keypair_adrs_eq [OF ctx] wots_sig_def
      chain_val_def Let_def flip: prf_adr_def)

text \<open>The candidate public key for a signature given as its chunks.\<close>

definition wots_pk_cand :: "slh_dsa_hash_ctx \<Rightarrow> bytes \<Rightarrow> adr \<Rightarrow> bytes \<Rightarrow> bytes list \<Rightarrow> bytes" where
  "wots_pk_cand ctx pk a msg sigs =
     (let nib = msg_and_csum_nibbles msg (ctx_n ctx)
      in sT ctx pk (pk_adr a) (concat (map (\<lambda>i. chain ctx pk (a\<lparr>adr_chain := of_nat i\<rparr>) (sigs ! i)
           (unat (nib ! i)) (unat (NIBBLE_MASK - nib ! i))) [0..<SLH_WOTS_LEN (ctx_n ctx)])))"

lemma wots_sig_chains_eq:
  assumes ctx: "ctx_ok ctx" and "wp_static p" and "todo * ctx_n ctx \<le> wp_room p"
    and "pkt_ok r" and "pkt_bytes r = concat (drop i sigs) @ rest" and "length sigs = i + todo"
    and sigs: "\<forall>s \<in> set sigs. length s = ctx_n ctx"
  shows "\<exists>c h r'. wots_sig_chains al ctx nib pk i todo r (enc (a\<lparr>adr_chain := ca, adr_hash := ha\<rparr>)) p =
     Some (r', enc (a\<lparr>adr_chain := c, adr_hash := h\<rparr>),
       wp_append p (concat (map (\<lambda>k. chain ctx pk (a\<lparr>adr_chain := of_nat k\<rparr>) (sigs ! k)
         (unat (nib ! k)) (unat (NIBBLE_MASK - nib ! k))) [i..<i + todo]))) \<and>
     pkt_ok r' \<and> pkt_bytes r' = rest"
  using assms(2-6)
proof (induction todo arbitrary: i p ca ha r)
  case 0
  then show ?case by auto
next
  case (Suc todo)
  let ?n = "ctx_n ctx"
  let ?a = "a\<lparr>adr_chain := of_nat i, adr_hash := ha\<rparr>"
  let ?y = "chain ctx pk (a\<lparr>adr_chain := of_nat i\<rparr>) (sigs ! i) (unat (nib ! i)) (unat (NIBBLE_MASK - nib ! i))"
  have i: "i < length sigs" "length (sigs ! i) = ?n"
    using Suc.prems sigs by auto
  have bytes: "pkt_bytes r = sigs ! i @ concat (drop (Suc i) sigs) @ rest"
    using Suc.prems(4) i(1) by (simp add: Cons_nth_drop_Suc [symmetric])
  have get: "PACKET_get_bytes r ?n = Some (sigs ! i, packet_forward r ?n)"
    using get_bytes_spec [OF Suc.prems(3)] bytes i by simp
  have r': "pkt_ok (packet_forward r ?n)" "pkt_bytes (packet_forward r ?n) = concat (drop (Suc i) sigs) @ rest"
    using packet_forward_bytes [OF Suc.prems(3), of ?n] length_pkt_bytes [OF Suc.prems(3)] bytes i
    by simp_all
  have n: "?n \<le> wp_room p"
    using Suc.prems by simp
  have y: "length ?y = ?n"
    by (simp add: length_chain [OF ctx i(2)])
  obtain h where h: "slh_wots_chain al ctx (sigs ! i) (nib ! i) (NIBBLE_MASK - nib ! i) pk (enc ?a) p =
      Some (enc (a\<lparr>adr_chain := of_nat i, adr_hash := h\<rparr>), wp_append p ?y)"
    using wots_chain_eq [OF ctx Suc.prems(1) n i(2), of al "nib ! i" "NIBBLE_MASK - nib ! i" pk ?a] by auto
  have p': "wp_static (wp_append p ?y)" "todo * ?n \<le> wp_room (wp_append p ?y)"
    using Suc.prems wp_append_static [OF Suc.prems(1)] y n by simp_all
  have "length sigs = Suc i + todo"
    using Suc.prems by simp
  from Suc.IH [OF p' r' this, where ca = "of_nat i" and ha = h] obtain c h' r'' where
    "wots_sig_chains al ctx nib pk (Suc i) todo (packet_forward r ?n)
       (enc (a\<lparr>adr_chain := of_nat i, adr_hash := h\<rparr>)) (wp_append p ?y) =
     Some (r'', enc (a\<lparr>adr_chain := c, adr_hash := h'\<rparr>),
       wp_append (wp_append p ?y) (concat (map (\<lambda>k. chain ctx pk (a\<lparr>adr_chain := of_nat k\<rparr>) (sigs ! k)
         (unat (nib ! k)) (unat (NIBBLE_MASK - nib ! k))) [Suc i..<Suc i + todo]))) \<and>
     pkt_ok r'' \<and> pkt_bytes r'' = rest"
    by blast
  with h get show ?case
    by - (rule exI [of _ c], rule exI [of _ h'], rule exI [of _ r''], simp add: ctx_okD [OF ctx] enc_simps upt_Suc_first del: upt_Suc add_Suc_right)
qed

lemma wots_pk_from_sig_eq:
  assumes ctx: "ctx_ok ctx" and al: "al sizeof_wpacket_sub"
    and r: "pkt_ok r" "pkt_bytes r = concat sigs @ rest" "length sigs = SLH_WOTS_LEN (ctx_n ctx)"
    and sigs: "\<forall>s \<in> set sigs. length s = ctx_n ctx"
  shows "\<exists>c h r'. ossl_slh_wots_pk_from_sig al ctx r msg pk (enc a) =
     Some (wots_pk_cand ctx pk a msg sigs, r', enc (a\<lparr>adr_chain := c, adr_hash := h\<rparr>)) \<and>
     pkt_ok r' \<and> pkt_bytes r' = rest"
proof -
  obtain p where p: "WPACKET_init_static_len al (replicate (SLH_WOTS_LEN_MAX * SLH_MAX_N) 0)
      (SLH_WOTS_LEN_MAX * SLH_MAX_N) 0 = Some p" "wp_static p" "wp_written p = 0"
      "wp_room p = SLH_WOTS_LEN_MAX * SLH_MAX_N" "wp_subs p = [new_sub]"
    using tmp_writer [of al] al by blast
  let ?n = "ctx_n ctx"
  let ?nib = "msg_and_csum_nibbles msg ?n"
  let ?ds = "concat (map (\<lambda>i. chain ctx pk (a\<lparr>adr_chain := of_nat i\<rparr>) (sigs ! i)
           (unat (?nib ! i)) (unat (NIBBLE_MASK - ?nib ! i))) [0..<SLH_WOTS_LEN ?n])"
  have room: "SLH_WOTS_LEN ?n * ?n \<le> wp_room p"
    using wots_room [OF ctx] p(4) by simp
  have len: "length ?ds \<le> wp_room p"
    using room r(3) sigs by (subst length_concat_const [of _ ?n]) (auto simp: length_chain [OF ctx])
  obtain c h r' where "wots_sig_chains al ctx ?nib pk 0 (SLH_WOTS_LEN ?n) r (enc a) p =
      Some (r', enc (a\<lparr>adr_chain := c, adr_hash := h\<rparr>), wp_append p ?ds)" "pkt_ok r'" "pkt_bytes r' = rest"
    using wots_sig_chains_eq [OF ctx p(2) room r(1), where i = 0 and sigs = sigs and rest = rest
        and a = a and ca = "adr_chain a" and ha = "adr_hash a" and al = al and pk = pk and nib = ?nib] r sigs
    by auto
  moreover have "WPACKET_finish al (wp_append p ?ds) \<noteq> None"
    using finish_static [OF wp_append_static [OF p(2) len], of new_sub] p(5)
    by (simp add: wp_append_def new_sub_def)
  ultimately show ?thesis
    using p hash_T_written [OF ctx p(2,3) len]
    by - (rule exI [of _ c], rule exI [of _ h], rule exI [of _ r'], simp add: ossl_slh_wots_pk_from_sig_def ctx_okD(1,2) [OF ctx] wots_keypair_adrs_eq [OF ctx]
        wots_pk_cand_def prf_adr_def pk_adr_def adr_type_clear_def Let_def)
qed

end

section \<open>Nibbles and their checksum\<close>

lemma nibble_bounds: "unat (drop_bit 4 (b :: byte)) < 16" "unat (b AND NIBBLE_MASK) < 16"
proof -
  show "unat (drop_bit 4 b) < 16"
    using unat_byte_less [of b] unfolding unat_drop_bit_eq by (simp add: drop_bit_eq_div)
  have "b AND NIBBLE_MASK = take_bit 4 b"
    by (simp add: NIBBLE_MASK_def take_bit_eq_mask mask_eq_exp_minus_1)
  then show "unat (b AND NIBBLE_MASK) < 16"
    using take_bit_nat_less_exp [of 4 "unat b"] by (simp add: unsigned_take_bit_eq)
qed

lemma length_bytes_to_nibbles: "n \<le> length msg \<Longrightarrow> length (slh_bytes_to_nibbles msg n) = 2 * n"
  unfolding slh_bytes_to_nibbles_def by (subst length_concat_const [of _ 2]) auto

lemma length_nibbles: "n \<le> length msg \<Longrightarrow> length (msg_and_csum_nibbles msg n) = SLH_WOTS_LEN n"
  by (simp add: msg_and_csum_nibbles_def Let_def length_bytes_to_nibbles compute_checksum_nibbles_def
      SLH_WOTS_LEN_def)

lemma nibbles_bound: "x \<in> set (msg_and_csum_nibbles msg n) \<Longrightarrow> unat x < 16"
  using nibble_bounds
  by (auto simp: msg_and_csum_nibbles_def slh_bytes_to_nibbles_def compute_checksum_nibbles_def Let_def)

text \<open>The checksum as a number: it never leaves twelve bits.\<close>

definition csum_value :: "bytes \<Rightarrow> nat" where
  "csum_value nib = (\<Sum>x\<leftarrow>nib. 15 - unat x)"

definition csum16 :: "bytes \<Rightarrow> nat \<Rightarrow> u16" where
  "csum16 inp in_len = of_nat (15 * in_len) - foldl (\<lambda>c b. c + ucast b) (0 :: u16) (take in_len inp)"

lemma foldl_ucast_sum:
  "foldl (\<lambda>c b. c + ucast b) c xs = (c + of_nat (\<Sum>x\<leftarrow>xs. unat x) :: u16)" for xs :: bytes
proof (induction xs arbitrary: c)
  case (Cons x xs)
  have "(ucast x :: u16) = of_nat (unat x)"
    by simp
  with Cons show ?case
    by (simp add: add.assoc)
qed simp

lemma csum_value_complement:
  "\<forall>x \<in> set xs. unat x < 16 \<Longrightarrow> csum_value xs + (\<Sum>x\<leftarrow>xs. unat x) = 15 * length xs"
  by (induction xs) (auto simp: csum_value_def)

lemma csum16_value:
  assumes "\<forall>x \<in> set nib. unat x < 16" and "length nib \<le> 64"
  shows "unat (csum16 nib (length nib)) = csum_value nib" and "csum_value nib \<le> 960"
proof -
  note c = csum_value_complement [OF assms(1)]
  show le: "csum_value nib \<le> 960"
    using c assms(2) by simp
  have "csum16 nib (length nib) = of_nat (15 * length nib) - of_nat (\<Sum>x\<leftarrow>nib. unat x)"
    by (simp add: csum16_def foldl_ucast_sum)
  also have "\<dots> = of_nat (csum_value nib)"
    by (simp flip: c)
  finally show "unat (csum16 nib (length nib)) = csum_value nib"
    using le by (simp add: unat_of_nat)
qed

lemma csum_digits:
  assumes "unat (c :: u16) < 4096"
  shows "unat (ucast (drop_bit (2 * 4) c) AND NIBBLE_MASK) * 256 + unat (ucast (drop_bit 4 c) AND NIBBLE_MASK) * 16
           + unat (ucast c AND NIBBLE_MASK) = unat c"
proof -
  have m: "unat ((ucast w :: byte) AND NIBBLE_MASK) = unat w mod 16" for w :: u16
  proof -
    have "(ucast w :: byte) AND NIBBLE_MASK = take_bit 4 (ucast w)"
      by (simp add: NIBBLE_MASK_def take_bit_eq_mask mask_eq_exp_minus_1)
    then have "unat ((ucast w :: byte) AND NIBBLE_MASK) = take_bit 4 (take_bit 8 (unat w))"
      by (simp add: unsigned_take_bit_eq unsigned_ucast_eq)
    then show ?thesis
      by (simp add: take_bit_eq_mod mod_mod_cancel)
  qed
  have d: "unat (drop_bit (2 * 4) c) = unat c div 256" "unat (drop_bit 4 c) = unat c div 16"
    unfolding unat_drop_bit_eq by (simp_all add: drop_bit_eq_div)
  define q r where "q = unat c div 256" and "r = unat c div 16 mod 16"
  have "unat c div 16 = 16 * q + r" and "q < 16"
    using assms mult_div_mod_eq [of 16 "unat c div 16"] by (simp_all add: q_def r_def flip: div_mult2_eq)
  then have "unat c = 16 * (16 * q + r) + unat c mod 16"
    using mult_div_mod_eq [of 16 "unat c"] by simp
  then show ?thesis
    unfolding m d using \<open>q < 16\<close> by (simp flip: q_def r_def)
qed

lemma bytes_to_nibbles_inject:
  assumes "slh_bytes_to_nibbles m n = slh_bytes_to_nibbles m' n" and "length m = n" and "length m' = n"
  shows "m = m'"
proof -
  have split: "drop_bit 4 b = drop_bit 4 c \<Longrightarrow> b AND NIBBLE_MASK = c AND NIBBLE_MASK \<Longrightarrow> b = c" for b c :: byte
  proof -
    assume d: "drop_bit 4 b = drop_bit 4 c" and m: "b AND NIBBLE_MASK = c AND NIBBLE_MASK"
    have "take_bit 4 b = take_bit 4 c"
      using m by (simp add: NIBBLE_MASK_def take_bit_eq_mask mask_eq_exp_minus_1)
    with d show "b = c"
      by (metis bits_ident)
  qed
  have "concat (map (\<lambda>b. [drop_bit 4 b, b AND NIBBLE_MASK]) m) = concat (map (\<lambda>b. [drop_bit 4 b, b AND NIBBLE_MASK]) m')"
    using assms by (simp add: slh_bytes_to_nibbles_def)
  moreover have "length m = length m'"
    using assms by simp
  ultimately show ?thesis
  proof (induction m m' rule: list_induct2')
    case (4 b m c m')
    then have "drop_bit 4 b = drop_bit 4 c" "b AND NIBBLE_MASK = c AND NIBBLE_MASK" "m = m'"
      by simp_all
    with split show ?case by blast
  qed auto
qed

lemma csum_value_mono:
  "length xs = length ys \<Longrightarrow> \<forall>i < length xs. unat (xs ! i) \<le> unat (ys ! i) \<Longrightarrow> csum_value ys \<le> csum_value xs"
proof (induction xs ys rule: list_induct2)
  case (Cons x xs y ys)
  from Cons.prems have "unat x \<le> unat y" "\<forall>i < length xs. unat (xs ! i) \<le> unat (ys ! i)"
    by (auto dest: spec [of _ 0] spec [of _ "Suc _"])
  with Cons.IH show ?case
    by (simp add: csum_value_def)
qed simp

lemma csum_value_less:
  "length xs = length ys \<Longrightarrow> \<forall>i < length xs. unat (xs ! i) \<le> unat (ys ! i) \<Longrightarrow> xs \<noteq> ys \<Longrightarrow>
     \<forall>y \<in> set ys. unat y < 16 \<Longrightarrow> csum_value ys < csum_value xs"
proof (induction xs ys rule: list_induct2)
  case (Cons x xs y ys)
  from Cons.prems have le: "unat x \<le> unat y" "\<forall>i < length xs. unat (xs ! i) \<le> unat (ys ! i)" "unat y < 16"
    by (auto dest: spec [of _ 0] spec [of _ "Suc _"])
  show ?case
  proof (cases "xs = ys")
    case True
    then have "unat x \<noteq> unat y"
      using Cons.prems(2) by (auto dest: unsigned_word_eqI)
    with le True show ?thesis
      by (simp add: csum_value_def)
  next
    case False
    with Cons le show ?thesis
      by (simp add: csum_value_def)
  qed
qed simp

text \<open>
  Two different messages: some chain of the second starts below the chain of the first, so that a
  signature of the first gives no signature of the second by running chains forward only.
\<close>

lemma nibbles_incomparable:
  assumes m: "length m = n" "length m' = n" "n \<le> 32" and neq: "m \<noteq> m'"
  shows "\<exists>i < SLH_WOTS_LEN n. unat (msg_and_csum_nibbles m' n ! i) < unat (msg_and_csum_nibbles m n ! i)"
proof (rule ccontr)
  let ?x = "slh_bytes_to_nibbles m n" and ?y = "slh_bytes_to_nibbles m' n"
  let ?c = "csum16 ?x (2 * n)" and ?d = "csum16 ?y (2 * n)"
  assume "\<not> ?thesis"
  then have ge: "unat (msg_and_csum_nibbles m n ! i) \<le> unat (msg_and_csum_nibbles m' n ! i)"
    if "i < SLH_WOTS_LEN n" for i
    using that by (meson not_le)
  have len: "length ?x = 2 * n" "length ?y = 2 * n"
    using m by (simp_all add: length_bytes_to_nibbles)
  have nib: "msg_and_csum_nibbles m n = ?x @ compute_checksum_nibbles ?x (2 * n)"
    "msg_and_csum_nibbles m' n = ?y @ compute_checksum_nibbles ?y (2 * n)"
    by (simp_all add: msg_and_csum_nibbles_def Let_def)
  have msgs: "\<forall>i < length ?x. unat (?x ! i) \<le> unat (?y ! i)"
  proof (intro allI impI)
    fix i
    assume "i < length ?x"
    with ge [of i] len show "unat (?x ! i) \<le> unat (?y ! i)"
      by (simp add: nib nth_append SLH_WOTS_LEN_def)
  qed
  have bx: "\<forall>x \<in> set ?x. unat x < 16" "\<forall>x \<in> set ?y. unat x < 16"
    using nibbles_bound [of _ m n] nibbles_bound [of _ m' n] by (auto simp: nib)
  have "?x \<noteq> ?y"
    using bytes_to_nibbles_inject m neq by blast
  with csum_value_less [OF _ msgs _ bx(2)] len have less: "csum_value ?y < csum_value ?x"
    by simp
  note vx = csum16_value [OF bx(1)] and vy = csum16_value [OF bx(2)]
  have c: "unat ?c = csum_value ?x" "unat ?d = csum_value ?y" "unat ?c < 4096" "unat ?d < 4096"
    using vx vy len m(3) by simp_all
  have dig: "unat (compute_checksum_nibbles ?x (2 * n) ! k) \<le> unat (compute_checksum_nibbles ?y (2 * n) ! k)"
    if "k < 3" for k
    using ge [of "2 * n + k"] that len by (simp add: nib nth_append SLH_WOTS_LEN_def)
  have eq: "compute_checksum_nibbles ?x (2 * n) = [ucast (drop_bit (2 * 4) ?c) AND NIBBLE_MASK,
      ucast (drop_bit 4 ?c) AND NIBBLE_MASK, ucast ?c AND NIBBLE_MASK]"
    "compute_checksum_nibbles ?y (2 * n) = [ucast (drop_bit (2 * 4) ?d) AND NIBBLE_MASK,
      ucast (drop_bit 4 ?d) AND NIBBLE_MASK, ucast ?d AND NIBBLE_MASK]"
    by (simp_all add: compute_checksum_nibbles_def csum16_def Let_def)
  have "unat ?c \<le> unat ?d"
    using csum_digits [OF c(3)] csum_digits [OF c(4)] dig [of 0] dig [of 1] dig [of 2]
    unfolding eq by simp
  with less c show False by simp
qed

section \<open>Signing and recovering the public key\<close>

context slh_scheme
begin

lemma length_wots_sig: "length (wots_sig ctx sk pk a msg) = SLH_WOTS_LEN (ctx_n ctx)"
  by (simp add: wots_sig_def)

lemma length_wots_sig_chunk: "ctx_ok ctx \<Longrightarrow> s \<in> set (wots_sig ctx sk pk a msg) \<Longrightarrow> length s = ctx_n ctx"
  by (auto simp: wots_sig_def length_chain_val)

text \<open>Running each chain of a signature to its end gives the public key, whatever was signed.\<close>

lemma wots_pk_cand_sig:
  assumes "ctx_n ctx \<le> length msg"
  shows "wots_pk_cand ctx pk a msg (wots_sig ctx sk pk a msg) = wots_pk ctx sk pk a"
proof -
  let ?nib = "msg_and_csum_nibbles msg (ctx_n ctx)"
  have "chain ctx pk (a\<lparr>adr_chain := of_nat i\<rparr>) (wots_sig ctx sk pk a msg ! i) (unat (?nib ! i))
      (unat (NIBBLE_MASK - ?nib ! i)) = chain_val ctx sk pk a i 15"
    if i: "i < SLH_WOTS_LEN (ctx_n ctx)" for i
  proof -
    have "unat (?nib ! i) < 16"
      using nibbles_bound [of "?nib ! i" msg "ctx_n ctx"] i length_nibbles [OF assms] by auto
    then have "unat (NIBBLE_MASK - ?nib ! i) = 15 - unat (?nib ! i)" and "unat (?nib ! i) \<le> 15"
      by (simp_all add: NIBBLE_MASK_def unat_sub word_le_nat_alt)
    then show ?thesis
      using i chain_add [of ctx pk "a\<lparr>adr_chain := of_nat i\<rparr>" _ 0 "unat (?nib ! i)" "15 - unat (?nib ! i)"]
      by (simp add: wots_sig_def chain_val_def)
  qed
  then show ?thesis
    unfolding wots_pk_cand_def wots_pk_def Let_def
    by (intro arg_cong [where f = "\<lambda>x. sT ctx pk (pk_adr a) (concat x)"] map_cong) auto
qed

end

interpretation slh_shake: slh_scheme "ossl_slh_get_adrs_fn False" adrs_enc "ossl_slh_get_hash_fn True" shake_env_ok
  by unfold_locales

interpretation slh_sha2: slh_scheme "ossl_slh_get_adrs_fn True" adrsc_enc "ossl_slh_get_hash_fn False" sha2_env_ok
  by unfold_locales

text \<open>
  A context as \<open>ossl_slh_dsa_key_new\<close> and \<open>ossl_slh_dsa_hash_ctx_new\<close> build it, over digests that do
  not fail.
\<close>

definition slh_ctx_ok :: "slh_dsa_hash_ctx \<Rightarrow> bool" where
  "slh_ctx_ok ctx \<longleftrightarrow>
     (let key = sc_key ctx; is_shake = sp_is_shake (key_params key)
      in key_adrs_func key = ossl_slh_get_adrs_fn (\<not> is_shake) \<and>
         key_hash_func key = ossl_slh_get_hash_fn is_shake \<and>
         (if is_shake then shake_env_ok (sc_env ctx) else sha2_env_ok (sc_env ctx)) \<and>
         he_params (sc_env ctx) = key_params key \<and> key_params key \<in> set slh_dsa_params_table)"

lemma slh_ctx_cases:
  assumes "slh_ctx_ok ctx"
  obtains (shake) "slh_shake.ctx_ok ctx" | (sha2) "slh_sha2.ctx_ok ctx"
proof -
  have ok: "slh_params_ok (key_params (sc_key ctx))"
    using assms slh_params_table_ok by (simp add: slh_ctx_ok_def Let_def)
  show ?thesis
  proof (cases "sp_is_shake (key_params (sc_key ctx))")
    case True
    with assms ok have "slh_shake.ctx_ok ctx"
      unfolding slh_shake.ctx_ok_def slh_ctx_ok_def Let_def by simp
    then show ?thesis by (rule shake)
  next
    case False
    with assms ok have "slh_sha2.ctx_ok ctx"
      unfolding slh_sha2.ctx_ok_def slh_ctx_ok_def Let_def by simp
    then show ?thesis by (rule sha2)
  qed
qed

end
