(* ===== verification/Merkle.thy ===== *)
theory Merkle
  imports Prelude
begin

text \<open>
  Binary hash trees, as the XMSS and the FORS trees of SLH-DSA use them: the value of a node, the
  authentication path of a node, and the climb from a node along such a path. The parameters are
  the hash of two children at a height and an index, and the values of the leaves. Indices are the
  \<open>uint32_t\<close> of the code.
\<close>

section \<open>Indices\<close>

lemma sibling_even: "i AND 1 = 0 \<Longrightarrow> 2 * drop_bit 1 i = i \<and> i XOR 1 = 2 * drop_bit 1 i + 1" for i :: u32
proof -
  assume "i AND 1 = 0"
  then have "i mod 2 = 0"
    by (simp add: and_one_eq)
  then have "2 * drop_bit 1 i = i"
    using mult_div_mod_eq [of 2 i] by (simp add: drop_bit_eq_div)
  moreover have "i XOR 1 = i + 1"
    using \<open>i mod 2 = 0\<close> by (simp add: xor_one_eq even_iff_mod_2_eq_zero)
  ultimately show ?thesis by simp
qed

lemma sibling_odd:
  "i AND 1 \<noteq> 0 \<Longrightarrow> 2 * drop_bit 1 i + 1 = i \<and> i XOR 1 = 2 * drop_bit 1 i \<and> drop_bit 1 (i - 1) = drop_bit 1 i" for i :: u32
proof -
  assume "i AND 1 \<noteq> 0"
  then have m: "i mod 2 = 1"
    by (metis and_one_eq not_mod_2_eq_0_eq_1)
  then have d: "2 * drop_bit 1 i + 1 = i"
    using mult_div_mod_eq [of 2 i] by (simp add: drop_bit_eq_div)
  moreover have x: "i XOR 1 = i - 1"
    using m by (simp add: xor_one_eq even_iff_mod_2_eq_zero)
  moreover have "i - 1 = 2 * drop_bit 1 i"
    using d by (metis add_diff_cancel_right')
  moreover have "drop_bit 1 (i XOR 1) = drop_bit 1 i"
    by (rule bit_word_eqI) (auto simp: bit_simps bit_1_iff)
  ultimately show ?thesis by simp
qed

text \<open>
  An index made of the number of a tree and of a position in it: \<open>h\<close> low bits for the position.
\<close>

definition split_idx :: "nat \<Rightarrow> u32 \<Rightarrow> u32 \<Rightarrow> bool" where
  "split_idx h pos off \<longleftrightarrow> take_bit h pos = pos \<and> take_bit h off = 0"

lemma split_idxD:
  assumes "split_idx h pos off"
  shows "bit pos n \<Longrightarrow> n < h" and "bit off n \<Longrightarrow> h \<le> n"
proof -
  show "n < h" if "bit pos n"
    using assms that by (auto simp: split_idx_def bit_simps dest: arg_cong [where f = "\<lambda>w. bit w n"])
  show "h \<le> n" if "bit off n"
  proof (rule ccontr)
    assume "\<not> h \<le> n"
    with that have "bit (take_bit h off) n"
      by (simp add: bit_simps)
    with assms show False
      by (simp add: split_idx_def)
  qed
qed

lemma split_idx_add:
  assumes "split_idx h pos off"
  shows "pos + off = pos OR off"
proof (rule disjunctive_add_eq_or, rule bit_eqI)
  show "bit (pos AND off) n \<longleftrightarrow> bit 0 n" for n
    using split_idxD [OF assms, of n] by (auto simp: bit_simps)
qed

lemma split_idx_step: "split_idx (Suc h) pos off \<Longrightarrow> split_idx h (drop_bit 1 pos) (drop_bit 1 off)"
  unfolding split_idx_def [of h]
  by (auto intro!: bit_eqI simp: bit_simps dest: split_idxD)

lemma split_idx_xor: "split_idx (Suc h) pos off \<Longrightarrow> split_idx (Suc h) (pos XOR 1) off"
  by (auto intro!: bit_eqI simp: split_idx_def bit_simps bit_1_iff dest: arg_cong [where f = "\<lambda>w. bit w _"])

lemma split_idx_sibling:
  assumes "split_idx (Suc h) pos off"
  shows "(pos XOR 1) + off = (pos + off) XOR 1" and "drop_bit 1 pos + drop_bit 1 off = drop_bit 1 (pos + off)"
    and "(pos + off) AND 1 = pos AND 1"
  using split_idxD(2) [OF assms, of 0]
  unfolding split_idx_add [OF assms] split_idx_add [OF split_idx_xor [OF assms]] split_idx_add [OF split_idx_step [OF assms]]
  by (auto intro!: bit_eqI gr0I simp: bit_simps bit_1_iff)

section \<open>Trees\<close>

type_synonym node_hash = "nat \<Rightarrow> u32 \<Rightarrow> bytes \<Rightarrow> bytes \<Rightarrow> bytes"

primrec tnode :: "node_hash \<Rightarrow> (u32 \<Rightarrow> bytes) \<Rightarrow> nat \<Rightarrow> u32 \<Rightarrow> bytes" where
  "tnode hh leaf 0 i = leaf i"
| "tnode hh leaf (Suc h) i = hh (Suc h) i (tnode hh leaf h (2 * i)) (tnode hh leaf h (2 * i + 1))"

text \<open>The siblings on the way up from the node \<open>i\<close> at height \<open>h\<close>.\<close>

primrec tauth :: "node_hash \<Rightarrow> (u32 \<Rightarrow> bytes) \<Rightarrow> u32 \<Rightarrow> nat \<Rightarrow> nat \<Rightarrow> bytes list" where
  "tauth hh leaf i h 0 = []"
| "tauth hh leaf i h (Suc todo) = tnode hh leaf h (i XOR 1) # tauth hh leaf (drop_bit 1 i) (Suc h) todo"

primrec climb :: "node_hash \<Rightarrow> u32 \<Rightarrow> nat \<Rightarrow> bytes \<Rightarrow> bytes list \<Rightarrow> bytes" where
  "climb hh i h x [] = x"
| "climb hh i h x (s # ss) =
     climb hh (drop_bit 1 i) (Suc h)
       (if i AND 1 = 0 then hh (Suc h) (drop_bit 1 i) x s else hh (Suc h) (drop_bit 1 i) s x) ss"

lemma length_tauth [simp]: "length (tauth hh leaf i h todo) = todo"
  by (induction todo arbitrary: i h) simp_all

lemma length_tnode:
  "(\<And>h i x y. length (hh h i x y) = n) \<Longrightarrow> (\<And>i. length (leaf i) = n) \<Longrightarrow> length (tnode hh leaf h i) = n"
  by (cases h) simp_all

lemma length_tauth_chunk:
  "(\<And>h i x y. length (hh h i x y) = n) \<Longrightarrow> (\<And>i. length (leaf i) = n) \<Longrightarrow>
     s \<in> set (tauth hh leaf i h todo) \<Longrightarrow> length s = n"
  by (induction todo arbitrary: i h) (auto simp: length_tnode)

lemma length_climb:
  "(\<And>h i x y. length (hh h i x y) = n) \<Longrightarrow> length x = n \<Longrightarrow> length (climb hh i h x ss) = n"
  by (induction ss arbitrary: i h x) simp_all

text \<open>Climbing along the authentication path of a node leads to its ancestor.\<close>

lemma climb_tauth:
  "climb hh i h (tnode hh leaf h i) (tauth hh leaf i h todo) = tnode hh leaf (h + todo) (drop_bit todo i)"
proof (induction todo arbitrary: i h)
  case (Suc todo)
  have "(if i AND 1 = 0 then hh (Suc h) (drop_bit 1 i) (tnode hh leaf h i) (tnode hh leaf h (i XOR 1))
         else hh (Suc h) (drop_bit 1 i) (tnode hh leaf h (i XOR 1)) (tnode hh leaf h i))
      = tnode hh leaf (Suc h) (drop_bit 1 i)"
    using sibling_even [of i] sibling_odd [of i] by auto
  moreover have "drop_bit todo (drop_bit 1 i) = drop_bit (Suc todo) i"
    by (simp only: drop_bit_drop_bit) simp
  ultimately show ?case
    using Suc.IH [of "drop_bit 1 i" "Suc h"] by (simp del: tnode.simps)
qed simp

end
