(* ===== verification/Slh_Xmss.thy ===== *)
theory Slh_Xmss
  imports Slh_Wots Merkle
begin

text \<open>
  The Merkle trees of WOTS+ keys (\<open>crypto/slh_dsa/slh_xmss.c\<close>) and the tower of such trees
  (\<open>crypto/slh_dsa/slh_hypertree.c\<close>).
\<close>

section \<open>XMSS\<close>

text \<open>\<open>h\<close> is the height; the result is the node and the address left behind.\<close>

fun ossl_slh_xmss_node ::
    "allocator \<Rightarrow> slh_dsa_hash_ctx \<Rightarrow> bytes \<Rightarrow> u32 \<Rightarrow> nat \<Rightarrow> bytes \<Rightarrow> bytes \<Rightarrow> (bytes \<times> bytes) option" where
  "ossl_slh_xmss_node al ctx sk_seed node_id 0 pk_seed adrs =
     (let af = key_adrs_func (sc_key ctx);
          adrs1 = set_type_and_clear af adrs SLH_ADRS_TYPE_WOTS_HASH;
          adrs2 = set_keypair_address af adrs1 node_id
      in ossl_slh_wots_pk_gen al ctx sk_seed pk_seed adrs2)"
| "ossl_slh_xmss_node al ctx sk_seed node_id (Suc h) pk_seed adrs =
     (case ossl_slh_xmss_node al ctx sk_seed (2 * node_id) h pk_seed adrs of
        None \<Rightarrow> None
      | Some (lnode, adrs1) \<Rightarrow>
          (case ossl_slh_xmss_node al ctx sk_seed (2 * node_id + 1) h pk_seed adrs1 of
             None \<Rightarrow> None
           | Some (rnode, adrs2) \<Rightarrow>
               let af = key_adrs_func (sc_key ctx);
                   adrs3 = set_type_and_clear af adrs2 SLH_ADRS_TYPE_TREE;
                   adrs4 = set_tree_height af adrs3 (of_nat (Suc h));
                   adrs5 = set_tree_index af adrs4 node_id
               in map_option (\<lambda>pk_out. (pk_out, adrs5))
                    (hash_H (key_hash_func (sc_key ctx)) (sc_env ctx) pk_seed adrs5 lnode rnode)))"

text \<open>The loop over the authentication path; \<open>todo\<close> is \<open>hm - h\<close>.\<close>

fun xmss_auth_path ::
    "allocator \<Rightarrow> slh_dsa_hash_ctx \<Rightarrow> bytes \<Rightarrow> u32 \<Rightarrow> nat \<Rightarrow> nat \<Rightarrow> bytes \<Rightarrow> bytes \<Rightarrow> wpacket
       \<Rightarrow> (bytes \<times> wpacket) option" where
  "xmss_auth_path al ctx sk_seed idx h 0 pk_seed adrs sig_wpkt = Some (adrs, sig_wpkt)"
| "xmss_auth_path al ctx sk_seed idx h (Suc todo) pk_seed adrs sig_wpkt =
     (case WPACKET_allocate_bytes al sig_wpkt (ctx_n ctx) of
        None \<Rightarrow> None
      | Some (auth_path, wpkt1) \<Rightarrow>
          (case ossl_slh_xmss_node al ctx sk_seed (idx XOR 1) h pk_seed adrs of
             None \<Rightarrow> None
           | Some (node, adrs1) \<Rightarrow>
               xmss_auth_path al ctx sk_seed (drop_bit 1 idx) (Suc h) todo pk_seed adrs1
                 (wp_store wpkt1 auth_path node)))"

definition ossl_slh_xmss_sign ::
    "allocator \<Rightarrow> slh_dsa_hash_ctx \<Rightarrow> bytes \<Rightarrow> bytes \<Rightarrow> u32 \<Rightarrow> bytes \<Rightarrow> bytes \<Rightarrow> wpacket
       \<Rightarrow> (bytes \<times> wpacket) option" where
  "ossl_slh_xmss_sign al ctx msg sk_seed node_id pk_seed adrs sig_wpkt =
     (let af = key_adrs_func (sc_key ctx); hm = sp_hm (key_params (sc_key ctx));
          tmp_adrs = adrs_copy af SLH_ADRS_DECLARE adrs;
          adrs1 = set_type_and_clear af adrs SLH_ADRS_TYPE_WOTS_HASH;
          adrs2 = set_keypair_address af adrs1 node_id
      in (case ossl_slh_wots_sign al ctx msg sk_seed pk_seed adrs2 sig_wpkt of
            None \<Rightarrow> None
          | Some (adrs3, wpkt1) \<Rightarrow>
              xmss_auth_path al ctx sk_seed node_id 0 hm pk_seed (adrs_copy af adrs3 tmp_adrs) wpkt1))"

text \<open>The loop of \<open>ossl_slh_xmss_pk_from_sig\<close>; \<open>todo\<close> is \<open>hm - k\<close>.\<close>

fun xmss_climb ::
    "slh_dsa_hash_ctx \<Rightarrow> u32 \<Rightarrow> nat \<Rightarrow> nat \<Rightarrow> packet \<Rightarrow> bytes \<Rightarrow> bytes \<Rightarrow> bytes
       \<Rightarrow> (bytes \<times> packet \<times> bytes) option" where
  "xmss_climb ctx node_id k 0 sig_rpkt pk_seed adrs node = Some (node, sig_rpkt, adrs)"
| "xmss_climb ctx node_id k (Suc todo) sig_rpkt pk_seed adrs node =
     (case PACKET_get_bytes sig_rpkt (ctx_n ctx) of
        None \<Rightarrow> None
      | Some (auth_path, sig_rpkt1) \<Rightarrow>
          let af = key_adrs_func (sc_key ctx); H = hash_H (key_hash_func (sc_key ctx)) (sc_env ctx);
              adrs1 = set_tree_height af adrs (of_nat (k + 1))
          in if node_id AND 1 = 0 then
               let node_id1 = drop_bit 1 node_id; adrs2 = set_tree_index af adrs1 node_id1
               in (case H pk_seed adrs2 node auth_path of
                     None \<Rightarrow> None
                   | Some node1 \<Rightarrow> xmss_climb ctx node_id1 (Suc k) todo sig_rpkt1 pk_seed adrs2 node1)
             else
               let node_id1 = drop_bit 1 (node_id - 1); adrs2 = set_tree_index af adrs1 node_id1
               in (case H pk_seed adrs2 auth_path node of
                     None \<Rightarrow> None
                   | Some node1 \<Rightarrow> xmss_climb ctx node_id1 (Suc k) todo sig_rpkt1 pk_seed adrs2 node1))"

definition ossl_slh_xmss_pk_from_sig ::
    "allocator \<Rightarrow> slh_dsa_hash_ctx \<Rightarrow> u32 \<Rightarrow> packet \<Rightarrow> bytes \<Rightarrow> bytes \<Rightarrow> bytes
       \<Rightarrow> (bytes \<times> packet \<times> bytes) option" where
  "ossl_slh_xmss_pk_from_sig al ctx node_id sig_rpkt msg pk_seed adrs =
     (let af = key_adrs_func (sc_key ctx); hm = sp_hm (key_params (sc_key ctx));
          adrs1 = set_type_and_clear af adrs SLH_ADRS_TYPE_WOTS_HASH;
          adrs2 = set_keypair_address af adrs1 node_id
      in (case ossl_slh_wots_pk_from_sig al ctx sig_rpkt msg pk_seed adrs2 of
            None \<Rightarrow> None
          | Some (node, sig_rpkt1, adrs3) \<Rightarrow>
              xmss_climb ctx node_id 0 hm sig_rpkt1 pk_seed
                (set_type_and_clear af adrs3 SLH_ADRS_TYPE_TREE) node))"

section \<open>The hypertree\<close>

text \<open>
  The loop of \<open>ossl_slh_ht_sign\<close>. \<open>psig\<close> is the offset at which the signature of the layer starts;
  the packet read back covers the bytes up to the writer's position.
\<close>

fun ht_sign_loop ::
    "allocator \<Rightarrow> slh_dsa_hash_ctx \<Rightarrow> bytes \<Rightarrow> bytes \<Rightarrow> nat \<Rightarrow> nat \<Rightarrow> u64 \<Rightarrow> u32 \<Rightarrow> bytes \<Rightarrow> bytes \<Rightarrow> wpacket
       \<Rightarrow> wpacket option" where
  "ht_sign_loop al ctx sk_seed pk_seed layer 0 tree_id leaf_id root adrs sig_wpkt = Some sig_wpkt"
| "ht_sign_loop al ctx sk_seed pk_seed layer (Suc todo) tree_id leaf_id root adrs sig_wpkt =
     (let af = key_adrs_func (sc_key ctx); prms = key_params (sc_key ctx);
          d = sp_d prms; hm = sp_hm prms; msk = push_bit hm 1 - 1 :: u32;
          adrs1 = set_layer_address af adrs (of_nat layer);
          adrs2 = set_tree_address af adrs1 tree_id;
          psig = WPACKET_get_curr sig_wpkt
      in (case ossl_slh_xmss_sign al ctx root sk_seed leaf_id pk_seed adrs2 sig_wpkt of
            None \<Rightarrow> None
          | Some (adrs3, wpkt1) \<Rightarrow>
              if layer < d - 1 then
                (case PACKET_buf_init (drop (the psig) (the (GETBUF wpkt1)))
                        (the (WPACKET_get_curr wpkt1) - the psig) of
                   None \<Rightarrow> None
                 | Some xmss_sig_rpkt \<Rightarrow>
                     (case ossl_slh_xmss_pk_from_sig al ctx leaf_id xmss_sig_rpkt root pk_seed adrs3 of
                        None \<Rightarrow> None
                      | Some (root1, _, adrs4) \<Rightarrow>
                          ht_sign_loop al ctx sk_seed pk_seed (Suc layer) todo (drop_bit hm tree_id)
                            (ucast (tree_id AND ucast msk)) root1 adrs4 wpkt1))
              else ht_sign_loop al ctx sk_seed pk_seed (Suc layer) todo tree_id leaf_id root adrs3 wpkt1))"

definition ossl_slh_ht_sign ::
    "allocator \<Rightarrow> slh_dsa_hash_ctx \<Rightarrow> bytes \<Rightarrow> bytes \<Rightarrow> bytes \<Rightarrow> u64 \<Rightarrow> u32 \<Rightarrow> wpacket \<Rightarrow> wpacket option" where
  "ossl_slh_ht_sign al ctx msg sk_seed pk_seed tree_id leaf_id sig_wpkt =
     (let af = key_adrs_func (sc_key ctx); prms = key_params (sc_key ctx)
      in ht_sign_loop al ctx sk_seed pk_seed 0 (sp_d prms) tree_id leaf_id (take (sp_n prms) msg)
           (adrs_zero af SLH_ADRS_DECLARE) sig_wpkt)"

fun ht_verify_loop ::
    "allocator \<Rightarrow> slh_dsa_hash_ctx \<Rightarrow> bytes \<Rightarrow> nat \<Rightarrow> nat \<Rightarrow> u64 \<Rightarrow> u32 \<Rightarrow> packet \<Rightarrow> bytes \<Rightarrow> bytes
       \<Rightarrow> (bytes \<times> packet) option" where
  "ht_verify_loop al ctx pk_seed layer 0 tree_id leaf_id sig_pkt adrs node = Some (node, sig_pkt)"
| "ht_verify_loop al ctx pk_seed layer (Suc todo) tree_id leaf_id sig_pkt adrs node =
     (let af = key_adrs_func (sc_key ctx); hm = sp_hm (key_params (sc_key ctx));
          msk = push_bit hm 1 - 1 :: u32;
          adrs1 = set_layer_address af adrs (of_nat layer);
          adrs2 = set_tree_address af adrs1 tree_id
      in (case ossl_slh_xmss_pk_from_sig al ctx leaf_id sig_pkt node pk_seed adrs2 of
            None \<Rightarrow> None
          | Some (node1, sig_pkt1, adrs3) \<Rightarrow>
              ht_verify_loop al ctx pk_seed (Suc layer) todo (drop_bit hm tree_id)
                (ucast (tree_id AND ucast msk)) sig_pkt1 adrs3 node1))"

text \<open>The verdict and the packet behind the signature; \<open>None\<close> when a hash or the packet fails.\<close>

definition ossl_slh_ht_verify ::
    "allocator \<Rightarrow> slh_dsa_hash_ctx \<Rightarrow> bytes \<Rightarrow> packet \<Rightarrow> bytes \<Rightarrow> u64 \<Rightarrow> u32 \<Rightarrow> bytes
       \<Rightarrow> (bool \<times> packet) option" where
  "ossl_slh_ht_verify al ctx msg sig_pkt pk_seed tree_id leaf_id pk_root =
     (let af = key_adrs_func (sc_key ctx); prms = key_params (sc_key ctx); n = sp_n prms
      in (case ht_verify_loop al ctx pk_seed 0 (sp_d prms) tree_id leaf_id sig_pkt
                 (adrs_zero af SLH_ADRS_DECLARE) (take n msg) of
            None \<Rightarrow> None
          | Some (node, sig_pkt1) \<Rightarrow> Some (take n node = take n pk_root, sig_pkt1)))"

section \<open>What the trees compute\<close>

text \<open>The addresses of the parts of one XMSS tree; two addresses may stand for the same tree.\<close>

definition wots_adr :: "adr \<Rightarrow> u32 \<Rightarrow> adr" where
  "wots_adr a i = (adr_type_clear a SLH_ADRS_TYPE_WOTS_HASH)\<lparr>adr_keypair := i\<rparr>"

definition node_adr :: "adr \<Rightarrow> nat \<Rightarrow> u32 \<Rightarrow> adr" where
  "node_adr a h i = (adr_type_clear a SLH_ADRS_TYPE_TREE)\<lparr>adr_chain := of_nat h, adr_hash := i\<rparr>"

lemma node_adr_hash [simp]: "(node_adr a h i)\<lparr>adr_hash := j\<rparr> = node_adr a h j"
  by (simp add: node_adr_def)

definition same_tree :: "adr \<Rightarrow> adr \<Rightarrow> bool" where
  "same_tree a b \<longleftrightarrow> adr_layer a = adr_layer b \<and> adr_tree a = adr_tree b"

lemma adr_type_clear_fields [simp]:
  "adr_layer (adr_type_clear a y) = adr_layer a" "adr_tree (adr_type_clear a y) = adr_tree a"
  by (simp_all add: adr_type_clear_def)

lemma same_tree_type: "same_tree a b \<Longrightarrow> adr_type_clear a y = adr_type_clear b y"
  by (cases a; cases b) (simp add: adr_type_clear_def same_tree_def)

lemma same_tree_wots: "same_tree a b \<Longrightarrow> wots_adr a = wots_adr b"
  using same_tree_type [of a b] by (simp add: wots_adr_def fun_eq_iff)

lemma same_tree_node: "same_tree a b \<Longrightarrow> node_adr a = node_adr b"
  using same_tree_type [of a b] by (simp add: node_adr_def fun_eq_iff)

lemma same_tree_simps [simp]:
  "same_tree (adr_type_clear a y) b \<longleftrightarrow> same_tree a b" "same_tree a (adr_type_clear b y) \<longleftrightarrow> same_tree a b"
  "same_tree a (b\<lparr>adr_keypair := x\<rparr>) \<longleftrightarrow> same_tree a b" "same_tree a (b\<lparr>adr_chain := x\<rparr>) \<longleftrightarrow> same_tree a b"
  "same_tree a (b\<lparr>adr_hash := x\<rparr>) \<longleftrightarrow> same_tree a b" "same_tree a a"
  "same_tree (a\<lparr>adr_keypair := x\<rparr>) b \<longleftrightarrow> same_tree a b" "same_tree (a\<lparr>adr_chain := x\<rparr>) b \<longleftrightarrow> same_tree a b"
  "same_tree (a\<lparr>adr_hash := x\<rparr>) b \<longleftrightarrow> same_tree a b"
  by (simp_all add: same_tree_def)

lemma same_tree_adrs [simp]: "same_tree a (wots_adr b i) \<longleftrightarrow> same_tree a b" "same_tree a (node_adr b h i) \<longleftrightarrow> same_tree a b"
  by (simp_all add: wots_adr_def node_adr_def)

lemma same_tree_trans: "same_tree a b \<Longrightarrow> same_tree b c \<Longrightarrow> same_tree a c"
  by (simp add: same_tree_def)

context slh_scheme
begin

abbreviation ctx_hm :: "slh_dsa_hash_ctx \<Rightarrow> nat" where
  "ctx_hm ctx \<equiv> sp_hm (key_params (sc_key ctx))"

definition xh :: "slh_dsa_hash_ctx \<Rightarrow> bytes \<Rightarrow> adr \<Rightarrow> node_hash" where
  "xh ctx pk a h i x y = sH ctx pk (node_adr a h i) x y"

definition xleaf :: "slh_dsa_hash_ctx \<Rightarrow> bytes \<Rightarrow> bytes \<Rightarrow> adr \<Rightarrow> u32 \<Rightarrow> bytes" where
  "xleaf ctx sk pk a i = wots_pk ctx sk pk (wots_adr a i)"

abbreviation node :: "slh_dsa_hash_ctx \<Rightarrow> bytes \<Rightarrow> bytes \<Rightarrow> adr \<Rightarrow> nat \<Rightarrow> u32 \<Rightarrow> bytes" where
  "node ctx sk pk a \<equiv> tnode (xh ctx pk a) (xleaf ctx sk pk a)"

abbreviation auth :: "slh_dsa_hash_ctx \<Rightarrow> bytes \<Rightarrow> bytes \<Rightarrow> adr \<Rightarrow> u32 \<Rightarrow> nat \<Rightarrow> nat \<Rightarrow> bytes list" where
  "auth ctx sk pk a \<equiv> tauth (xh ctx pk a) (xleaf ctx sk pk a)"

lemma xh_cong: "same_tree a b \<Longrightarrow> xh ctx pk a = xh ctx pk b"
  by (simp add: xh_def fun_eq_iff same_tree_node)

lemma xleaf_cong: "same_tree a b \<Longrightarrow> xleaf ctx sk pk a = xleaf ctx sk pk b"
  by (simp add: xleaf_def fun_eq_iff same_tree_wots)

lemma length_xh: "ctx_ok ctx \<Longrightarrow> length (xh ctx pk a h i x y) = ctx_n ctx"
  by (simp add: xh_def ctx_okD)

lemma length_wots_pk: "ctx_ok ctx \<Longrightarrow> length (wots_pk ctx sk pk a) = ctx_n ctx"
  by (simp add: wots_pk_def ctx_okD)

lemma length_xleaf: "ctx_ok ctx \<Longrightarrow> length (xleaf ctx sk pk a i) = ctx_n ctx"
  by (simp add: xleaf_def length_wots_pk)

lemmas length_node = length_tnode [OF length_xh length_xleaf]
lemmas length_auth_chunk = length_tauth_chunk [OF length_xh length_xleaf]

lemma xmss_node_eq:
  assumes ctx: "ctx_ok ctx" and al: "al sizeof_wpacket_sub"
  shows "\<exists>a'. ossl_slh_xmss_node al ctx sk i h pk (enc a) = Some (node ctx sk pk a h i, enc a') \<and> same_tree a a'"
proof (induction h arbitrary: a i)
  case 0
  obtain c h where "ossl_slh_wots_pk_gen al ctx sk pk (enc (wots_adr a i)) =
      Some (wots_pk ctx sk pk (wots_adr a i), enc ((wots_adr a i)\<lparr>adr_chain := c, adr_hash := h\<rparr>))"
    using wots_pk_gen_eq [OF ctx] al by blast
  then show ?case
    by (intro exI [of _ "(wots_adr a i)\<lparr>adr_chain := c, adr_hash := h\<rparr>"])
      (simp add: ctx_okD(1) [OF ctx] enc_simps xleaf_def flip: wots_adr_def)
next
  case (Suc h)
  obtain b where b: "ossl_slh_xmss_node al ctx sk (2 * i) h pk (enc a) = Some (node ctx sk pk a h (2 * i), enc b)"
    "same_tree a b"
    using Suc.IH by blast
  obtain c where c: "ossl_slh_xmss_node al ctx sk (2 * i + 1) h pk (enc b) = Some (node ctx sk pk b h (2 * i + 1), enc c)"
    "same_tree b c"
    using Suc.IH by blast
  have "same_tree a c"
    using b c same_tree_trans by blast
  then have na: "(adr_type_clear c SLH_ADRS_TYPE_TREE)\<lparr>adr_chain := of_nat (Suc h), adr_hash := i\<rparr> = node_adr a (Suc h) i"
    by (simp add: same_tree_type node_adr_def)
  show ?case
    using b c na xh_cong [OF b(2)] xleaf_cong [OF b(2)]
    by (intro exI [of _ "node_adr a (Suc h) i"]) (simp add: ctx_okD [OF ctx] enc_simps del: of_nat_Suc flip: xh_def)
qed

lemma xmss_auth_path_eq:
  assumes ctx: "ctx_ok ctx" and al: "al sizeof_wpacket_sub"
    and "wp_static p" and "todo * ctx_n ctx \<le> wp_room p"
  shows "\<exists>a'. xmss_auth_path al ctx sk i h todo pk (enc a) p =
     Some (enc a', wp_append p (concat (auth ctx sk pk a i h todo))) \<and> same_tree a a'"
  using assms(3,4)
proof (induction todo arbitrary: i h p a)
  case 0
  then show ?case by auto
next
  case (Suc todo)
  let ?x = "node ctx sk pk a h (i XOR 1)"
  obtain b where b: "ossl_slh_xmss_node al ctx sk (i XOR 1) h pk (enc a) = Some (?x, enc b)" "same_tree a b"
    using xmss_node_eq [OF ctx] al by blast
  have n: "0 < ctx_n ctx" "ctx_n ctx \<le> wp_room p"
    using Suc.prems ctx_n_bounds [OF ctx] by simp_all
  have x: "length ?x = ctx_n ctx"
    by (rule length_node [OF ctx ctx])
  have p': "wp_static (wp_append p ?x)" "todo * ctx_n ctx \<le> wp_room (wp_append p ?x)"
    using Suc.prems wp_append_static [OF Suc.prems(1)] x n by simp_all
  obtain c where "xmss_auth_path al ctx sk (drop_bit 1 i) (Suc h) todo pk (enc b) (wp_append p ?x) =
     Some (enc c, wp_append (wp_append p ?x) (concat (auth ctx sk pk b (drop_bit 1 i) (Suc h) todo)))" "same_tree b c"
    using Suc.IH [OF p'] by blast
  then show ?case
    using b n Suc.prems(1) store_allocated_static [OF Suc.prems(1) x] same_tree_trans [OF b(2)]
      xh_cong [OF b(2)] xleaf_cong [OF b(2)]
    by (intro exI [of _ c]) (simp add: allocate_static)
qed

definition xmss_sig :: "slh_dsa_hash_ctx \<Rightarrow> bytes \<Rightarrow> bytes \<Rightarrow> adr \<Rightarrow> u32 \<Rightarrow> bytes \<Rightarrow> bytes" where
  "xmss_sig ctx sk pk a i msg =
     concat (wots_sig ctx sk pk (wots_adr a i) msg) @ concat (auth ctx sk pk a i 0 (ctx_hm ctx))"

abbreviation xmss_sig_len :: "slh_dsa_hash_ctx \<Rightarrow> nat" where
  "xmss_sig_len ctx \<equiv> (SLH_WOTS_LEN (ctx_n ctx) + ctx_hm ctx) * ctx_n ctx"

lemma xmss_sig_cong: "same_tree a b \<Longrightarrow> xmss_sig ctx sk pk a i msg = xmss_sig ctx sk pk b i msg"
  by (simp add: xmss_sig_def xh_cong [of a b] xleaf_cong [of a b] same_tree_wots [of a b])

lemma length_wots_sig_concat:
  "ctx_ok ctx \<Longrightarrow> length (concat (wots_sig ctx sk pk a msg)) = SLH_WOTS_LEN (ctx_n ctx) * ctx_n ctx"
  by (subst length_concat_const [of _ "ctx_n ctx"]) (auto simp: length_wots_sig length_wots_sig_chunk)

lemma length_xmss_sig: "ctx_ok ctx \<Longrightarrow> length (xmss_sig ctx sk pk a i msg) = xmss_sig_len ctx"
  unfolding xmss_sig_def length_append length_wots_sig_concat
  by (subst length_concat_const [of _ "ctx_n ctx"]) (auto simp: length_auth_chunk add_mult_distrib)

lemma xmss_sign_eq:
  assumes ctx: "ctx_ok ctx" and al: "al sizeof_wpacket_sub"
    and p: "wp_static p" "xmss_sig_len ctx \<le> wp_room p"
  shows "\<exists>a'. ossl_slh_xmss_sign al ctx msg sk i pk (enc a) p =
     Some (enc a', wp_append p (xmss_sig ctx sk pk a i msg)) \<and> same_tree a a'"
proof -
  let ?s = "concat (wots_sig ctx sk pk (wots_adr a i) msg)"
  note s = length_wots_sig_concat [OF ctx, of sk pk "wots_adr a i" msg]
  have r1: "SLH_WOTS_LEN (ctx_n ctx) * ctx_n ctx \<le> wp_room p"
    using p(2) by (simp add: add_mult_distrib)
  have p': "wp_static (wp_append p ?s)" "ctx_hm ctx * ctx_n ctx \<le> wp_room (wp_append p ?s)"
    using wp_append_static [OF p(1)] p(2) s r1 by (simp_all add: add_mult_distrib)
  obtain b where b: "ossl_slh_wots_sign al ctx msg sk pk (enc (wots_adr a i)) p = Some (enc b, wp_append p ?s)"
    using wots_sign_eq [OF ctx p(1) r1] by blast
  obtain c where "xmss_auth_path al ctx sk i 0 (ctx_hm ctx) pk (enc a) (wp_append p ?s) =
     Some (enc c, wp_append (wp_append p ?s) (concat (auth ctx sk pk a i 0 (ctx_hm ctx))))" "same_tree a c"
    using xmss_auth_path_eq [OF ctx _ p'] al by blast
  with b show ?thesis
    by (intro exI [of _ c])
      (simp add: ossl_slh_xmss_sign_def ctx_okD(1) [OF ctx] enc_simps xmss_sig_def flip: wots_adr_def)
qed

lemma xmss_climb_eq:
  assumes ctx: "ctx_ok ctx" and "pkt_ok r" and "pkt_bytes r = concat ss @ rest"
    and "\<forall>s \<in> set ss. length s = ctx_n ctx"
  shows "\<exists>r' b'. xmss_climb ctx i k (length ss) r pk (enc ((adr_type_clear a SLH_ADRS_TYPE_TREE)\<lparr>adr_chain := c, adr_hash := h\<rparr>)) x =
     Some (climb (xh ctx pk a) i k x ss, r', enc b') \<and> pkt_ok r' \<and> pkt_bytes r' = rest \<and> same_tree a b'"
  using assms(2-4)
proof (induction ss arbitrary: i k r c h x)
  case Nil
  then show ?case
    by - (rule exI [of _ r], rule exI [of _ "(adr_type_clear a SLH_ADRS_TYPE_TREE)\<lparr>adr_chain := c, adr_hash := h\<rparr>"], simp)
next
  case (Cons s ss)
  let ?r = "packet_forward r (ctx_n ctx)"
  let ?y = "if i AND 1 = 0 then xh ctx pk a (Suc k) (drop_bit 1 i) x s else xh ctx pk a (Suc k) (drop_bit 1 i) s x"
  have s: "length s = ctx_n ctx"
    using Cons.prems by simp
  have b: "pkt_bytes r = s @ concat ss @ rest"
    using Cons.prems by simp
  note rd = read_chunk [OF Cons.prems(1) b, unfolded s]
  have "\<forall>s \<in> set ss. length s = ctx_n ctx"
    using Cons.prems by simp
  from Cons.IH [OF rd(2,3) this, where i = "drop_bit 1 i" and k = "Suc k" and c = "of_nat (Suc k)" and h = "drop_bit 1 i" and x = ?y]
  show ?case
    using sibling_odd [of i]
    by (auto simp: rd(1) ctx_okD [OF ctx] enc_simps Let_def simp del: of_nat_Suc simp flip: xh_def node_adr_def)
qed

definition xmss_pk_cand :: "slh_dsa_hash_ctx \<Rightarrow> bytes \<Rightarrow> adr \<Rightarrow> u32 \<Rightarrow> bytes \<Rightarrow> bytes list \<Rightarrow> bytes list \<Rightarrow> bytes" where
  "xmss_pk_cand ctx pk a i msg sigs path =
     climb (xh ctx pk a) i 0 (wots_pk_cand ctx pk (wots_adr a i) msg sigs) path"

lemma xmss_pk_from_sig_eq:
  assumes ctx: "ctx_ok ctx" and al: "al sizeof_wpacket_sub"
    and r: "pkt_ok r" "pkt_bytes r = concat sigs @ concat path @ rest"
    and sigs: "length sigs = SLH_WOTS_LEN (ctx_n ctx)" "\<forall>s \<in> set sigs. length s = ctx_n ctx"
    and path: "length path = ctx_hm ctx" "\<forall>s \<in> set path. length s = ctx_n ctx"
  shows "\<exists>r' a'. ossl_slh_xmss_pk_from_sig al ctx i r msg pk (enc a) =
     Some (xmss_pk_cand ctx pk a i msg sigs path, r', enc a') \<and> pkt_ok r' \<and> pkt_bytes r' = rest \<and> same_tree a a'"
proof -
  obtain c h r1 where w: "ossl_slh_wots_pk_from_sig al ctx r msg pk (enc (wots_adr a i)) =
     Some (wots_pk_cand ctx pk (wots_adr a i) msg sigs, r1, enc ((wots_adr a i)\<lparr>adr_chain := c, adr_hash := h\<rparr>))"
     "pkt_ok r1" "pkt_bytes r1 = concat path @ rest"
    using wots_pk_from_sig_eq [of ctx al r sigs "concat path @ rest" msg pk "wots_adr a i"] assms by blast
  have clr: "adr_type_clear ((wots_adr a i)\<lparr>adr_chain := c, adr_hash := h\<rparr>) SLH_ADRS_TYPE_TREE =
      (adr_type_clear a SLH_ADRS_TYPE_TREE)\<lparr>adr_chain := 0, adr_hash := 0\<rparr>"
    by (simp add: wots_adr_def adr_type_clear_def)
  show ?thesis
    using xmss_climb_eq [OF ctx w(2,3) path(2), where i = i and k = 0 and pk = pk and a = a and c = 0 and h = 0
        and x = "wots_pk_cand ctx pk (wots_adr a i) msg sigs"] w(1) clr path(1)
    by (auto simp: ossl_slh_xmss_pk_from_sig_def ctx_okD(1) [OF ctx] enc_simps xmss_pk_cand_def simp flip: wots_adr_def)
qed

text \<open>The candidate for a signature of the code is the root of the tree, whatever was signed.\<close>

lemma xmss_pk_from_own_sig:
  assumes ctx: "ctx_ok ctx" and al: "al sizeof_wpacket_sub" and msg: "ctx_n ctx \<le> length msg"
    and r: "pkt_ok r" "pkt_bytes r = xmss_sig ctx sk pk a i msg @ rest"
  shows "\<exists>r' a'. ossl_slh_xmss_pk_from_sig al ctx i r msg pk (enc a) =
     Some (node ctx sk pk a (ctx_hm ctx) (drop_bit (ctx_hm ctx) i), r', enc a') \<and>
     pkt_ok r' \<and> pkt_bytes r' = rest \<and> same_tree a a'"
proof -
  have b: "pkt_bytes r = concat (wots_sig ctx sk pk (wots_adr a i) msg) @ concat (auth ctx sk pk a i 0 (ctx_hm ctx)) @ rest"
    using r(2) by (simp add: xmss_sig_def)
  have "xmss_pk_cand ctx pk a i msg (wots_sig ctx sk pk (wots_adr a i) msg) (auth ctx sk pk a i 0 (ctx_hm ctx)) =
      node ctx sk pk a (ctx_hm ctx) (drop_bit (ctx_hm ctx) i)"
    using climb_tauth [of "xh ctx pk a" i 0 "xleaf ctx sk pk a" "ctx_hm ctx"]
    by (simp add: xmss_pk_cand_def wots_pk_cand_sig [OF msg] xleaf_def)
  then show ?thesis
    using xmss_pk_from_sig_eq [of ctx al, OF ctx al r(1) b length_wots_sig, where i = i and a = a and pk = pk and msg = msg]
      length_wots_sig_chunk [OF ctx] length_auth_chunk [OF ctx ctx]
    by auto
qed

end

section \<open>What the hypertree computes\<close>

lemma mask_word: "(2 ^ hm - 1 :: u32) = mask hm"
  by (simp add: mask_eq_decr_exp)

lemma leaf_mask:
  assumes "hm \<le> 32"
  shows "(ucast (t AND ucast (2 ^ hm - 1 :: u32)) :: u32) = ucast (take_bit hm (t :: u64))"
  unfolding mask_word by (rule bit_word_eqI) (use assms in \<open>auto simp: bit_simps\<close>)

lemma drop_bit_leaf: "drop_bit hm (ucast (take_bit hm (t :: u64)) :: u32) = 0"
  by (rule bit_word_eqI) (auto simp: bit_simps)

context slh_scheme
begin

text \<open>The root of a tree of the hypertree.\<close>

abbreviation ht_adr :: "nat \<Rightarrow> u64 \<Rightarrow> adr" where
  "ht_adr layer t \<equiv> adr_zero\<lparr>adr_layer := of_nat layer, adr_tree := t\<rparr>"

definition ht_root :: "slh_dsa_hash_ctx \<Rightarrow> bytes \<Rightarrow> bytes \<Rightarrow> nat \<Rightarrow> u64 \<Rightarrow> bytes" where
  "ht_root ctx sk pk layer t = node ctx sk pk (ht_adr layer t) (ctx_hm ctx) 0"

fun ht_sig :: "slh_dsa_hash_ctx \<Rightarrow> bytes \<Rightarrow> bytes \<Rightarrow> nat \<Rightarrow> nat \<Rightarrow> u64 \<Rightarrow> u32 \<Rightarrow> bytes \<Rightarrow> bytes" where
  "ht_sig ctx sk pk layer 0 t leaf msg = []"
| "ht_sig ctx sk pk layer (Suc todo) t leaf msg =
     xmss_sig ctx sk pk (ht_adr layer t) leaf msg @
     ht_sig ctx sk pk (Suc layer) todo (drop_bit (ctx_hm ctx) t) (ucast (take_bit (ctx_hm ctx) t))
       (ht_root ctx sk pk layer t)"

lemma length_ht_root: "ctx_ok ctx \<Longrightarrow> length (ht_root ctx sk pk layer t) = ctx_n ctx"
  by (simp add: ht_root_def length_node)

lemma length_ht_sig: "ctx_ok ctx \<Longrightarrow> length (ht_sig ctx sk pk layer todo t leaf msg) = todo * xmss_sig_len ctx"
  by (induction todo arbitrary: layer t leaf msg) (simp_all add: length_xmss_sig)

lemma ctx_hm_bounds: "ctx_ok ctx \<Longrightarrow> 0 < ctx_hm ctx \<and> ctx_hm ctx \<le> 32"
  using ctx_okD(11) [of ctx] unfolding slh_params_ok_def by auto

lemma same_tree_ht:
  "same_tree (a\<lparr>adr_layer := of_nat layer, adr_tree := t\<rparr>) (ht_adr layer t)"
  by (simp add: same_tree_def)

text \<open>What an XMSS signature looks like when it is read back from the writer.\<close>

lemma read_back:
  assumes p: "wp_static p" "length ds \<le> wp_room p" and ds: "length ds < 2 ^ 62"
  shows "\<exists>r. PACKET_buf_init (drop (the (WPACKET_get_curr p)) (the (GETBUF (wp_append p ds))))
      (the (WPACKET_get_curr (wp_append p ds)) - the (WPACKET_get_curr p)) = Some r \<and>
      pkt_ok r \<and> pkt_bytes r = ds"
proof -
  obtain d where d: "wp_buf p = None" "wp_staticbuf p = Some d" "\<not> wp_endfirst p" "wp_curr p = wp_written p"
    "wp_written p + length ds \<le> length d"
    using p by (auto simp: wp_static_def wpacket_ok_def wp_room_def)
  have "GETBUF p = Some d" "GETBUF (wp_append p ds) = Some (store_at d (wp_written p) ds)"
    using d by (simp_all add: GETBUF_def wp_append_def)
  then have c: "WPACKET_get_curr p = Some (wp_written p)"
    "WPACKET_get_curr (wp_append p ds) = Some (wp_written p + length ds)"
    using d by (simp_all add: WPACKET_get_curr_def wp_append_def)
  let ?buf = "drop (wp_written p) (store_at d (wp_written p) ds)"
  obtain r where r: "PACKET_buf_init ?buf (length ds) = Some r"
    using ds by (auto simp: PACKET_buf_init_def SIZE_MAX_def)
  have "take (length ds) ?buf = ds"
    using d by (simp add: buf_simps)
  with buf_init_bytes [OF r] r d c show ?thesis
    by (simp add: GETBUF_def wp_append_def)
qed

lemma xmss_sig_len_bound: "ctx_ok ctx \<Longrightarrow> xmss_sig_len ctx < 2 ^ 62"
proof -
  assume ctx: "ctx_ok ctx"
  have "xmss_sig_len ctx \<le> (SLH_WOTS_LEN 32 + 32) * 32"
    using ctx_n_bounds [OF ctx] ctx_hm_bounds [OF ctx]
    by (intro mult_le_mono add_le_mono) (auto simp: SLH_WOTS_LEN_def)
  then show ?thesis
    by (simp add: SLH_WOTS_LEN_def)
qed

lemma ht_sign_loop_eq:
  assumes ctx: "ctx_ok ctx" and al: "al sizeof_wpacket_sub"
    and "wp_static p" and "todo * xmss_sig_len ctx \<le> wp_room p"
    and "drop_bit (ctx_hm ctx) leaf = 0" and "ctx_n ctx \<le> length msg"
    and "layer + todo = sp_d (key_params (sc_key ctx))"
  shows "ht_sign_loop al ctx sk pk layer todo t leaf msg (enc a) p =
     Some (wp_append p (ht_sig ctx sk pk layer todo t leaf msg))"
  using assms(3-7)
proof (induction todo arbitrary: layer t leaf msg a p)
  case 0
  then show ?case by simp
next
  case (Suc todo)
  let ?a = "a\<lparr>adr_layer := of_nat layer, adr_tree := t\<rparr>"
  let ?x = "xmss_sig ctx sk pk ?a leaf msg" and ?hm = "ctx_hm ctx"
  let ?n = "\<lambda>root a p. ht_sign_loop al ctx sk pk (Suc layer) todo (drop_bit ?hm t) (ucast (take_bit ?hm t)) root (enc a) p"
  have room: "xmss_sig_len ctx \<le> wp_room p"
    using Suc.prems by simp
  note x = length_xmss_sig [OF ctx, of sk pk ?a leaf msg]
  have xe: "?x = xmss_sig ctx sk pk (ht_adr layer t) leaf msg"
    by (rule xmss_sig_cong [OF same_tree_ht])
  obtain b where b: "ossl_slh_xmss_sign al ctx msg sk leaf pk (enc ?a) p = Some (enc b, wp_append p ?x)" "same_tree ?a b"
    using xmss_sign_eq [OF ctx _ Suc.prems(1) room] al by blast
  have bx: "?x = xmss_sig ctx sk pk b leaf msg"
    by (rule xmss_sig_cong [OF b(2)])
  have p': "wp_static (wp_append p ?x)" "todo * xmss_sig_len ctx \<le> wp_room (wp_append p ?x)"
    using Suc.prems x wp_append_static [OF Suc.prems(1)] room by simp_all
  show ?case
  proof (cases "todo = 0")
    case True
    moreover have "\<not> layer < sp_d (key_params (sc_key ctx)) - 1"
      using Suc.prems(5) True by simp
    ultimately show ?thesis
      using b by (simp add: ctx_okD(1) [OF ctx] enc_simps xe Let_def)
  next
    case False
    obtain r where r: "PACKET_buf_init (drop (the (WPACKET_get_curr p)) (the (GETBUF (wp_append p ?x))))
      (the (WPACKET_get_curr (wp_append p ?x)) - the (WPACKET_get_curr p)) = Some r" "pkt_ok r" "pkt_bytes r = ?x @ []"
      using read_back [OF Suc.prems(1), of ?x] x room xmss_sig_len_bound [OF ctx] by auto
    have st: "same_tree b (ht_adr layer t)"
      using b(2) by (simp add: same_tree_def)
    have rt: "node ctx sk pk b ?hm (drop_bit ?hm leaf) = ht_root ctx sk pk layer t"
      using Suc.prems(3) by (simp add: ht_root_def xh_cong [OF st] xleaf_cong [OF st])
    obtain r' c where c: "ossl_slh_xmss_pk_from_sig al ctx leaf r msg pk (enc b) =
        Some (ht_root ctx sk pk layer t, r', enc c)"
      using xmss_pk_from_own_sig [of ctx al, OF ctx al Suc.prems(4) r(2) r(3) [unfolded bx]] rt by auto
    have "?n (ht_root ctx sk pk layer t) c (wp_append p ?x) =
        Some (wp_append (wp_append p ?x) (ht_sig ctx sk pk (Suc layer) todo (drop_bit ?hm t)
           (ucast (take_bit ?hm t)) (ht_root ctx sk pk layer t)))"
      using Suc.prems(5) by (intro Suc.IH p') (simp_all add: drop_bit_leaf length_ht_root [OF ctx])
    moreover have "layer < sp_d (key_params (sc_key ctx)) - 1"
      using Suc.prems(5) False by simp
    ultimately show ?thesis
      using b(1) r(1) c ctx_hm_bounds [OF ctx]
      by (simp add: ctx_okD(1) [OF ctx] enc_simps leaf_mask xe Let_def)
  qed
qed

lemma ht_verify_loop_eq:
  assumes ctx: "ctx_ok ctx" and al: "al sizeof_wpacket_sub"
    and "pkt_ok r" and "pkt_bytes r = ht_sig ctx sk pk layer todo t leaf msg @ rest"
    and "drop_bit (ctx_hm ctx) leaf = 0" and "ctx_n ctx \<le> length msg"
  shows "\<exists>r'. ht_verify_loop al ctx pk layer todo t leaf r (enc a) msg =
     Some (if todo = 0 then msg
           else ht_root ctx sk pk (layer + todo - 1) (drop_bit (ctx_hm ctx * (todo - 1)) t), r') \<and>
     pkt_ok r' \<and> pkt_bytes r' = rest"
  using assms(3-6)
proof (induction todo arbitrary: layer t leaf msg a r)
  case 0
  then show ?case by simp
next
  case (Suc todo)
  let ?a = "a\<lparr>adr_layer := of_nat layer, adr_tree := t\<rparr>" and ?hm = "ctx_hm ctx"
  let ?tl = "ht_sig ctx sk pk (Suc layer) todo (drop_bit ?hm t) (ucast (take_bit ?hm t)) (ht_root ctx sk pk layer t)"
  have b: "pkt_bytes r = xmss_sig ctx sk pk ?a leaf msg @ ?tl @ rest"
    using Suc.prems(2) xmss_sig_cong [OF same_tree_ht [where a = a and layer = layer and t = t]] by simp
  have rt: "node ctx sk pk ?a ?hm (drop_bit ?hm leaf) = ht_root ctx sk pk layer t"
    using Suc.prems(3) xh_cong [OF same_tree_ht [where a = a and layer = layer and t = t]] xleaf_cong [OF same_tree_ht [where a = a and layer = layer and t = t]]
    by (simp add: ht_root_def)
  obtain r' c where c: "ossl_slh_xmss_pk_from_sig al ctx leaf r msg pk (enc ?a) =
      Some (ht_root ctx sk pk layer t, r', enc c)" "pkt_ok r'" "pkt_bytes r' = ?tl @ rest"
    using xmss_pk_from_own_sig [of ctx al, OF ctx al Suc.prems(4,1) b] rt by auto
  obtain r'' where v: "ht_verify_loop al ctx pk (Suc layer) todo (drop_bit ?hm t) (ucast (take_bit ?hm t)) r' (enc c)
      (ht_root ctx sk pk layer t) =
     Some (if todo = 0 then ht_root ctx sk pk layer t
           else ht_root ctx sk pk (Suc layer + todo - 1) (drop_bit (?hm * (todo - 1)) (drop_bit ?hm t)), r'')"
     "pkt_ok r''" "pkt_bytes r'' = rest"
    using Suc.IH [OF c(2,3) drop_bit_leaf] length_ht_root [OF ctx] by force
  have "?hm * (todo - 1) + ?hm = ?hm * todo" if "todo \<noteq> 0"
    using that by (cases todo) simp_all
  then have "(if todo = 0 then ht_root ctx sk pk layer t
      else ht_root ctx sk pk (Suc layer + todo - 1) (drop_bit (?hm * (todo - 1)) (drop_bit ?hm t))) =
      ht_root ctx sk pk (layer + todo) (drop_bit (?hm * todo) t)"
    by (simp add: drop_bit_drop_bit)
  then show ?case
    using c(1) v ctx_hm_bounds [OF ctx]
    by (intro exI [of _ r'']) (simp add: ctx_okD(1) [OF ctx] enc_simps leaf_mask Let_def)
qed

abbreviation ctx_d :: "slh_dsa_hash_ctx \<Rightarrow> nat" where
  "ctx_d ctx \<equiv> sp_d (key_params (sc_key ctx))"

lemma ht_sign_eq:
  assumes ctx: "ctx_ok ctx" and al: "al sizeof_wpacket_sub"
    and p: "wp_static p" "ctx_d ctx * xmss_sig_len ctx \<le> wp_room p"
    and leaf: "drop_bit (ctx_hm ctx) leaf = 0" and msg: "length msg = ctx_n ctx"
  shows "ossl_slh_ht_sign al ctx msg sk pk t leaf p = Some (wp_append p (ht_sig ctx sk pk 0 (ctx_d ctx) t leaf msg))"
  using ht_sign_loop_eq [of ctx al, OF ctx al p leaf, of msg 0 sk pk t adr_zero] msg
  by (simp add: ossl_slh_ht_sign_def ctx_okD(1) [OF ctx] enc_simps Let_def)

text \<open>A signature of the code verifies against the root of the only tree of the top layer.\<close>

lemma ht_verify_eq:
  assumes ctx: "ctx_ok ctx" and al: "al sizeof_wpacket_sub"
    and r: "pkt_ok r" "pkt_bytes r = ht_sig ctx sk pk 0 (ctx_d ctx) t leaf msg @ rest"
    and leaf: "drop_bit (ctx_hm ctx) leaf = 0" and msg: "length msg = ctx_n ctx"
    and t: "drop_bit (ctx_hm ctx * (ctx_d ctx - 1)) t = 0"
  shows "\<exists>r'. ossl_slh_ht_verify al ctx msg r pk t leaf root =
      Some (ht_root ctx sk pk (ctx_d ctx - 1) 0 = take (ctx_n ctx) root, r') \<and> pkt_ok r' \<and> pkt_bytes r' = rest"
proof -
  have "ctx_d ctx \<noteq> 0"
    using ctx_okD(11) [OF ctx] unfolding slh_params_ok_def by auto
  then show ?thesis
    using ht_verify_loop_eq [of ctx al, OF ctx al r leaf, of adr_zero] msg t length_ht_root [OF ctx, of sk pk]
    by (auto simp: ossl_slh_ht_verify_def ctx_okD(1) [OF ctx] enc_simps Let_def)
qed

end

end
