(* ===== verification/Slh_Fors.thy ===== *)
theory Slh_Fors
  imports Slh_Xmss
begin

text \<open>
  The few-time signatures FORS of \<open>crypto/slh_dsa/slh_fors.c\<close>: \<open>k\<close> trees of height \<open>a\<close>, of each of
  which a signature opens one leaf.
\<close>

section \<open>Splitting a digest\<close>

text \<open>
  The inner loop of \<open>slh_base_2b\<close>: \<open>total\<close> is a \<open>uint32_t\<close> and loses its upper bits. \<open>None\<close> is a
  read past the end of the input, which has no meaning in C.
\<close>

fun base_2b_fill :: "nat \<Rightarrow> nat \<Rightarrow> u32 \<Rightarrow> bytes \<Rightarrow> (nat \<times> u32 \<times> bytes) option" where
  "base_2b_fill b bits tot [] = (if bits < b then None else Some (bits, tot, []))"
| "base_2b_fill b bits tot (x # inp) =
     (if bits < b then base_2b_fill b (bits + 8) (push_bit 8 tot + ucast x) inp
      else Some (bits, tot, x # inp))"

fun base_2b_loop :: "nat \<Rightarrow> nat \<Rightarrow> u32 \<Rightarrow> bytes \<Rightarrow> nat \<Rightarrow> u32 list option" where
  "base_2b_loop b bits tot inp 0 = Some []"
| "base_2b_loop b bits tot inp (Suc todo) =
     (case base_2b_fill b bits tot inp of
        None \<Rightarrow> None
      | Some (bits1, tot1, inp1) \<Rightarrow>
          let bits2 = bits1 - b; msk = push_bit b 1 - 1
          in map_option (Cons (drop_bit bits2 tot1 AND msk)) (base_2b_loop b bits2 tot1 inp1 todo))"

definition slh_base_2b :: "bytes \<Rightarrow> nat \<Rightarrow> nat \<Rightarrow> u32 list option" where
  "slh_base_2b inp b out_len = base_2b_loop b 0 0 inp out_len"

section \<open>FORS\<close>

definition SLH_MAX_K :: nat where "SLH_MAX_K = 35"

definition SLH_MAX_A :: nat where "SLH_MAX_A = 9"

definition SLH_MAX_ROOTS :: nat where "SLH_MAX_ROOTS = SLH_MAX_A * SLH_MAX_K * SLH_MAX_N"

definition slh_fors_sk_gen :: "slh_dsa_hash_ctx \<Rightarrow> bytes \<Rightarrow> bytes \<Rightarrow> bytes \<Rightarrow> u32 \<Rightarrow> bytes option" where
  "slh_fors_sk_gen ctx sk_seed pk_seed adrs idx =
     (let af = key_adrs_func (sc_key ctx);
          sk_adrs1 = adrs_copy af SLH_ADRS_DECLARE adrs;
          sk_adrs2 = set_type_and_clear af sk_adrs1 SLH_ADRS_TYPE_FORS_PRF;
          sk_adrs3 = copy_keypair_address af sk_adrs2 adrs;
          sk_adrs4 = set_tree_index af sk_adrs3 idx
      in PRF (key_hash_func (sc_key ctx)) (sc_env ctx) pk_seed sk_seed sk_adrs4)"

fun slh_fors_node ::
    "slh_dsa_hash_ctx \<Rightarrow> bytes \<Rightarrow> bytes \<Rightarrow> bytes \<Rightarrow> u32 \<Rightarrow> nat \<Rightarrow> (bytes \<times> bytes) option" where
  "slh_fors_node ctx sk_seed pk_seed adrs node_id 0 =
     (case slh_fors_sk_gen ctx sk_seed pk_seed adrs node_id of
        None \<Rightarrow> None
      | Some sk \<Rightarrow>
          let af = key_adrs_func (sc_key ctx);
              adrs1 = set_tree_height af adrs 0;
              adrs2 = set_tree_index af adrs1 node_id
          in map_option (\<lambda>node. (node, adrs2))
               (hash_F (key_hash_func (sc_key ctx)) (sc_env ctx) pk_seed adrs2 sk (ctx_n ctx)))"
| "slh_fors_node ctx sk_seed pk_seed adrs node_id (Suc h) =
     (case slh_fors_node ctx sk_seed pk_seed adrs (2 * node_id) h of
        None \<Rightarrow> None
      | Some (lnode, adrs1) \<Rightarrow>
          (case slh_fors_node ctx sk_seed pk_seed adrs1 (2 * node_id + 1) h of
             None \<Rightarrow> None
           | Some (rnode, adrs2) \<Rightarrow>
               let af = key_adrs_func (sc_key ctx);
                   adrs3 = set_tree_height af adrs2 (of_nat (Suc h));
                   adrs4 = set_tree_index af adrs3 node_id
               in map_option (\<lambda>node. (node, adrs4))
                    (hash_H (key_hash_func (sc_key ctx)) (sc_env ctx) pk_seed adrs4 lnode rnode)))"

text \<open>The inner loop of \<open>ossl_slh_fors_sign\<close>; \<open>todo\<close> is \<open>a - layer\<close>.\<close>

fun fors_auth_path ::
    "allocator \<Rightarrow> slh_dsa_hash_ctx \<Rightarrow> bytes \<Rightarrow> bytes \<Rightarrow> u32 \<Rightarrow> u32 \<Rightarrow> nat \<Rightarrow> nat \<Rightarrow> bytes \<Rightarrow> wpacket
       \<Rightarrow> (bytes \<times> wpacket) option" where
  "fors_auth_path al ctx sk_seed pk_seed node_id tree_offset layer 0 adrs sig_wpkt = Some (adrs, sig_wpkt)"
| "fors_auth_path al ctx sk_seed pk_seed node_id tree_offset layer (Suc todo) adrs sig_wpkt =
     (let s = node_id XOR 1
      in (case slh_fors_node ctx sk_seed pk_seed adrs (s + tree_offset) layer of
            None \<Rightarrow> None
          | Some (out, adrs1) \<Rightarrow>
              (case WPACKET_memcpy al sig_wpkt out (ctx_n ctx) of
                 None \<Rightarrow> None
               | Some wpkt1 \<Rightarrow>
                   fors_auth_path al ctx sk_seed pk_seed (drop_bit 1 node_id) (drop_bit 1 tree_offset)
                     (Suc layer) todo adrs1 wpkt1)))"

text \<open>Its outer loop, over what is left of \<open>ids\<close>; \<open>toff\<close> is \<open>tree_id_times_two_power_a\<close>.\<close>

fun fors_sign_loop ::
    "allocator \<Rightarrow> slh_dsa_hash_ctx \<Rightarrow> bytes \<Rightarrow> bytes \<Rightarrow> u32 list \<Rightarrow> u32 \<Rightarrow> bytes \<Rightarrow> wpacket
       \<Rightarrow> (bytes \<times> wpacket) option" where
  "fors_sign_loop al ctx sk_seed pk_seed [] toff adrs sig_wpkt = Some (adrs, sig_wpkt)"
| "fors_sign_loop al ctx sk_seed pk_seed (node_id # ids) toff adrs sig_wpkt =
     (let a = sp_a (key_params (sc_key ctx)); two_power_a = push_bit a 1
      in (case slh_fors_sk_gen ctx sk_seed pk_seed adrs (node_id + toff) of
            None \<Rightarrow> None
          | Some out \<Rightarrow>
              (case WPACKET_memcpy al sig_wpkt out (ctx_n ctx) of
                 None \<Rightarrow> None
               | Some wpkt1 \<Rightarrow>
                   (case fors_auth_path al ctx sk_seed pk_seed node_id toff 0 a adrs wpkt1 of
                      None \<Rightarrow> None
                    | Some (adrs1, wpkt2) \<Rightarrow>
                        fors_sign_loop al ctx sk_seed pk_seed ids (toff + two_power_a) adrs1 wpkt2))))"

definition ossl_slh_fors_sign ::
    "allocator \<Rightarrow> slh_dsa_hash_ctx \<Rightarrow> bytes \<Rightarrow> bytes \<Rightarrow> bytes \<Rightarrow> bytes \<Rightarrow> wpacket
       \<Rightarrow> (bytes \<times> wpacket) option" where
  "ossl_slh_fors_sign al ctx md sk_seed pk_seed adrs sig_wpkt =
     (let prms = key_params (sc_key ctx)
      in (case slh_base_2b md (sp_a prms) (sp_k prms) of
            None \<Rightarrow> None
          | Some ids \<Rightarrow> fors_sign_loop al ctx sk_seed pk_seed ids 0 adrs sig_wpkt))"

text \<open>The inner loop of \<open>ossl_slh_fors_pk_from_sig\<close>, with the bytes at \<open>node0\<close> as an argument.\<close>

fun fors_climb ::
    "slh_dsa_hash_ctx \<Rightarrow> u32 \<Rightarrow> u32 \<Rightarrow> nat \<Rightarrow> nat \<Rightarrow> packet \<Rightarrow> bytes \<Rightarrow> bytes \<Rightarrow> bytes
       \<Rightarrow> (bytes \<times> packet \<times> bytes) option" where
  "fors_climb ctx idx node_id j 0 fors_sig_rpkt pk_seed adrs node0 = Some (node0, fors_sig_rpkt, adrs)"
| "fors_climb ctx idx node_id j (Suc todo) fors_sig_rpkt pk_seed adrs node0 =
     (case PACKET_get_bytes fors_sig_rpkt (ctx_n ctx) of
        None \<Rightarrow> None
      | Some (authj, rpkt1) \<Rightarrow>
          let af = key_adrs_func (sc_key ctx); H = hash_H (key_hash_func (sc_key ctx)) (sc_env ctx);
              adrs1 = set_tree_height af adrs (of_nat (j + 1))
          in if idx AND 1 = 0 then
               let node_id1 = drop_bit 1 node_id; adrs2 = set_tree_index af adrs1 node_id1
               in (case H pk_seed adrs2 node0 authj of
                     None \<Rightarrow> None
                   | Some node1 \<Rightarrow> fors_climb ctx (drop_bit 1 idx) node_id1 (Suc j) todo rpkt1 pk_seed adrs2 node1)
             else
               let node_id1 = drop_bit 1 (node_id - 1); adrs2 = set_tree_index af adrs1 node_id1
               in (case H pk_seed adrs2 authj node0 of
                     None \<Rightarrow> None
                   | Some node1 \<Rightarrow> fors_climb ctx (drop_bit 1 idx) node_id1 (Suc j) todo rpkt1 pk_seed adrs2 node1))"

fun fors_pk_loop ::
    "allocator \<Rightarrow> slh_dsa_hash_ctx \<Rightarrow> bytes \<Rightarrow> u32 list \<Rightarrow> u32 \<Rightarrow> packet \<Rightarrow> bytes \<Rightarrow> wpacket
       \<Rightarrow> (packet \<times> bytes \<times> wpacket) option" where
  "fors_pk_loop al ctx pk_seed [] aoff fors_sig_rpkt adrs wroot_pkt = Some (fors_sig_rpkt, adrs, wroot_pkt)"
| "fors_pk_loop al ctx pk_seed (idx # ids) aoff fors_sig_rpkt adrs wroot_pkt =
     (let n = ctx_n ctx; a = sp_a (key_params (sc_key ctx)); two_power_a = push_bit a 1;
          af = key_adrs_func (sc_key ctx); node_id = idx + aoff;
          adrs1 = set_tree_height af adrs 0;
          adrs2 = set_tree_index af adrs1 node_id
      in (case PACKET_get_bytes fors_sig_rpkt n of
            None \<Rightarrow> None
          | Some (sk, rpkt1) \<Rightarrow>
              (case WPACKET_allocate_bytes al wroot_pkt n of
                 None \<Rightarrow> None
               | Some (node0, wpkt1) \<Rightarrow>
                   (case hash_F (key_hash_func (sc_key ctx)) (sc_env ctx) pk_seed adrs2 sk n of
                      None \<Rightarrow> None
                    | Some node \<Rightarrow>
                        (case fors_climb ctx idx node_id 0 a rpkt1 pk_seed adrs2 node of
                           None \<Rightarrow> None
                         | Some (root, rpkt2, adrs3) \<Rightarrow>
                             fors_pk_loop al ctx pk_seed ids (aoff + two_power_a) rpkt2 adrs3
                               (wp_store wpkt1 node0 root))))))"

definition ossl_slh_fors_pk_from_sig ::
    "allocator \<Rightarrow> slh_dsa_hash_ctx \<Rightarrow> packet \<Rightarrow> bytes \<Rightarrow> bytes \<Rightarrow> bytes
       \<Rightarrow> (bytes \<times> packet \<times> bytes) option" where
  "ossl_slh_fors_pk_from_sig al ctx fors_sig_rpkt md pk_seed adrs =
     (let prms = key_params (sc_key ctx); af = key_adrs_func (sc_key ctx)
      in (case WPACKET_init_static_len al (replicate SLH_MAX_ROOTS 0) SLH_MAX_ROOTS 0 of
            None \<Rightarrow> None
          | Some wroot_pkt \<Rightarrow>
              (case slh_base_2b md (sp_a prms) (sp_k prms) of
                 None \<Rightarrow> None
               | Some ids \<Rightarrow>
                   (case fors_pk_loop al ctx pk_seed ids 0 fors_sig_rpkt adrs wroot_pkt of
                      None \<Rightarrow> None
                    | Some (rpkt1, adrs1, wpkt1) \<Rightarrow>
                        let pk_adrs1 = adrs_copy af SLH_ADRS_DECLARE adrs1;
                            pk_adrs2 = set_type_and_clear af pk_adrs1 SLH_ADRS_TYPE_FORS_ROOTS;
                            pk_adrs3 = copy_keypair_address af pk_adrs2 adrs1
                        in (case hash_T (key_hash_func (sc_key ctx)) (sc_env ctx) pk_seed pk_adrs3
                                   (the (GETBUF wpkt1)) (WPACKET_get_total_written wpkt1) of
                              None \<Rightarrow> None
                            | Some pk_out \<Rightarrow>
                                if WPACKET_finish al wpkt1 = None then None
                                else Some (pk_out, rpkt1, adrs1))))))"

section \<open>The digest is cut into groups of bits\<close>

lemma base_2b_fill_eq:
  assumes "b \<le> bits + 8 * length inp" and "bits < b + 8"
  shows "\<exists>k. base_2b_fill b bits (of_nat (be_value done)) inp =
      Some (bits + 8 * k, of_nat (be_value (done @ take k inp)), drop k inp) \<and>
      k \<le> length inp \<and> b \<le> bits + 8 * k \<and> bits + 8 * k < b + 8"
  using assms
proof (induction inp arbitrary: bits "done")
  case (Cons x inp)
  show ?case
  proof (cases "bits < b")
    case True
    have "(push_bit 8 (of_nat (be_value done)) + ucast x :: u32) = of_nat (be_value (done @ [x]))"
      by (simp add: push_bit_eq_mult)
    moreover obtain k where "base_2b_fill b (bits + 8) (of_nat (be_value (done @ [x]))) inp =
      Some (bits + 8 + 8 * k, of_nat (be_value ((done @ [x]) @ take k inp)), drop k inp) \<and>
      k \<le> length inp \<and> b \<le> bits + 8 + 8 * k \<and> bits + 8 + 8 * k < b + 8"
      using Cons.IH [of "bits + 8" "done @ [x]"] Cons.prems True by auto
    ultimately show ?thesis
      using True by (intro exI [of _ "Suc k"]) simp
  next
    case False
    then show ?thesis
      using Cons.prems by (intro exI [of _ 0]) simp
  qed
qed (auto intro: exI [of _ 0])

text \<open>Group \<open>i\<close> of \<open>b\<close> bits, counted from the most significant bit of the bytes read as a number.\<close>

definition bit_group :: "bytes \<Rightarrow> nat \<Rightarrow> nat \<Rightarrow> nat" where
  "bit_group inp b i = be_value inp div 2 ^ (8 * length inp - b * (i + 1)) mod 2 ^ b"

lemma be_value_append: "be_value (xs @ ys) = be_value xs * 2 ^ (8 * length ys) + be_value ys"
proof (induction ys rule: rev_induct)
  case (snoc y ys)
  then show ?case
    by (simp flip: append_assoc add: algebra_simps power_add)
qed simp

lemma be_value_prefix: "be_value (xs @ ys) div 2 ^ (8 * length ys) = be_value xs"
proof -
  have "be_value ys < 2 ^ (8 * length ys)"
    using be_value_less [of ys] by (simp add: power_mult)
  then show ?thesis
    by (simp add: be_value_append)
qed

lemma group_word:
  assumes "bits + b \<le> 32"
  shows "drop_bit bits (of_nat v :: u32) AND (push_bit b 1 - 1) = of_nat (v div 2 ^ bits mod 2 ^ b)"
proof -
  have "drop_bit bits (of_nat v :: u32) AND (push_bit b 1 - 1) = take_bit b (drop_bit bits (of_nat v))"
    by (simp add: take_bit_eq_mask mask_eq_exp_minus_1 push_bit_eq_mult)
  also have "\<dots> = of_nat (take_bit b (drop_bit bits v))"
    by (rule bit_word_eqI) (use assms in \<open>auto simp: bit_simps\<close>)
  also have "\<dots> = of_nat (v div 2 ^ bits mod 2 ^ b)"
    by (simp add: take_bit_eq_mod drop_bit_eq_div)
  finally show ?thesis .
qed

lemma base_2b_loop_eq:
  assumes "b \<le> 24" and "0 < b" and "all = done @ inp" and "8 * length done = b * i + bits" and "bits < 8"
    and "b * (i + todo) \<le> 8 * length all"
  shows "base_2b_loop b bits (of_nat (be_value done)) inp todo =
      Some (map (\<lambda>j. of_nat (bit_group all b j)) [i..<i + todo])"
  using assms(3-6)
proof (induction todo arbitrary: "done" inp i bits)
  case 0
  then show ?case by simp
next
  case (Suc todo)
  have "b \<le> bits + 8 * length inp" "bits < b + 8"
    using Suc.prems by (simp_all add: algebra_simps)
  from base_2b_fill_eq [OF this, of "done"] obtain k where
    k: "base_2b_fill b bits (of_nat (be_value done)) inp =
      Some (bits + 8 * k, of_nat (be_value (done @ take k inp)), drop k inp)"
      "k \<le> length inp" "b \<le> bits + 8 * k" "bits + 8 * k < b + 8"
    by blast
  define bits' where "bits' = bits + 8 * k - b"
  define fr where "fr = done @ take k inp"
  have all: "all = fr @ drop k inp" and fr: "8 * length fr = b * Suc i + bits'" and b': "bits' < 8"
    using Suc.prems k by (simp_all add: fr_def bits'_def algebra_simps)
  have "8 * length all - b * (i + 1) = 8 * length (drop k inp) + bits'"
    using fr all by simp
  then have g: "bit_group all b i = be_value fr div 2 ^ bits' mod 2 ^ b"
    by (simp add: bit_group_def all power_add div_mult2_eq be_value_prefix del: length_drop)
  have "b * (Suc i + todo) \<le> 8 * length all"
    using Suc.prems by simp
  from Suc.IH [OF all fr b' this] show ?case
    using k(1) group_word [of bits' b "be_value fr"] b' assms(1)
    by (simp add: g upt_Suc_first Let_def del: upt_Suc add_Suc_right flip: bits'_def fr_def)
qed

lemma slh_base_2b_eq:
  assumes "0 < b" and "b \<le> 24" and "b * out_len \<le> 8 * length inp"
  shows "slh_base_2b inp b out_len = Some (map (\<lambda>j. of_nat (bit_group inp b j)) [0..<out_len])"
  using base_2b_loop_eq [of b inp "[]" inp 0 0 out_len] assms by (simp add: slh_base_2b_def)

lemma bit_group_less: "bit_group inp b i < 2 ^ b"
  by (simp add: bit_group_def)

section \<open>What FORS computes\<close>

context slh_scheme
begin

abbreviation ctx_a :: "slh_dsa_hash_ctx \<Rightarrow> nat" where
  "ctx_a ctx \<equiv> sp_a (key_params (sc_key ctx))"

abbreviation ctx_k :: "slh_dsa_hash_ctx \<Rightarrow> nat" where
  "ctx_k ctx \<equiv> sp_k (key_params (sc_key ctx))"

definition fh :: "slh_dsa_hash_ctx \<Rightarrow> bytes \<Rightarrow> adr \<Rightarrow> node_hash" where
  "fh ctx pk a h i x y = sH ctx pk (a\<lparr>adr_chain := of_nat h, adr_hash := i\<rparr>) x y"

definition fsk :: "slh_dsa_hash_ctx \<Rightarrow> bytes \<Rightarrow> bytes \<Rightarrow> adr \<Rightarrow> u32 \<Rightarrow> bytes" where
  "fsk ctx sk pk a i =
     sPRF ctx sk pk ((adr_type_clear a SLH_ADRS_TYPE_FORS_PRF)\<lparr>adr_keypair := adr_keypair a, adr_hash := i\<rparr>)"

definition fleaf_of :: "slh_dsa_hash_ctx \<Rightarrow> bytes \<Rightarrow> adr \<Rightarrow> u32 \<Rightarrow> bytes \<Rightarrow> bytes" where
  "fleaf_of ctx pk a i x = sF ctx pk (a\<lparr>adr_chain := 0, adr_hash := i\<rparr>) x"

definition fleaf :: "slh_dsa_hash_ctx \<Rightarrow> bytes \<Rightarrow> bytes \<Rightarrow> adr \<Rightarrow> u32 \<Rightarrow> bytes" where
  "fleaf ctx sk pk a i = fleaf_of ctx pk a i (fsk ctx sk pk a i)"

abbreviation fnode :: "slh_dsa_hash_ctx \<Rightarrow> bytes \<Rightarrow> bytes \<Rightarrow> adr \<Rightarrow> nat \<Rightarrow> u32 \<Rightarrow> bytes" where
  "fnode ctx sk pk a \<equiv> tnode (fh ctx pk a) (fleaf ctx sk pk a)"

abbreviation fauth :: "slh_dsa_hash_ctx \<Rightarrow> bytes \<Rightarrow> bytes \<Rightarrow> adr \<Rightarrow> u32 \<Rightarrow> nat \<Rightarrow> nat \<Rightarrow> bytes list" where
  "fauth ctx sk pk a \<equiv> tauth (fh ctx pk a) (fleaf ctx sk pk a)"

text \<open>The last two words of the address are always set before they are used.\<close>

lemma adr_type_clear_last [simp]:
  "adr_type_clear (a\<lparr>adr_chain := c\<rparr>) y = adr_type_clear a y" "adr_type_clear (a\<lparr>adr_hash := c\<rparr>) y = adr_type_clear a y"
  by (simp_all add: adr_type_clear_def)

lemma fors_last [simp]:
  "fh ctx pk (a\<lparr>adr_chain := c\<rparr>) = fh ctx pk a" "fh ctx pk (a\<lparr>adr_hash := c\<rparr>) = fh ctx pk a"
  "fsk ctx sk pk (a\<lparr>adr_chain := c\<rparr>) = fsk ctx sk pk a" "fsk ctx sk pk (a\<lparr>adr_hash := c\<rparr>) = fsk ctx sk pk a"
  "fleaf_of ctx pk (a\<lparr>adr_chain := c\<rparr>) = fleaf_of ctx pk a" "fleaf_of ctx pk (a\<lparr>adr_hash := c\<rparr>) = fleaf_of ctx pk a"
  by (simp_all add: fh_def fsk_def fleaf_of_def fun_eq_iff)

lemma fleaf_last [simp]:
  "fleaf ctx sk pk (a\<lparr>adr_chain := c\<rparr>) = fleaf ctx sk pk a" "fleaf ctx sk pk (a\<lparr>adr_hash := c\<rparr>) = fleaf ctx sk pk a"
  by (simp_all add: fleaf_def fun_eq_iff)

lemma length_fors:
  assumes "ctx_ok ctx"
  shows "length (fh ctx pk a h i x y) = ctx_n ctx" and "length (fsk ctx sk pk a i) = ctx_n ctx"
    and "length (fleaf_of ctx pk a i x) = ctx_n ctx" and "length (fleaf ctx sk pk a i) = ctx_n ctx"
  by (simp_all add: fh_def fsk_def fleaf_of_def fleaf_def ctx_okD [OF assms])

lemma fors_sk_gen_eq: "ctx_ok ctx \<Longrightarrow> slh_fors_sk_gen ctx sk pk (enc a) i = Some (fsk ctx sk pk a i)"
  by (simp add: slh_fors_sk_gen_def ctx_okD enc_simps fsk_def Let_def)

lemma fors_node_eq:
  assumes ctx: "ctx_ok ctx"
  shows "\<exists>c d. slh_fors_node ctx sk pk (enc a) i h =
     Some (fnode ctx sk pk a h i, enc (a\<lparr>adr_chain := c, adr_hash := d\<rparr>))"
proof (induction h arbitrary: a i)
  case 0
  show ?case
    by - (rule exI [of _ 0], rule exI [of _ i],
        simp add: fors_sk_gen_eq [OF ctx] ctx_okD [OF ctx] enc_simps fleaf_def fleaf_of_def)
next
  case (Suc h)
  obtain c d where l: "slh_fors_node ctx sk pk (enc a) (2 * i) h =
     Some (fnode ctx sk pk a h (2 * i), enc (a\<lparr>adr_chain := c, adr_hash := d\<rparr>))"
    using Suc.IH by blast
  obtain c' d' where r: "slh_fors_node ctx sk pk (enc (a\<lparr>adr_chain := c, adr_hash := d\<rparr>)) (2 * i + 1) h =
     Some (fnode ctx sk pk a h (2 * i + 1), enc (a\<lparr>adr_chain := c', adr_hash := d'\<rparr>))"
    using Suc.IH [of "a\<lparr>adr_chain := c, adr_hash := d\<rparr>" "2 * i + 1"] by auto
  show ?case
    using l r
    by - (rule exI [of _ "of_nat (Suc h)"], rule exI [of _ i],
        simp add: ctx_okD [OF ctx] enc_simps del: of_nat_Suc flip: fh_def)
qed

lemma fors_auth_path_eq:
  assumes ctx: "ctx_ok ctx" and "split_idx todo pos off" and "wp_static p" and "todo * ctx_n ctx \<le> wp_room p"
  shows "\<exists>c d. fors_auth_path al ctx sk pk pos off h todo (enc a) p =
     Some (enc (a\<lparr>adr_chain := c, adr_hash := d\<rparr>), wp_append p (concat (fauth ctx sk pk a (pos + off) h todo)))"
  using assms(2-4)
proof (induction todo arbitrary: pos off h p a)
  case 0
  show ?case
    by - (rule exI [of _ "adr_chain a"], rule exI [of _ "adr_hash a"], simp)
next
  case (Suc todo)
  let ?x = "fnode ctx sk pk a h ((pos + off) XOR 1)"
  have x: "length ?x = ctx_n ctx"
    by (intro length_tnode length_fors ctx)
  obtain c d where n: "slh_fors_node ctx sk pk (enc a) ((pos + off) XOR 1) h =
     Some (?x, enc (a\<lparr>adr_chain := c, adr_hash := d\<rparr>))"
    using fors_node_eq [OF ctx] by blast
  have p': "wp_static (wp_append p ?x)" "todo * ctx_n ctx \<le> wp_room (wp_append p ?x)"
    using Suc.prems x wp_append_static [OF Suc.prems(2)] by simp_all
  obtain c' d' where "fors_auth_path al ctx sk pk (drop_bit 1 pos) (drop_bit 1 off) (Suc h) todo
      (enc (a\<lparr>adr_chain := c, adr_hash := d\<rparr>)) (wp_append p ?x) =
     Some (enc (a\<lparr>adr_chain := c', adr_hash := d'\<rparr>),
       wp_append (wp_append p ?x) (concat (fauth ctx sk pk a (drop_bit 1 (pos + off)) (Suc h) todo)))"
    using Suc.IH [OF split_idx_step [OF Suc.prems(1)] p', where a = "a\<lparr>adr_chain := c, adr_hash := d\<rparr>" and h = "Suc h"]
      split_idx_sibling(2) [OF Suc.prems(1)] by auto
  then show ?case
    using n x Suc.prems split_idx_sibling(1) [OF Suc.prems(1)]
    by - (rule exI [of _ c'], rule exI [of _ d'], simp add: memcpy_static Let_def)
qed

text \<open>The part of a signature for the trees from \<open>t\<close> on.\<close>

definition tree_sig :: "slh_dsa_hash_ctx \<Rightarrow> bytes \<Rightarrow> bytes \<Rightarrow> adr \<Rightarrow> u32 \<Rightarrow> bytes" where
  "tree_sig ctx sk pk a i = fsk ctx sk pk a i @ concat (fauth ctx sk pk a i 0 (ctx_a ctx))"

primrec fors_sig :: "slh_dsa_hash_ctx \<Rightarrow> bytes \<Rightarrow> bytes \<Rightarrow> adr \<Rightarrow> nat \<Rightarrow> u32 list \<Rightarrow> bytes" where
  "fors_sig ctx sk pk a t [] = []"
| "fors_sig ctx sk pk a t (i # ids) =
     tree_sig ctx sk pk a (i + push_bit (ctx_a ctx) (of_nat t)) @ fors_sig ctx sk pk a (Suc t) ids"

lemma length_fauth_chunk:
  "ctx_ok ctx \<Longrightarrow> s \<in> set (fauth ctx sk pk a i h todo) \<Longrightarrow> length s = ctx_n ctx"
  by (rule length_tauth_chunk [OF length_fors(1) length_fors(4)])

lemma length_tree_sig: "ctx_ok ctx \<Longrightarrow> length (tree_sig ctx sk pk a i) = Suc (ctx_a ctx) * ctx_n ctx"
  unfolding tree_sig_def length_append
  by (subst length_concat_const [of _ "ctx_n ctx"]) (auto simp: length_fors length_fauth_chunk)

lemma length_fors_sig:
  "ctx_ok ctx \<Longrightarrow> length (fors_sig ctx sk pk a t ids) = length ids * (Suc (ctx_a ctx) * ctx_n ctx)"
  by (induction ids arbitrary: t) (simp_all add: length_tree_sig)

text \<open>Every position is below \<open>2^a\<close>, and there are no more trees than fit above it.\<close>

definition ids_ok :: "slh_dsa_hash_ctx \<Rightarrow> u32 list \<Rightarrow> bool" where
  "ids_ok ctx ids \<longleftrightarrow> (\<forall>i \<in> set ids. take_bit (ctx_a ctx) i = i)"

lemma ids_split:
  assumes "take_bit h i = (i :: u32)"
  shows "split_idx h i (push_bit h (of_nat t))"
proof -
  have "take_bit h (push_bit h (of_nat t :: u32)) = 0"
    by (rule bit_word_eqI) (auto simp: bit_simps)
  with assms show ?thesis
    by (simp add: split_idx_def)
qed

lemma next_offset: "push_bit h (of_nat t :: u32) + push_bit h 1 = push_bit h (of_nat (Suc t))"
  by (simp add: push_bit_eq_mult algebra_simps)

lemma fors_sign_loop_eq:
  assumes ctx: "ctx_ok ctx" and "ids_ok ctx ids"
    and "wp_static p" and "length ids * (Suc (ctx_a ctx) * ctx_n ctx) \<le> wp_room p"
  shows "\<exists>c d. fors_sign_loop al ctx sk pk ids (push_bit (ctx_a ctx) (of_nat t)) (enc a) p =
     Some (enc (a\<lparr>adr_chain := c, adr_hash := d\<rparr>), wp_append p (fors_sig ctx sk pk a t ids))"
  using assms(2-4)
proof (induction ids arbitrary: t p a)
  case Nil
  show ?case
    by - (rule exI [of _ "adr_chain a"], rule exI [of _ "adr_hash a"], simp)
next
  case (Cons i ids)
  let ?off = "push_bit (ctx_a ctx) (of_nat t) :: u32"
  let ?x = "fsk ctx sk pk a (i + ?off)"
  let ?y = "concat (fauth ctx sk pk a (i + ?off) 0 (ctx_a ctx))"
  have i: "take_bit (ctx_a ctx) i = i" "ids_ok ctx ids"
    using Cons.prems by (simp_all add: ids_ok_def)
  have x: "length ?x = ctx_n ctx"
    by (intro length_fors ctx)
  have xy: "length ?x + length ?y = Suc (ctx_a ctx) * ctx_n ctx"
    using length_tree_sig [OF ctx, of sk pk a "i + ?off"] by (simp add: tree_sig_def)
  have n: "ctx_n ctx \<le> wp_room p" "Suc (ctx_a ctx) * ctx_n ctx \<le> wp_room p"
    using Cons.prems(3) by simp_all
  have p1: "wp_static (wp_append p ?x)" "ctx_a ctx * ctx_n ctx \<le> wp_room (wp_append p ?x)"
    using n x wp_append_static [OF Cons.prems(2)] by simp_all
  have p2: "wp_static (wp_append p (?x @ ?y))" "length ids * (Suc (ctx_a ctx) * ctx_n ctx) \<le> wp_room (wp_append p (?x @ ?y))"
    using n xy Cons.prems(3) wp_append_static [OF Cons.prems(2)] by simp_all
  obtain c d where "fors_auth_path al ctx sk pk i ?off 0 (ctx_a ctx) (enc a) (wp_append p ?x) =
     Some (enc (a\<lparr>adr_chain := c, adr_hash := d\<rparr>), wp_append (wp_append p ?x) ?y)"
    using fors_auth_path_eq [OF ctx ids_split [OF i(1)] p1] by blast
  moreover obtain c' d' where "fors_sign_loop al ctx sk pk ids (push_bit (ctx_a ctx) (of_nat (Suc t)))
      (enc (a\<lparr>adr_chain := c, adr_hash := d\<rparr>)) (wp_append p (?x @ ?y)) =
     Some (enc (a\<lparr>adr_chain := c', adr_hash := d'\<rparr>), wp_append (wp_append p (?x @ ?y))
       (fors_sig ctx sk pk (a\<lparr>adr_chain := c, adr_hash := d\<rparr>) (Suc t) ids))"
    using Cons.IH [OF i(2) p2, of "Suc t" "a\<lparr>adr_chain := c, adr_hash := d\<rparr>"] by auto
  moreover have "fors_sig ctx sk pk (a\<lparr>adr_chain := c, adr_hash := d\<rparr>) (Suc t) ids = fors_sig ctx sk pk a (Suc t) ids"
    by (induction ids arbitrary: t) (simp_all add: tree_sig_def)
  ultimately show ?case
    using n x Cons.prems(2)
    by - (rule exI [of _ c'], rule exI [of _ d'],
        simp add: fors_sk_gen_eq [OF ctx] memcpy_static tree_sig_def Let_def next_offset del: of_nat_Suc push_bit_of_1)
qed

end

lemma tree_of_index:
  assumes "take_bit h i = i" and "t < 64" and "h \<le> 26"
  shows "drop_bit h (i + push_bit h (of_nat t) :: u32) = of_nat t"
proof -
  have s: "split_idx h i (push_bit h (of_nat t))"
    using assms(1) by (simp add: split_idx_def) (rule bit_word_eqI, auto simp: bit_simps)
  have i: "n < h" if "bit i n" for n
    using split_idxD(1) [OF s that] .
  have t: "n < 6" if "bit t n" for n
  proof (rule ccontr)
    assume "\<not> n < 6"
    then have "t < 2 ^ n"
      using assms(2) power_increasing [of 6 n "2 :: nat"] by simp
    with that show False
      by (simp add: bit_iff_odd)
  qed
  show ?thesis
    unfolding split_idx_add [OF s]
    by (rule bit_word_eqI) (use assms(3) t i in \<open>fastforce simp: bit_simps\<close>)
qed

context slh_scheme
begin

lemma fors_climb_eq:
  assumes ctx: "ctx_ok ctx" and "split_idx (length ss) pos off"
    and "pkt_ok r" and "pkt_bytes r = concat ss @ rest" and "\<forall>s \<in> set ss. length s = ctx_n ctx"
  shows "\<exists>r' c' d'. fors_climb ctx pos (pos + off) j (length ss) r pk (enc (a\<lparr>adr_chain := c, adr_hash := d\<rparr>)) x =
     Some (climb (fh ctx pk a) (pos + off) j x ss, r', enc (a\<lparr>adr_chain := c', adr_hash := d'\<rparr>)) \<and>
     pkt_ok r' \<and> pkt_bytes r' = rest"
  using assms(2-5)
proof (induction ss arbitrary: pos off j r c d x)
  case Nil
  then show ?case
    by - (rule exI [of _ r], rule exI [of _ c], rule exI [of _ d], simp)
next
  case (Cons s ss)
  let ?i = "pos + off"
  let ?y = "if ?i AND 1 = 0 then fh ctx pk a (Suc j) (drop_bit 1 ?i) x s else fh ctx pk a (Suc j) (drop_bit 1 ?i) s x"
  have sp: "split_idx (Suc (length ss)) pos off"
    using Cons.prems by simp
  have b: "pkt_bytes r = s @ concat ss @ rest" and s: "length s = ctx_n ctx"
    and ss: "\<forall>s \<in> set ss. length s = ctx_n ctx"
    using Cons.prems by simp_all
  note rd = read_chunk [OF Cons.prems(2) b, unfolded s]
  obtain r' c' d' where "fors_climb ctx (drop_bit 1 pos) (drop_bit 1 ?i) (Suc j) (length ss) (packet_forward r (ctx_n ctx)) pk
      (enc (a\<lparr>adr_chain := of_nat (Suc j), adr_hash := drop_bit 1 ?i\<rparr>)) ?y =
     Some (climb (fh ctx pk a) (drop_bit 1 ?i) (Suc j) ?y ss, r', enc (a\<lparr>adr_chain := c', adr_hash := d'\<rparr>))"
     "pkt_ok r'" "pkt_bytes r' = rest"
    using Cons.IH [OF split_idx_step [OF sp] rd(2,3) ss] split_idx_sibling(2) [OF sp] by metis
  then show ?case
    using sibling_odd [of ?i] split_idx_sibling [OF sp]
    by - (rule exI [of _ r'], rule exI [of _ c'], rule exI [of _ d'],
      simp add: rd(1) ctx_okD [OF ctx] enc_simps Let_def del: of_nat_Suc split: if_splits flip: fh_def)
qed

definition fors_roots :: "slh_dsa_hash_ctx \<Rightarrow> bytes \<Rightarrow> bytes \<Rightarrow> adr \<Rightarrow> nat \<Rightarrow> nat \<Rightarrow> bytes" where
  "fors_roots ctx sk pk a t k = concat (map (\<lambda>i. fnode ctx sk pk a (ctx_a ctx) (of_nat i)) [t..<t + k])"

lemma ctx_ak_bounds: "ctx_ok ctx \<Longrightarrow> 0 < ctx_a ctx \<and> ctx_a ctx \<le> 14 \<and> 0 < ctx_k ctx \<and> ctx_k ctx \<le> 35"
  using ctx_okD(11) [of ctx] unfolding slh_params_ok_def by auto

lemma length_fnode: "ctx_ok ctx \<Longrightarrow> length (fnode ctx sk pk a h i) = ctx_n ctx"
  by (rule length_tnode [OF length_fors(1) length_fors(4)])

lemma fors_pk_loop_eq:
  assumes ctx: "ctx_ok ctx" and "ids_ok ctx ids" and "t + length ids \<le> 35"
    and "pkt_ok r" and "pkt_bytes r = fors_sig ctx sk pk a t ids @ rest"
    and "wp_static p" and "length ids * ctx_n ctx \<le> wp_room p"
  shows "\<exists>r' c' d'. fors_pk_loop al ctx pk ids (push_bit (ctx_a ctx) (of_nat t)) r (enc (a\<lparr>adr_chain := c, adr_hash := d\<rparr>)) p =
     Some (r', enc (a\<lparr>adr_chain := c', adr_hash := d'\<rparr>), wp_append p (fors_roots ctx sk pk a t (length ids))) \<and>
     pkt_ok r' \<and> pkt_bytes r' = rest"
  using assms(2-7)
proof (induction ids arbitrary: t p r c d)
  case Nil
  then show ?case
    by - (rule exI [of _ r], rule exI [of _ c], rule exI [of _ d], simp add: fors_roots_def)
next
  case (Cons i ids)
  let ?off = "push_bit (ctx_a ctx) (of_nat t) :: u32" and ?n = "ctx_n ctx"
  let ?i = "i + ?off"
  let ?path = "fauth ctx sk pk a ?i 0 (ctx_a ctx)"
  let ?root = "fnode ctx sk pk a (ctx_a ctx) (of_nat t)"
  let ?tl = "fors_sig ctx sk pk a (Suc t) ids @ rest"
  have i: "take_bit (ctx_a ctx) i = i" "ids_ok ctx ids"
    using Cons.prems by (simp_all add: ids_ok_def)
  have b: "pkt_bytes r = fsk ctx sk pk a ?i @ concat ?path @ ?tl"
    using Cons.prems(4) by (simp add: tree_sig_def)
  note rd = read_chunk [OF Cons.prems(3) b, unfolded length_fors(2) [OF ctx]]
  have sp: "split_idx (length ?path) i ?off"
    using ids_split [OF i(1)] by simp
  have "climb (fh ctx pk a) ?i 0 (fleaf ctx sk pk a ?i) ?path = ?root"
    using climb_tauth [of "fh ctx pk a" ?i 0 "fleaf ctx sk pk a" "ctx_a ctx"]
      tree_of_index [OF i(1), of t] Cons.prems(2) ctx_ak_bounds [OF ctx] by simp
  moreover have "\<forall>s \<in> set ?path. length s = ?n"
    using length_fauth_chunk [OF ctx] by blast
  ultimately obtain r' c' d' where cl: "fors_climb ctx i ?i 0 (ctx_a ctx) (packet_forward r ?n) pk
      (enc (a\<lparr>adr_chain := 0, adr_hash := ?i\<rparr>)) (fleaf ctx sk pk a ?i) =
      Some (?root, r', enc (a\<lparr>adr_chain := c', adr_hash := d'\<rparr>))" "pkt_ok r'" "pkt_bytes r' = ?tl"
    using fors_climb_eq [OF ctx sp rd(2,3), where j = 0 and a = a and c = 0 and d = ?i and pk = pk and x = "fleaf ctx sk pk a ?i"]
    by auto
  have root: "length ?root = ?n"
    by (rule length_fnode [OF ctx])
  have n: "0 < ?n" "?n \<le> wp_room p"
    using Cons.prems(6) ctx_n_bounds [OF ctx] by simp_all
  have p': "wp_static (wp_append p ?root)" "length ids * ?n \<le> wp_room (wp_append p ?root)"
    using Cons.prems root wp_append_static [OF Cons.prems(5)] n by simp_all
  have t': "Suc t + length ids \<le> 35"
    using Cons.prems(2) by simp
  obtain r'' c'' d'' where "fors_pk_loop al ctx pk ids (push_bit (ctx_a ctx) (of_nat (Suc t))) r'
      (enc (a\<lparr>adr_chain := c', adr_hash := d'\<rparr>)) (wp_append p ?root) =
     Some (r'', enc (a\<lparr>adr_chain := c'', adr_hash := d''\<rparr>),
       wp_append (wp_append p ?root) (fors_roots ctx sk pk a (Suc t) (length ids)))"
     "pkt_ok r''" "pkt_bytes r'' = rest"
    using Cons.IH [OF i(2) t' cl(2,3) p'] by blast
  moreover have "fors_roots ctx sk pk a t (length (i # ids)) = ?root @ fors_roots ctx sk pk a (Suc t) (length ids)"
    by (simp only: fors_roots_def upt_Suc_first length_Cons list.map concat.simps)
  ultimately show ?case
    using rd(1) cl(1) n store_allocated_static [OF Cons.prems(5) root]
    by - (rule exI [of _ r''], rule exI [of _ c''], rule exI [of _ d''],
      simp add: ctx_okD [OF ctx] enc_simps allocate_static [OF Cons.prems(5)] Let_def next_offset
        fleaf_def fleaf_of_def del: of_nat_Suc push_bit_of_1)
qed

definition fors_pk :: "slh_dsa_hash_ctx \<Rightarrow> bytes \<Rightarrow> bytes \<Rightarrow> adr \<Rightarrow> bytes" where
  "fors_pk ctx sk pk a =
     sT ctx pk ((adr_type_clear a SLH_ADRS_TYPE_FORS_ROOTS)\<lparr>adr_keypair := adr_keypair a\<rparr>)
       (fors_roots ctx sk pk a 0 (ctx_k ctx))"

definition fors_ids :: "slh_dsa_hash_ctx \<Rightarrow> bytes \<Rightarrow> u32 list" where
  "fors_ids ctx md = map (\<lambda>j. of_nat (bit_group md (ctx_a ctx) j)) [0..<ctx_k ctx]"

abbreviation fors_sig_len :: "slh_dsa_hash_ctx \<Rightarrow> nat" where
  "fors_sig_len ctx \<equiv> ctx_k ctx * (Suc (ctx_a ctx) * ctx_n ctx)"

lemma fors_ids:
  assumes "ctx_ok ctx" and "ctx_a ctx * ctx_k ctx \<le> 8 * length md"
  shows "slh_base_2b md (ctx_a ctx) (ctx_k ctx) = Some (fors_ids ctx md)"
    and "ids_ok ctx (fors_ids ctx md)" and "length (fors_ids ctx md) = ctx_k ctx"
proof -
  note b = ctx_ak_bounds [OF assms(1)]
  show "slh_base_2b md (ctx_a ctx) (ctx_k ctx) = Some (fors_ids ctx md)"
    using slh_base_2b_eq [of "ctx_a ctx" "ctx_k ctx" md] b assms(2) by (simp add: fors_ids_def)
  have "take_bit (ctx_a ctx) (of_nat v :: u32) = of_nat v" if "v < 2 ^ ctx_a ctx" for v
  proof -
    have "take_bit (ctx_a ctx) (of_nat v :: u32) = of_nat (take_bit (ctx_a ctx) v)"
      by (rule bit_word_eqI) (auto simp: bit_simps)
    with that show ?thesis
      by (simp add: take_bit_nat_eq_self)
  qed
  then show "ids_ok ctx (fors_ids ctx md)"
    using bit_group_less by (auto simp: ids_ok_def fors_ids_def)
  show "length (fors_ids ctx md) = ctx_k ctx"
    by (simp add: fors_ids_def)
qed

lemma fors_sign_eq:
  assumes ctx: "ctx_ok ctx" and md: "ctx_a ctx * ctx_k ctx \<le> 8 * length md"
    and p: "wp_static p" "fors_sig_len ctx \<le> wp_room p"
  shows "\<exists>c d. ossl_slh_fors_sign al ctx md sk pk (enc a) p =
     Some (enc (a\<lparr>adr_chain := c, adr_hash := d\<rparr>), wp_append p (fors_sig ctx sk pk a 0 (fors_ids ctx md)))"
  using fors_sign_loop_eq [OF ctx fors_ids(2) [OF ctx md] p(1), of al sk pk 0 a] p(2) fors_ids [OF ctx md]
  by (simp add: ossl_slh_fors_sign_def Let_def)

lemma roots_writer:
  assumes "al sizeof_wpacket_sub"
  obtains p where "WPACKET_init_static_len al (replicate SLH_MAX_ROOTS 0) SLH_MAX_ROOTS 0 = Some p"
    and "wp_static p" and "wp_written p = 0" and "wp_room p = SLH_MAX_ROOTS" and "wp_subs p = [new_sub]"
  using init_static_ok [of al SLH_MAX_ROOTS "replicate SLH_MAX_ROOTS 0"] assms
  by (auto simp: SLH_MAX_ROOTS_def SLH_MAX_A_def SLH_MAX_K_def SLH_MAX_N_def SIZE_MAX_def)

text \<open>The candidate for a signature of the code is the FORS public key, whatever was signed.\<close>

lemma fors_pk_from_own_sig:
  assumes ctx: "ctx_ok ctx" and al: "al sizeof_wpacket_sub" and md: "ctx_a ctx * ctx_k ctx \<le> 8 * length md"
    and r: "pkt_ok r" "pkt_bytes r = fors_sig ctx sk pk a 0 (fors_ids ctx md) @ rest"
  shows "\<exists>r' c d. ossl_slh_fors_pk_from_sig al ctx r md pk (enc a) =
     Some (fors_pk ctx sk pk a, r', enc (a\<lparr>adr_chain := c, adr_hash := d\<rparr>)) \<and>
     pkt_ok r' \<and> pkt_bytes r' = rest"
proof -
  obtain p where p: "WPACKET_init_static_len al (replicate SLH_MAX_ROOTS 0) SLH_MAX_ROOTS 0 = Some p"
    "wp_static p" "wp_written p = 0" "wp_room p = SLH_MAX_ROOTS" "wp_subs p = [new_sub]"
    using roots_writer [of al] al by blast
  note ids = fors_ids [OF ctx md]
  let ?ds = "fors_roots ctx sk pk a 0 (ctx_k ctx)"
  have "ctx_k ctx * ctx_n ctx \<le> 35 * 32"
    using ctx_ak_bounds [OF ctx] ctx_n_bounds [OF ctx] by (intro mult_le_mono) auto
  then have room: "ctx_k ctx * ctx_n ctx \<le> wp_room p"
    by (simp add: p(4) SLH_MAX_ROOTS_def SLH_MAX_A_def SLH_MAX_K_def SLH_MAX_N_def)
  have len: "length ?ds \<le> wp_room p"
    using room unfolding fors_roots_def
    by (subst length_concat_const [of _ "ctx_n ctx"]) (auto simp: length_fnode [OF ctx])
  have k: "0 + length (fors_ids ctx md) \<le> 35" "length (fors_ids ctx md) * ctx_n ctx \<le> wp_room p"
    using ids(3) ctx_ak_bounds [OF ctx] room by simp_all
  obtain r' c d where l: "fors_pk_loop al ctx pk (fors_ids ctx md) 0 r (enc a) p =
     Some (r', enc (a\<lparr>adr_chain := c, adr_hash := d\<rparr>), wp_append p ?ds)" "pkt_ok r'" "pkt_bytes r' = rest"
    using fors_pk_loop_eq [OF ctx ids(2) k(1) r p(2) k(2), where al = al and c = "adr_chain a" and d = "adr_hash a"] ids(3) by auto
  have "WPACKET_finish al (wp_append p ?ds) \<noteq> None"
    using finish_static [OF wp_append_static [OF p(2) len], of new_sub] p(5)
    by (simp add: wp_append_def new_sub_def)
  with l p(1) ids(1) hash_T_written [OF ctx p(2,3) len] show ?thesis
    by - (rule exI [of _ r'], rule exI [of _ c], rule exI [of _ d],
      simp add: ossl_slh_fors_pk_from_sig_def ctx_okD(1,2) [OF ctx] enc_simps fors_pk_def Let_def)
qed

end

end
