(* ===== verification/Slh_Dsa.thy ===== *)
theory Slh_Dsa
  imports Slh_Fors
begin

text \<open>
  Signing and verifying (\<open>crypto/slh_dsa/slh_dsa.c\<close>). A buffer argument is the list of its bytes and
  a null pointer \<open>None\<close>; \<open>None\<close> as a result is the return value 0.
\<close>

section \<open>Tree and leaf of a message\<close>

definition SLH_MAX_M :: nat where "SLH_MAX_M = 49"

definition MD_LEN :: "slh_dsa_params \<Rightarrow> nat" where
  "MD_LEN prms = drop_bit 3 (sp_k prms * sp_a prms + 7)"

definition bytes_to_u64_be :: "bytes \<Rightarrow> nat \<Rightarrow> u64" where
  "bytes_to_u64_be inp in_len = foldl (\<lambda>tot b. push_bit 8 tot + ucast b) 0 (take in_len inp)"

definition get_tree_ids :: "packet \<Rightarrow> slh_dsa_params \<Rightarrow> (u64 \<times> u32 \<times> packet) option" where
  "get_tree_ids rpkt prms =
     (let tree_id_len = drop_bit 3 (sp_h prms - sp_hm prms + 7);
          leaf_id_len = drop_bit 3 (sp_hm prms + 7)
      in (case PACKET_get_bytes rpkt tree_id_len of
            None \<Rightarrow> None
          | Some (tree_id_bytes, rpkt1) \<Rightarrow>
              (case PACKET_get_bytes rpkt1 leaf_id_len of
                 None \<Rightarrow> None
               | Some (leaf_id_bytes, rpkt2) \<Rightarrow>
                   let tree_id_mask = drop_bit (64 - (sp_h prms - sp_hm prms)) (NOT 0) :: u64;
                       leaf_id_mask = push_bit (sp_hm prms) 1 - 1 :: u64
                   in Some (bytes_to_u64_be tree_id_bytes tree_id_len AND tree_id_mask,
                            ucast (bytes_to_u64_be leaf_id_bytes leaf_id_len AND leaf_id_mask), rpkt2))))"

section \<open>Signing\<close>

text \<open>
  The part of \<open>slh_sign_internal\<close> from the digest on: \<open>m_digest\<close> holds what \<open>H_MSG\<close> wrote, and
  \<open>rpkt\<close> covers its first \<open>m\<close> bytes.
\<close>

definition sign_with_digest ::
    "allocator \<Rightarrow> slh_dsa_hash_ctx \<Rightarrow> bytes \<Rightarrow> wpacket \<Rightarrow> wpacket option" where
  "sign_with_digest al hctx m_digest wpkt =
     (let priv = sc_key hctx; prms = key_params priv; af = key_adrs_func priv;
          pk_seed = SLH_DSA_PK_SEED priv; sk_seed = SLH_DSA_SK_SEED priv;
          adrs = adrs_zero af SLH_ADRS_DECLARE
      in (case PACKET_buf_init m_digest (sp_m prms) of
            None \<Rightarrow> None
          | Some rpkt \<Rightarrow>
              (case PACKET_get_bytes rpkt (MD_LEN prms) of
                 None \<Rightarrow> None
               | Some (md, rpkt1) \<Rightarrow>
                   (case get_tree_ids rpkt1 prms of
                      None \<Rightarrow> None
                    | Some (tree_id, leaf_id, _) \<Rightarrow>
                        let adrs1 = set_tree_address af adrs tree_id;
                            adrs2 = set_type_and_clear af adrs1 SLH_ADRS_TYPE_FORS_TREE;
                            adrs3 = set_keypair_address af adrs2 leaf_id;
                            sig_fors = WPACKET_get_curr wpkt
                        in (case ossl_slh_fors_sign al hctx md sk_seed pk_seed adrs3 wpkt of
                              None \<Rightarrow> None
                            | Some (adrs4, wpkt1) \<Rightarrow>
                                (case PACKET_buf_init (drop (the sig_fors) (the (GETBUF wpkt1)))
                                        (the (WPACKET_get_curr wpkt1) - the sig_fors) of
                                   None \<Rightarrow> None
                                 | Some rpkt2 \<Rightarrow>
                                     (case ossl_slh_fors_pk_from_sig al hctx rpkt2 md pk_seed adrs4 of
                                        None \<Rightarrow> None
                                      | Some (pk_fors, _, _) \<Rightarrow>
                                          ossl_slh_ht_sign al hctx pk_fors sk_seed pk_seed tree_id leaf_id wpkt1)))))))"

text \<open>
  The result is the context, whose MAC may have been set up, and \<open>*sig_len\<close> with the buffer \<open>sig\<close>.
\<close>

definition slh_sign_internal ::
    "allocator \<Rightarrow> slh_dsa_hash_ctx \<Rightarrow> bytes \<Rightarrow> nat \<Rightarrow> bytes option \<Rightarrow> nat \<Rightarrow> bytes option
       \<Rightarrow> slh_dsa_hash_ctx \<times> (nat \<times> bytes option) option" where
  "slh_sign_internal al hctx msg msg_len sig sig_size opt_rand =
     (let priv = sc_key hctx; prms = key_params priv; hf = key_hash_func priv;
          sig_len_expected = sp_sig_len prms
      in (case sig of
            None \<Rightarrow> (hctx, Some (sig_len_expected, None))
          | Some sig_buf \<Rightarrow>
              if sig_size < sig_len_expected then (hctx, None)
              else if \<not> key_has_priv priv then (hctx, None)
              else
                (case WPACKET_init_static_len al sig_buf sig_len_expected 0 of
                   None \<Rightarrow> (hctx, None)
                 | Some wpkt \<Rightarrow>
                     let pk_seed = SLH_DSA_PK_SEED priv;
                         rand = (case opt_rand of None \<Rightarrow> pk_seed | Some r \<Rightarrow> r);
                         r = WPACKET_get_curr wpkt
                     in (case PRF_MSG hf al (sc_env hctx) (SLH_DSA_SK_PRF priv) rand msg msg_len wpkt of
                           (env1, None) \<Rightarrow> (hctx\<lparr>sc_env := env1\<rparr>, None)
                         | (env1, Some wpkt1) \<Rightarrow>
                             let hctx1 = hctx\<lparr>sc_env := env1\<rparr>
                             in (hctx1,
                                 case H_MSG hf env1 (drop (the r) (the (GETBUF wpkt1))) pk_seed
                                        (SLH_DSA_PK_ROOT priv) msg msg_len of
                                   None \<Rightarrow> None
                                 | Some dig \<Rightarrow>
                                     (case sign_with_digest al hctx1
                                             (store_at (replicate SLH_MAX_M 0) 0 dig) wpkt1 of
                                        None \<Rightarrow> None
                                      | Some wpkt2 \<Rightarrow>
                                          if WPACKET_finish al wpkt2 = None then None
                                          else Some (sig_len_expected, GETBUF wpkt2)))))))"

section \<open>Verifying\<close>

definition slh_verify_internal ::
    "allocator \<Rightarrow> slh_dsa_hash_ctx \<Rightarrow> bytes \<Rightarrow> nat \<Rightarrow> bytes \<Rightarrow> nat \<Rightarrow> bool" where
  "slh_verify_internal al hctx msg msg_len sig sig_len =
     (let pub = sc_key hctx; prms = key_params pub; hf = key_hash_func pub; af = key_adrs_func pub;
          n = sp_n prms; pk_seed = SLH_DSA_PK_SEED pub; pk_root = SLH_DSA_PK_ROOT pub
      in if \<not> key_pub pub then False
         else if sig_len \<noteq> sp_sig_len prms then False
         else
           (case PACKET_buf_init sig sig_len of
              None \<Rightarrow> False
            | Some sig_rpkt \<Rightarrow>
                (case PACKET_get_bytes sig_rpkt n of
                   None \<Rightarrow> False
                 | Some (r, sig_rpkt1) \<Rightarrow>
                     let adrs = adrs_zero af SLH_ADRS_DECLARE
                     in (case H_MSG hf (sc_env hctx) r pk_seed pk_root msg msg_len of
                           None \<Rightarrow> False
                         | Some dig \<Rightarrow>
                             let m_digest = store_at (replicate SLH_MAX_M 0) 0 dig
                             in (case PACKET_buf_init m_digest SLH_MAX_M of
                                   None \<Rightarrow> False
                                 | Some m_digest_rpkt \<Rightarrow>
                                     (case PACKET_get_bytes m_digest_rpkt (MD_LEN prms) of
                                        None \<Rightarrow> False
                                      | Some (md, m_digest_rpkt1) \<Rightarrow>
                                          (case get_tree_ids m_digest_rpkt1 prms of
                                             None \<Rightarrow> False
                                           | Some (tree_id, leaf_id, _) \<Rightarrow>
                                               let adrs1 = set_tree_address af adrs tree_id;
                                                   adrs2 = set_type_and_clear af adrs1 SLH_ADRS_TYPE_FORS_TREE;
                                                   adrs3 = set_keypair_address af adrs2 leaf_id
                                               in (case ossl_slh_fors_pk_from_sig al hctx sig_rpkt1 md pk_seed adrs3 of
                                                     None \<Rightarrow> False
                                                   | Some (pk_fors, sig_rpkt2, _) \<Rightarrow>
                                                       (case ossl_slh_ht_verify al hctx pk_fors sig_rpkt2 pk_seed
                                                               tree_id leaf_id pk_root of
                                                          None \<Rightarrow> False
                                                        | Some (ok, sig_rpkt3) \<Rightarrow>
                                                            ok \<and> PACKET_remaining sig_rpkt3 = 0)))))))))"

section \<open>Encoding the message\<close>

definition SLH_DSA_MAX_CONTEXT_STRING_LEN :: nat where
  "SLH_DSA_MAX_CONTEXT_STRING_LEN = 255"

text \<open>The buffer that holds the message to sign, and \<open>*out_len\<close>.\<close>

definition msg_encode ::
    "allocator \<Rightarrow> bytes \<Rightarrow> nat \<Rightarrow> bytes \<Rightarrow> nat \<Rightarrow> bool \<Rightarrow> bytes \<Rightarrow> nat \<Rightarrow> (bytes \<times> nat) option" where
  "msg_encode al msg msg_len ctx ctx_len encode tmp tmp_len =
     (if \<not> encode then Some (msg, msg_len)
      else if ctx_len > SLH_DSA_MAX_CONTEXT_STRING_LEN then None
      else
        let encoded_len = size_add (size_add (1 + 1) ctx_len) msg_len
        in if encoded_len < msg_len then None
           else
             (case (if encoded_len \<le> tmp_len then Some tmp
                    else if al encoded_len then Some (replicate encoded_len 0) else None) of
                None \<Rightarrow> None
              | Some encoded \<Rightarrow>
                  (case WPACKET_init_static_len al encoded encoded_len 0 of
                     None \<Rightarrow> None
                   | Some pkt0 \<Rightarrow>
                       (case WPACKET_put_bytes al pkt0 0 1 of
                          None \<Rightarrow> None
                        | Some pkt1 \<Rightarrow>
                            (case WPACKET_put_bytes al pkt1 (of_nat (ctx_len mod 256)) 1 of
                               None \<Rightarrow> None
                             | Some pkt2 \<Rightarrow>
                                 (case WPACKET_memcpy al pkt2 ctx ctx_len of
                                    None \<Rightarrow> None
                                  | Some pkt3 \<Rightarrow>
                                      (case WPACKET_memcpy al pkt3 msg msg_len of
                                         None \<Rightarrow> None
                                       | Some pkt4 \<Rightarrow>
                                           if WPACKET_finish al pkt4 = None then None
                                           else Some (the (GETBUF pkt4), encoded_len))))))))"

definition ossl_slh_dsa_sign ::
    "allocator \<Rightarrow> slh_dsa_hash_ctx \<Rightarrow> bytes \<Rightarrow> nat \<Rightarrow> bytes \<Rightarrow> nat \<Rightarrow> bytes option \<Rightarrow> bool \<Rightarrow> bytes option \<Rightarrow> nat
       \<Rightarrow> slh_dsa_hash_ctx \<times> (nat \<times> bytes option) option" where
  "ossl_slh_dsa_sign al slh_ctx msg msg_len ctx ctx_len add_rand encode sig sigsize =
     (let m_tmp = replicate 1024 0
      in (case sig of
            None \<Rightarrow> slh_sign_internal al slh_ctx m_tmp 0 None sigsize add_rand
          | Some _ \<Rightarrow>
              (case msg_encode al msg msg_len ctx ctx_len encode m_tmp 1024 of
                 None \<Rightarrow> (slh_ctx, None)
               | Some (m, m_len) \<Rightarrow> slh_sign_internal al slh_ctx m m_len sig sigsize add_rand)))"

definition ossl_slh_dsa_verify ::
    "allocator \<Rightarrow> slh_dsa_hash_ctx \<Rightarrow> bytes \<Rightarrow> nat \<Rightarrow> bytes \<Rightarrow> nat \<Rightarrow> bool \<Rightarrow> bytes \<Rightarrow> nat \<Rightarrow> bool" where
  "ossl_slh_dsa_verify al slh_ctx msg msg_len ctx ctx_len encode sig sig_len =
     (case msg_encode al msg msg_len ctx ctx_len encode (replicate 1024 0) 1024 of
        None \<Rightarrow> False
      | Some (m, m_len) \<Rightarrow> slh_verify_internal al slh_ctx m m_len sig sig_len)"

section \<open>Tree and leaf are in range\<close>

definition tree_id_len :: "slh_dsa_params \<Rightarrow> nat" where
  "tree_id_len prms = drop_bit 3 (sp_h prms - sp_hm prms + 7)"

definition leaf_id_len :: "slh_dsa_params \<Rightarrow> nat" where
  "leaf_id_len prms = drop_bit 3 (sp_hm prms + 7)"

definition tree_of :: "slh_dsa_params \<Rightarrow> bytes \<Rightarrow> u64" where
  "tree_of prms bs = take_bit (sp_h prms - sp_hm prms) (bytes_to_u64_be bs (length bs))"

definition leaf_of :: "slh_dsa_params \<Rightarrow> bytes \<Rightarrow> u32" where
  "leaf_of prms bs = ucast (take_bit (sp_hm prms) (bytes_to_u64_be bs (length bs)))"

lemma tree_mask: "h \<le> 64 \<Longrightarrow> w AND drop_bit (64 - h) (NOT 0) = take_bit h (w :: u64)"
  by (rule bit_word_eqI) (auto simp: bit_simps)

lemma leaf_mask64: "w AND (2 ^ h - 1) = take_bit h (w :: u64)"
  by (simp add: take_bit_eq_mask mask_eq_exp_minus_1)

lemma get_tree_ids_eq:
  assumes r: "pkt_ok r" "pkt_bytes r = tb @ lb @ rest"
    and len: "length tb = tree_id_len prms" "length lb = leaf_id_len prms" and h: "sp_h prms - sp_hm prms \<le> 64"
  shows "\<exists>r'. get_tree_ids r prms = Some (tree_of prms tb, leaf_of prms lb, r') \<and> pkt_ok r' \<and> pkt_bytes r' = rest"
proof -
  note t = read_chunk [OF r, unfolded len]
  note l = read_chunk [OF t(2,3), unfolded len]
  show ?thesis
    using t(1) l len tree_mask [OF h]
    by (simp add: get_tree_ids_def tree_of_def leaf_of_def leaf_mask64 Let_def flip: tree_id_len_def leaf_id_len_def)
qed

lemma leaf_of_less: "drop_bit (sp_hm prms) (leaf_of prms bs) = 0"
  unfolding leaf_of_def by (rule drop_bit_leaf)

lemma tree_of_less:
  assumes "slh_params_ok prms"
  shows "drop_bit (sp_hm prms * (sp_d prms - 1)) (tree_of prms bs) = 0"
proof -
  have "sp_h prms = sp_d prms * sp_hm prms" "0 < sp_d prms"
    using assms unfolding slh_params_ok_def by simp_all
  then have "sp_h prms - sp_hm prms = sp_hm prms * (sp_d prms - 1)"
    by (simp add: algebra_simps diff_mult_distrib2)
  then show ?thesis
    unfolding tree_of_def by (intro bit_word_eqI) (auto simp: bit_simps)
qed

text \<open>The digest consists of the part that FORS signs, the bytes of the tree and those of the leaf.\<close>

lemma digest_split:
  assumes "slh_params_ok prms"
  shows "sp_m prms = MD_LEN prms + tree_id_len prms + leaf_id_len prms" and "sp_m prms \<le> SLH_MAX_M"
    and "sp_a prms * sp_k prms \<le> 8 * MD_LEN prms" and "sp_h prms - sp_hm prms \<le> 64"
proof -
  show "sp_m prms = MD_LEN prms + tree_id_len prms + leaf_id_len prms"
    using assms unfolding slh_params_ok_def by (simp add: MD_LEN_def tree_id_len_def leaf_id_len_def drop_bit_eq_div)
  show "sp_m prms \<le> SLH_MAX_M" "sp_h prms - sp_hm prms \<le> 64"
    using assms unfolding slh_params_ok_def SLH_MAX_M_def by blast+
  show "sp_a prms * sp_k prms \<le> 8 * MD_LEN prms"
    by (simp add: MD_LEN_def drop_bit_eq_div mult.commute)
qed

text \<open>What a digest selects.\<close>

definition dig_md :: "slh_dsa_params \<Rightarrow> bytes \<Rightarrow> bytes" where
  "dig_md prms dig = take (MD_LEN prms) dig"

definition dig_tree :: "slh_dsa_params \<Rightarrow> bytes \<Rightarrow> u64" where
  "dig_tree prms dig = tree_of prms (take (tree_id_len prms) (drop (MD_LEN prms) dig))"

definition dig_leaf :: "slh_dsa_params \<Rightarrow> bytes \<Rightarrow> u32" where
  "dig_leaf prms dig = leaf_of prms (drop (MD_LEN prms + tree_id_len prms) dig)"

lemma dig_leaf_less: "drop_bit (sp_hm prms) (dig_leaf prms dig) = 0"
  by (simp add: dig_leaf_def leaf_of_less)

definition fors_adr :: "slh_dsa_params \<Rightarrow> bytes \<Rightarrow> adr" where
  "fors_adr prms dig =
     (adr_type_clear (adr_zero\<lparr>adr_tree := dig_tree prms dig\<rparr>) SLH_ADRS_TYPE_FORS_TREE)\<lparr>adr_keypair := dig_leaf prms dig\<rparr>"

section \<open>The context beside the key\<close>

text \<open>
  What is computed does not depend on the state of the MAC, nor on the key beyond its parameters.
\<close>

context slh_scheme
begin

definition ctx_sim :: "slh_dsa_hash_ctx \<Rightarrow> slh_dsa_hash_ctx \<Rightarrow> bool" where
  "ctx_sim c c' \<longleftrightarrow> key_params (sc_key c') = key_params (sc_key c) \<and>
     (\<exists>md used. sc_env c' = env_mac (sc_env c) md used)"

lemma sim_prims:
  assumes "ctx_sim c c'"
  shows "sF c' = sF c" and "sH c' = sH c" and "sT c' = sT c" and "sPRF c' = sPRF c"
    and "key_params (sc_key c') = key_params (sc_key c)"
  using assms F_mac H_mac T_mac PRF_mac
  by (auto simp: ctx_sim_def sF_def sH_def sT_def sPRF_def fun_eq_iff)

lemma sim_chain: "ctx_sim c c' \<Longrightarrow> chain c' = chain c"
proof -
  assume s: "ctx_sim c c'"
  have "chain c' pk a x i n = chain c pk a x i n" for pk a x i n
    by (induction n) (simp_all add: sim_prims(1) [OF s])
  then show ?thesis
    by (simp add: fun_eq_iff)
qed

lemma sim_wots:
  assumes "ctx_sim c c'"
  shows "wots_pk c' = wots_pk c" and "wots_sig c' = wots_sig c"
  by (simp_all add: wots_pk_def wots_sig_def chain_val_def fun_eq_iff sim_chain [OF assms] sim_prims [OF assms])

lemma sim_xmss:
  assumes "ctx_sim c c'"
  shows "xh c' = xh c" and "xleaf c' = xleaf c" and "xmss_sig c' = xmss_sig c" and "ht_root c' = ht_root c"
proof -
  show x: "xh c' = xh c" "xleaf c' = xleaf c"
    by (simp_all add: xh_def xleaf_def fun_eq_iff sim_wots [OF assms] sim_prims [OF assms])
  show "xmss_sig c' = xmss_sig c" "ht_root c' = ht_root c"
    by (simp_all add: xmss_sig_def ht_root_def fun_eq_iff x sim_wots [OF assms] sim_prims [OF assms])
qed

lemma sim_ht:
  assumes "ctx_sim c c'"
  shows "ht_sig c' = ht_sig c"
proof -
  have "ht_sig c' sk pk layer todo t leaf msg = ht_sig c sk pk layer todo t leaf msg" for sk pk layer todo t leaf msg
    by (induction todo arbitrary: layer t leaf msg) (simp_all add: sim_xmss [OF assms] sim_prims [OF assms])
  then show ?thesis
    by (simp add: fun_eq_iff)
qed

lemma sim_fors:
  assumes "ctx_sim c c'"
  shows "fors_sig c' = fors_sig c" and "fors_pk c' = fors_pk c" and "fors_ids c' = fors_ids c"
proof -
  have f: "fh c' = fh c" "fsk c' = fsk c" "fleaf c' = fleaf c"
    by (simp_all add: fh_def fsk_def fleaf_def fleaf_of_def fun_eq_iff sim_prims [OF assms])
  have "fors_sig c' sk pk a t ids = fors_sig c sk pk a t ids" for sk pk a t ids
    by (induction ids arbitrary: t) (simp_all add: tree_sig_def f sim_prims [OF assms])
  then show "fors_sig c' = fors_sig c"
    by (simp add: fun_eq_iff)
  show "fors_pk c' = fors_pk c" "fors_ids c' = fors_ids c"
    by (simp_all add: fors_pk_def fors_roots_def fors_ids_def fun_eq_iff f sim_prims [OF assms])
qed

lemmas sim_simps = sim_prims sim_xmss(4) sim_ht sim_fors

section \<open>Signing and verifying with a digest\<close>

text \<open>The signature behind the randomiser.\<close>

abbreviation ctx_prms :: "slh_dsa_hash_ctx \<Rightarrow> slh_dsa_params" where
  "ctx_prms ctx \<equiv> key_params (sc_key ctx)"

definition body_sig :: "slh_dsa_hash_ctx \<Rightarrow> bytes \<Rightarrow> bytes \<Rightarrow> bytes \<Rightarrow> bytes" where
  "body_sig ctx sk pk dig =
     (let prms = ctx_prms ctx; a = fors_adr prms dig
      in fors_sig ctx sk pk a 0 (fors_ids ctx (dig_md prms dig)) @
         ht_sig ctx sk pk 0 (sp_d prms) (dig_tree prms dig) (dig_leaf prms dig) (fors_pk ctx sk pk a))"

lemma length_body_sig:
  assumes ctx: "ctx_ok ctx" and dig: "length dig = sp_m (ctx_prms ctx)"
  shows "ctx_n ctx + length (body_sig ctx sk pk dig) = sp_sig_len (ctx_prms ctx)"
proof -
  note ok = ctx_okD(11) [OF ctx]
  have "ctx_a ctx * ctx_k ctx \<le> 8 * length (dig_md (ctx_prms ctx) dig)"
    using digest_split [OF ok] dig by (simp add: dig_md_def)
  then have "length (body_sig ctx sk pk dig) = fors_sig_len ctx + ctx_d ctx * xmss_sig_len ctx"
    using fors_ids(3) [OF ctx] by (simp add: body_sig_def Let_def length_fors_sig [OF ctx] length_ht_sig [OF ctx])
  moreover have "sp_sig_len (ctx_prms ctx) = ctx_n ctx + fors_sig_len ctx + ctx_d ctx * xmss_sig_len ctx"
    using ok unfolding slh_params_ok_def by (simp add: SLH_WOTS_LEN_def algebra_simps)
  ultimately show ?thesis by simp
qed

text \<open>A packet whose bytes begin with the digest.\<close>

lemma read_digest:
  assumes ctx: "ctx_ok ctx" and r: "pkt_ok r" "pkt_bytes r = dig @ z" and dig: "length dig = sp_m (ctx_prms ctx)"
  shows "\<exists>r1 r2. PACKET_get_bytes r (MD_LEN (ctx_prms ctx)) = Some (dig_md (ctx_prms ctx) dig, r1) \<and>
    get_tree_ids r1 (ctx_prms ctx) = Some (dig_tree (ctx_prms ctx) dig, dig_leaf (ctx_prms ctx) dig, r2)"
proof -
  let ?p = "ctx_prms ctx"
  let ?md = "take (MD_LEN ?p) dig" and ?tb = "take (tree_id_len ?p) (drop (MD_LEN ?p) dig)"
    and ?lb = "drop (MD_LEN ?p + tree_id_len ?p) dig"
  note d = digest_split [OF ctx_okD(11) [OF ctx]]
  have "?lb = drop (tree_id_len ?p) (drop (MD_LEN ?p) dig)"
    by (simp add: add.commute)
  then have "dig = ?md @ ?tb @ ?lb"
    by (metis append_take_drop_id)
  then have b: "pkt_bytes r = ?md @ ?tb @ ?lb @ z"
    using r(2) by (metis append_assoc)
  have len: "length ?md = MD_LEN ?p" "length ?tb = tree_id_len ?p" "length ?lb = leaf_id_len ?p"
    using dig d(1) by simp_all
  note rd = read_chunk [OF r(1) b, unfolded len]
  from get_tree_ids_eq [OF rd(2,3) len(2,3) d(4)] rd(1) show ?thesis
    by (auto simp: dig_md_def dig_tree_def dig_leaf_def)
qed

lemma fors_sig_len_bound: "ctx_ok ctx \<Longrightarrow> fors_sig_len ctx < 2 ^ 62"
proof -
  assume ctx: "ctx_ok ctx"
  have "fors_sig_len ctx \<le> 35 * (15 * 32)"
    using ctx_n_bounds [OF ctx] ctx_ak_bounds [OF ctx] by (intro mult_le_mono) auto
  then show ?thesis by simp
qed

lemma sign_with_digest_eq:
  assumes ctx: "ctx_ok ctx" and al: "al sizeof_wpacket_sub" and dig: "length dig = sp_m (ctx_prms ctx)"
    and p: "wp_static p" "fors_sig_len ctx + ctx_d ctx * xmss_sig_len ctx \<le> wp_room p"
  shows "sign_with_digest al ctx (dig @ z) p =
     Some (wp_append p (body_sig ctx (SLH_DSA_SK_SEED (sc_key ctx)) (SLH_DSA_PK_SEED (sc_key ctx)) dig))"
proof -
  let ?p = "ctx_prms ctx" and ?sk = "SLH_DSA_SK_SEED (sc_key ctx)" and ?pk = "SLH_DSA_PK_SEED (sc_key ctx)"
  note ds = digest_split [OF ctx_okD(11) [OF ctx]]
  obtain r where r: "PACKET_buf_init (dig @ z) (sp_m ?p) = Some r"
    using ds(2) by (auto simp: PACKET_buf_init_def SIZE_MAX_def SLH_MAX_M_def)
  have rb: "pkt_ok r" "pkt_bytes r = dig @ []"
    using buf_init_bytes [OF r] dig by simp_all
  obtain r1 r2 where rd: "PACKET_get_bytes r (MD_LEN ?p) = Some (dig_md ?p dig, r1)"
    "get_tree_ids r1 ?p = Some (dig_tree ?p dig, dig_leaf ?p dig, r2)"
    using read_digest [OF ctx rb dig] by blast
  let ?a = "fors_adr ?p dig" and ?md = "dig_md ?p dig"
  let ?fs = "fors_sig ctx ?sk ?pk ?a 0 (fors_ids ctx ?md)"
  have md: "ctx_a ctx * ctx_k ctx \<le> 8 * length ?md"
    using ds dig by (simp add: dig_md_def)
  have fl: "length ?fs = fors_sig_len ctx"
    using fors_ids(3) [OF ctx md] by (simp add: length_fors_sig [OF ctx])
  have room: "fors_sig_len ctx \<le> wp_room p" "ctx_d ctx * xmss_sig_len ctx \<le> wp_room (wp_append p ?fs)"
    "length ?fs \<le> wp_room p"
    using p(2) fl by simp_all
  obtain c d where fs: "ossl_slh_fors_sign al ctx ?md ?sk ?pk (enc ?a) p =
     Some (enc (?a\<lparr>adr_chain := c, adr_hash := d\<rparr>), wp_append p ?fs)"
    using fors_sign_eq [OF ctx md p(1) room(1)] by blast
  obtain r3 where r3: "PACKET_buf_init (drop (the (WPACKET_get_curr p)) (the (GETBUF (wp_append p ?fs))))
      (the (WPACKET_get_curr (wp_append p ?fs)) - the (WPACKET_get_curr p)) = Some r3" "pkt_ok r3" "pkt_bytes r3 = ?fs"
    using read_back [OF p(1) room(3)] fl fors_sig_len_bound [OF ctx] by auto
  have up: "fors_pk ctx ?sk ?pk (?a\<lparr>adr_chain := c, adr_hash := d\<rparr>) = fors_pk ctx ?sk ?pk ?a"
    by (simp add: fors_pk_def fors_roots_def)
  have "fors_sig ctx ?sk ?pk (?a\<lparr>adr_chain := c, adr_hash := d\<rparr>) t ids = fors_sig ctx ?sk ?pk ?a t ids" for t ids
    by (induction ids arbitrary: t) (simp_all add: tree_sig_def)
  then obtain r4 a4 where pk: "ossl_slh_fors_pk_from_sig al ctx r3 ?md ?pk (enc (?a\<lparr>adr_chain := c, adr_hash := d\<rparr>)) =
     Some (fors_pk ctx ?sk ?pk ?a, r4, a4)"
    using fors_pk_from_own_sig [of ctx al, OF ctx al md r3(2), of ?sk ?pk "?a\<lparr>adr_chain := c, adr_hash := d\<rparr>" "[]"] r3(3) up
    by auto
  have "length (fors_pk ctx ?sk ?pk ?a) = ctx_n ctx"
    by (simp add: fors_pk_def ctx_okD [OF ctx])
  note ht = ht_sign_eq [of ctx al, OF ctx al wp_append_static [OF p(1) room(3)] room(2) dig_leaf_less this]
  have ae: "enc ?a = set_keypair_address af (set_type_and_clear af (set_tree_address af (adrs_zero af SLH_ADRS_DECLARE)
      (dig_tree ?p dig)) SLH_ADRS_TYPE_FORS_TREE) (dig_leaf ?p dig)"
    by (simp add: fors_adr_def enc_simps)
  show ?thesis
    using r rd fs r3(1) pk ht
    by (simp add: sign_with_digest_def ctx_okD(1) [OF ctx] body_sig_def Let_def flip: ae)
qed

end

context slh_scheme
begin

lemma body_verify:
  assumes ctx: "ctx_ok ctx" and al: "al sizeof_wpacket_sub" and dig: "length dig = sp_m (ctx_prms ctx)"
    and r: "pkt_ok r" "pkt_bytes r = body_sig ctx sk pk dig"
  shows "\<exists>pk_fors r' a' r''.
     ossl_slh_fors_pk_from_sig al ctx r (dig_md (ctx_prms ctx) dig) pk (enc (fors_adr (ctx_prms ctx) dig)) = Some (pk_fors, r', a') \<and>
     ossl_slh_ht_verify al ctx pk_fors r' pk (dig_tree (ctx_prms ctx) dig) (dig_leaf (ctx_prms ctx) dig) root =
       Some (ht_root ctx sk pk (ctx_d ctx - 1) 0 = take (ctx_n ctx) root, r'') \<and> PACKET_remaining r'' = 0"
proof -
  let ?p = "ctx_prms ctx"
  let ?a = "fors_adr ?p dig" and ?md = "dig_md ?p dig" and ?t = "dig_tree ?p dig" and ?l = "dig_leaf ?p dig"
  let ?ht = "ht_sig ctx sk pk 0 (ctx_d ctx) ?t ?l (fors_pk ctx sk pk ?a)"
  note ok = ctx_okD(11) [OF ctx]
  have md: "ctx_a ctx * ctx_k ctx \<le> 8 * length ?md"
    using digest_split [OF ok] dig by (simp add: dig_md_def)
  have b: "pkt_bytes r = fors_sig ctx sk pk ?a 0 (fors_ids ctx ?md) @ ?ht"
    using r(2) by (simp add: body_sig_def Let_def)
  obtain r' a' where f: "ossl_slh_fors_pk_from_sig al ctx r ?md pk (enc ?a) = Some (fors_pk ctx sk pk ?a, r', a')"
    "pkt_ok r'" "pkt_bytes r' = ?ht @ []"
    using fors_pk_from_own_sig [of ctx al, OF ctx al md r(1) b] by auto
  have len: "length (fors_pk ctx sk pk ?a) = ctx_n ctx"
    by (simp add: fors_pk_def ctx_okD [OF ctx])
  have t: "drop_bit (ctx_hm ctx * (ctx_d ctx - 1)) ?t = 0"
    using tree_of_less [OF ok] by (simp add: dig_tree_def)
  obtain r'' where v: "ossl_slh_ht_verify al ctx (fors_pk ctx sk pk ?a) r' pk ?t ?l root =
      Some (ht_root ctx sk pk (ctx_d ctx - 1) 0 = take (ctx_n ctx) root, r'')" "pkt_ok r''" "pkt_bytes r'' = []"
    using ht_verify_eq [of ctx al, OF ctx al f(2,3) dig_leaf_less len t] by blast
  then have "PACKET_remaining r'' = 0"
    using length_pkt_bytes [OF v(2)] by (simp add: PACKET_remaining_def)
  with f(1) v(1) show ?thesis by blast
qed

text \<open>A digest buffer of 49 bytes that starts with the digest.\<close>

lemma digest_buffer:
  "ctx_ok ctx \<Longrightarrow> length dig = sp_m (ctx_prms ctx) \<Longrightarrow>
     store_at (replicate SLH_MAX_M 0) 0 dig = dig @ replicate (SLH_MAX_M - sp_m (ctx_prms ctx)) 0"
  using digest_split(2) [OF ctx_okD(11)] by (simp add: store_at_eq)

lemma H_MSG_Some:
  assumes "ctx_ok ctx"
  obtains dig where "H_MSG hf (sc_env ctx) r pk root msg l = Some dig" and "length dig = sp_m (ctx_prms ctx)"
  using H_MSG_ok [of "sc_env ctx" r pk root msg l] assms unfolding ctx_ok_def by auto

lemma sig_len_eq:
  "ctx_ok ctx \<Longrightarrow> sp_sig_len (ctx_prms ctx) = ctx_n ctx + fors_sig_len ctx + ctx_d ctx * xmss_sig_len ctx"
  using ctx_okD(11) [of ctx] unfolding slh_params_ok_def by (simp add: SLH_WOTS_LEN_def algebra_simps)

lemma sig_len_bound: "ctx_ok ctx \<Longrightarrow> sp_sig_len (ctx_prms ctx) \<le> 2 ^ 30"
proof -
  assume ctx: "ctx_ok ctx"
  have "ctx_d ctx \<le> 22"
    using ctx_okD(11) [OF ctx] unfolding slh_params_ok_def by blast
  then have "ctx_d ctx * xmss_sig_len ctx \<le> 22 * ((SLH_WOTS_LEN 32 + 32) * 32)"
    using ctx_n_bounds [OF ctx] ctx_hm_bounds [OF ctx]
    by (intro mult_le_mono add_le_mono) (auto simp: SLH_WOTS_LEN_def)
  moreover have "fors_sig_len ctx \<le> 35 * (15 * 32)"
    using ctx_n_bounds [OF ctx] ctx_ak_bounds [OF ctx] by (intro mult_le_mono) auto
  ultimately show ?thesis
    using sig_len_eq [OF ctx] ctx_n_bounds [OF ctx] by (simp add: SLH_WOTS_LEN_def)
qed

lemma verify_own:
  assumes ctx: "ctx_ok ctx" and al: "al sizeof_wpacket_sub" and pub: "key_pub (sc_key ctx)"
    and R: "length R = ctx_n ctx"
    and dig: "H_MSG hf (sc_env ctx) R (SLH_DSA_PK_SEED (sc_key ctx)) (SLH_DSA_PK_ROOT (sc_key ctx)) msg l = Some dig"
    and sig: "take (sp_sig_len (ctx_prms ctx)) sig = R @ body_sig ctx sk (SLH_DSA_PK_SEED (sc_key ctx)) dig"
    and root: "take (ctx_n ctx) (SLH_DSA_PK_ROOT (sc_key ctx)) = ht_root ctx sk (SLH_DSA_PK_SEED (sc_key ctx)) (ctx_d ctx - 1) 0"
  shows "slh_verify_internal al ctx msg l sig (sp_sig_len (ctx_prms ctx))"
proof -
  let ?p = "ctx_prms ctx" and ?pk = "SLH_DSA_PK_SEED (sc_key ctx)" and ?root = "SLH_DSA_PK_ROOT (sc_key ctx)"
  obtain dig' where "H_MSG hf (sc_env ctx) R ?pk ?root msg l = Some dig'" "length dig' = sp_m ?p"
    by (rule H_MSG_Some [OF ctx])
  with dig have len: "length dig = sp_m ?p" by simp
  have sl: "sp_sig_len ?p \<le> length sig" "sp_sig_len ?p \<le> SIZE_MAX div 2"
  proof -
    note b = length_body_sig [OF ctx len, of sk ?pk]
    then show "sp_sig_len ?p \<le> length sig"
      using arg_cong [OF sig, of length] R by simp
    show "sp_sig_len ?p \<le> SIZE_MAX div 2"
      using sig_len_bound [OF ctx] by (simp add: SIZE_MAX_def)
  qed
  obtain r where r: "PACKET_buf_init sig (sp_sig_len ?p) = Some r"
    using sl(2) by (auto simp: PACKET_buf_init_def)
  note rb = buf_init_bytes [OF r sl(1), unfolded sig]
  note rd = read_chunk [OF rb, unfolded R]
  obtain m where m: "PACKET_buf_init (store_at (replicate SLH_MAX_M 0) 0 dig) SLH_MAX_M = Some m"
    by (auto simp: PACKET_buf_init_def SIZE_MAX_def SLH_MAX_M_def)
  have mb: "pkt_ok m" "pkt_bytes m = dig @ replicate (SLH_MAX_M - sp_m ?p) 0"
    using buf_init_bytes [OF m] digest_buffer [OF ctx len] digest_split(2) [OF ctx_okD(11) [OF ctx]] len by simp_all
  obtain m1 m2 where rdm: "PACKET_get_bytes m (MD_LEN ?p) = Some (dig_md ?p dig, m1)"
    "get_tree_ids m1 ?p = Some (dig_tree ?p dig, dig_leaf ?p dig, m2)"
    using read_digest [OF ctx mb len] by blast
  have ae: "enc (fors_adr ?p dig) = set_keypair_address af (set_type_and_clear af (set_tree_address af (adrs_zero af SLH_ADRS_DECLARE)
      (dig_tree ?p dig)) SLH_ADRS_TYPE_FORS_TREE) (dig_leaf ?p dig)"
    by (simp add: fors_adr_def enc_simps)
  obtain pkf r' a' r'' where "ossl_slh_fors_pk_from_sig al ctx (packet_forward r (ctx_n ctx)) (dig_md ?p dig) ?pk (enc (fors_adr ?p dig)) = Some (pkf, r', a')"
    "ossl_slh_ht_verify al ctx pkf r' ?pk (dig_tree ?p dig) (dig_leaf ?p dig) ?root = Some (True, r'')"
    "PACKET_remaining r'' = 0"
    using body_verify [of ctx al, OF ctx al len rd(2,3), of ?root] root by auto
  then show ?thesis
    using pub r rd(1) dig m rdm
    by (simp add: slh_verify_internal_def ctx_okD(1,2) [OF ctx] Let_def flip: ae)
qed

lemma sign_internal_eq:
  assumes ctx: "ctx_ok ctx" and al: "al sizeof_wpacket_sub" and priv: "key_has_priv (sc_key ctx)"
    and buf: "sp_sig_len (ctx_prms ctx) \<le> length buf" and sz: "sp_sig_len (ctx_prms ctx) \<le> sz"
  shows "\<exists>ctx' R dig sig. slh_sign_internal al ctx msg l (Some buf) sz rand =
       (ctx', Some (sp_sig_len (ctx_prms ctx), Some sig)) \<and>
     ctx_ok ctx' \<and> sc_key ctx' = sc_key ctx \<and> ctx_sim ctx ctx' \<and> length R = ctx_n ctx \<and>
     H_MSG hf (sc_env ctx) R (SLH_DSA_PK_SEED (sc_key ctx)) (SLH_DSA_PK_ROOT (sc_key ctx)) msg l = Some dig \<and>
     sig = store_at buf 0 (R @ body_sig ctx (SLH_DSA_SK_SEED (sc_key ctx)) (SLH_DSA_PK_SEED (sc_key ctx)) dig)"
proof -
  let ?p = "ctx_prms ctx" and ?pk = "SLH_DSA_PK_SEED (sc_key ctx)" and ?root = "SLH_DSA_PK_ROOT (sc_key ctx)"
    and ?sk = "SLH_DSA_SK_SEED (sc_key ctx)" and ?n = "ctx_n ctx"
  let ?rand = "case rand of None \<Rightarrow> ?pk | Some r \<Rightarrow> r"
  note sl = sig_len_eq [OF ctx]
  have "0 < sp_sig_len ?p" "sp_sig_len ?p \<le> SIZE_MAX"
    using ctx_n_bounds [OF ctx] sig_len_bound [OF ctx] by (simp_all add: sl SIZE_MAX_def)
  then obtain p where p: "WPACKET_init_static_len al buf (sp_sig_len ?p) 0 = Some p" "wp_static p" "wp_written p = 0"
    "wp_room p = sp_sig_len ?p" "wp_staticbuf p = Some buf" "wp_subs p = [new_sub]"
    using init_static_ok [of al "sp_sig_len ?p" buf] al buf by blast
  obtain y md used where y: "?n \<le> length y" "PRF_MSG hf al (sc_env ctx) (SLH_DSA_SK_PRF (sc_key ctx)) ?rand msg l p =
      (env_mac (sc_env ctx) md used, WPACKET_memcpy al p y ?n)" "env_ok (env_mac (sc_env ctx) md used)"
    using PRF_MSG_ok [of "sc_env ctx" al "SLH_DSA_SK_PRF (sc_key ctx)" ?rand msg l p] ctx unfolding ctx_ok_def by auto
  define R where "R = take ?n y"
  define ctx' where "ctx' = ctx\<lparr>sc_env := env_mac (sc_env ctx) md used\<rparr>"
  have c': "ctx_ok ctx'" "sc_key ctx' = sc_key ctx" "ctx_sim ctx ctx'"
    using ctx y(3) by (auto simp: ctx'_def ctx_ok_def ctx_sim_def)
  have R: "length R = ?n" "length R \<le> wp_room p"
    using y(1) p(4) sl by (simp_all add: R_def)
  have mc: "WPACKET_memcpy al p y ?n = Some (wp_append p R)"
    using memcpy_static [OF p(2) y(1)] R by (simp add: R_def)
  have gb: "GETBUF (wp_append p ds) = Some (store_at buf 0 ds)" for ds
    using p(3,5) by (simp add: GETBUF_def wp_append_def)
  have cur: "WPACKET_get_curr p = Some 0"
    using p by (auto simp: WPACKET_get_curr_def GETBUF_def wp_static_def wpacket_ok_def)
  have tk: "take ?n (store_at buf 0 R) = R"
    using R(1) buf sl by (simp add: buf_simps)
  obtain dig where dig: "H_MSG hf (sc_env ctx) R ?pk ?root msg l = Some dig" "length dig = sp_m ?p"
    by (rule H_MSG_Some [OF ctx])
  have hm: "H_MSG hf (env_mac (sc_env ctx) md used) (store_at buf 0 R) ?pk ?root msg l = Some dig"
    using H_MSG_take [of "sc_env ctx" "store_at buf 0 R" ?pk ?root msg l] tk dig(1) ctx
    by (simp add: H_MSG_mac ctx_ok_def)
  have be: "body_sig ctx' ?sk ?pk dig = body_sig ctx ?sk ?pk dig"
    by (simp add: body_sig_def sim_simps [OF c'(3)] Let_def)
  have "sign_with_digest al ctx' (store_at (replicate SLH_MAX_M 0) 0 dig) (wp_append p R) =
      Some (wp_append (wp_append p R) (body_sig ctx ?sk ?pk dig))"
    unfolding digest_buffer [OF ctx dig(2)] be [symmetric]
    using sign_with_digest_eq [OF c'(1) _ _ wp_append_static [OF p(2) R(2)], of al dig] al dig(2) p(4) R(1) sl
    by (simp add: c'(2))
  moreover have "WPACKET_finish al (wp_append p (R @ body_sig ctx ?sk ?pk dig)) \<noteq> None"
    using finish_static [OF wp_append_static [OF p(2)], of "R @ body_sig ctx ?sk ?pk dig" new_sub] p(4,6)
      length_body_sig [OF ctx dig(2), of ?sk ?pk] R(1)
    by (simp add: wp_append_def new_sub_def)
  ultimately show ?thesis
    using p(1) y(2) mc hm cur priv sz dig(1) R(1) c' gb
    by - (rule exI [of _ ctx'], rule exI [of _ R], rule exI [of _ dig],
      simp add: slh_sign_internal_def ctx_okD(2) [OF ctx] Let_def flip: ctx'_def)
qed

lemma sign_verify_internal:
  assumes ctx: "ctx_ok ctx" and al: "al sizeof_wpacket_sub" and priv: "key_has_priv (sc_key ctx)"
    and buf: "sp_sig_len (ctx_prms ctx) \<le> length buf" and sz: "sp_sig_len (ctx_prms ctx) \<le> sz"
    and v: "ctx_ok v" "ctx_sim ctx v" "key_pub (sc_key v)"
    and pub: "SLH_DSA_PK_SEED (sc_key v) = SLH_DSA_PK_SEED (sc_key ctx)" "SLH_DSA_PK_ROOT (sc_key v) = SLH_DSA_PK_ROOT (sc_key ctx)"
    and root: "take (ctx_n ctx) (SLH_DSA_PK_ROOT (sc_key ctx)) =
      ht_root ctx (SLH_DSA_SK_SEED (sc_key ctx)) (SLH_DSA_PK_SEED (sc_key ctx)) (ctx_d ctx - 1) 0"
  shows "\<exists>ctx' sig. slh_sign_internal al ctx msg l (Some buf) sz rand =
       (ctx', Some (sp_sig_len (ctx_prms ctx), Some sig)) \<and> length sig = length buf \<and>
     slh_verify_internal al v msg l sig (sp_sig_len (ctx_prms ctx))"
proof -
  let ?p = "ctx_prms ctx" and ?pk = "SLH_DSA_PK_SEED (sc_key ctx)" and ?root = "SLH_DSA_PK_ROOT (sc_key ctx)"
    and ?sk = "SLH_DSA_SK_SEED (sc_key ctx)"
  obtain ctx' R dig sig where s: "slh_sign_internal al ctx msg l (Some buf) sz rand = (ctx', Some (sp_sig_len ?p, Some sig))"
    "length R = ctx_n ctx" "H_MSG hf (sc_env ctx) R ?pk ?root msg l = Some dig"
    "sig = store_at buf 0 (R @ body_sig ctx ?sk ?pk dig)"
    using sign_internal_eq [of ctx al, OF ctx al priv buf sz] by blast
  have "H_MSG hf (sc_env v) = H_MSG hf (sc_env ctx)"
    using v(2) by (auto simp: ctx_sim_def H_MSG_mac)
  moreover have "body_sig v ?sk ?pk dig = body_sig ctx ?sk ?pk dig"
    by (simp add: body_sig_def sim_simps [OF v(2)] Let_def)
  moreover have "length dig = sp_m ?p"
    using H_MSG_Some [OF ctx, of R ?pk ?root msg l] s(3) by (metis option.inject)
  then have "take (sp_sig_len ?p) sig = R @ body_sig ctx ?sk ?pk dig"
    using length_body_sig [OF ctx, of dig ?sk ?pk] s(2,4) buf by (simp add: take_store_at_end)
  ultimately have "slh_verify_internal al v msg l sig (sp_sig_len (ctx_prms v))"
    using verify_own [OF v(1) _ v(3), where al = al and R = R and dig = dig and sig = sig and sk = ?sk and msg = msg and l = l]
      al s(2,3) root by (simp add: pub sim_simps [OF v(2)])
  with s show ?thesis
    by (auto simp: sim_prims(5) [OF v(2)])
qed

end

end
