(* ===== verification/Ossl_Param.thy ===== *)
theory Ossl_Param
  imports Complex_Main Wpacket
begin

text \<open>
  \<open>OSSL_PARAM\<close> (\<open>crypto/params.c\<close>, \<open>include/openssl/core.h\<close>): the array of typed values through which
  providers and applications exchange keys and settings, with the conversions between integers of
  any length and the C integer types. An array is the list of its elements up to the terminator.
  A pointer to the caller's variable is never null here; every error the code raises is a value.
\<close>

section \<open>Parameters\<close>

record ossl_param =
  op_key :: string
  op_type :: nat
  op_data :: "bytes option"
  op_size :: nat
  op_return_size :: nat

definition OSSL_PARAM_INTEGER :: nat where "OSSL_PARAM_INTEGER = 1"
definition OSSL_PARAM_UNSIGNED_INTEGER :: nat where "OSSL_PARAM_UNSIGNED_INTEGER = 2"
definition OSSL_PARAM_REAL :: nat where "OSSL_PARAM_REAL = 3"
definition OSSL_PARAM_UTF8_STRING :: nat where "OSSL_PARAM_UTF8_STRING = 4"
definition OSSL_PARAM_OCTET_STRING :: nat where "OSSL_PARAM_OCTET_STRING = 5"
definition OSSL_PARAM_UNMODIFIED :: nat where "OSSL_PARAM_UNMODIFIED = SIZE_MAX"

lemmas param_types = OSSL_PARAM_INTEGER_def OSSL_PARAM_UNSIGNED_INTEGER_def OSSL_PARAM_REAL_def
  OSSL_PARAM_UTF8_STRING_def OSSL_PARAM_OCTET_STRING_def

text \<open>
  The outcome of a call: a value, the error it raised, or \<open>Undef\<close> where the code accesses memory
  outside the object it was given.
\<close>

datatype param_err =
    Unsigned_negative | Out_of_range | Inexact | Not_integer | Too_small | Bad_type | Null_argument
  | Unsupported_real | No_space_for_nul | Malloc_failure

datatype 'a res = Ok 'a | Err param_err | Undef

text \<open>
  What the platform decides: the byte order, the sizes of the C integer types, and the representation
  of \<open>double\<close>. Reading gives no number for an infinity or NaN; only integers are written.
\<close>

record platform =
  pf_big_endian :: bool
  pf_sizeof_int :: nat
  pf_sizeof_long :: nat
  pf_sizeof_size_t :: nat
  pf_sizeof_time_t :: nat
  pf_double_read :: "bytes \<Rightarrow> rat option"
  pf_double_write :: "int \<Rightarrow> bytes"

fun OSSL_PARAM_locate :: "ossl_param list \<Rightarrow> string \<Rightarrow> ossl_param list" where
  "OSSL_PARAM_locate [] key = []"
| "OSSL_PARAM_locate (p # ps) key = (if key = op_key p then p # ps else OSSL_PARAM_locate ps key)"

text \<open>The element found and those behind it; a null pointer is \<open>None\<close>.\<close>

definition OSSL_PARAM_locate_const :: "ossl_param list \<Rightarrow> string \<Rightarrow> (ossl_param \<times> ossl_param list) option" where
  "OSSL_PARAM_locate_const ps key =
     (case OSSL_PARAM_locate ps key of [] \<Rightarrow> None | p # rest \<Rightarrow> Some (p, rest))"

definition ossl_param_construct :: "string \<Rightarrow> nat \<Rightarrow> bytes option \<Rightarrow> nat \<Rightarrow> ossl_param" where
  "ossl_param_construct key data_type data data_size =
     \<lparr>op_key = key, op_type = data_type, op_data = data, op_size = data_size,
      op_return_size = OSSL_PARAM_UNMODIFIED\<rparr>"

definition OSSL_PARAM_modified :: "ossl_param option \<Rightarrow> bool" where
  "OSSL_PARAM_modified p =
     (case p of None \<Rightarrow> False | Some q \<Rightarrow> op_return_size q \<noteq> OSSL_PARAM_UNMODIFIED)"

definition OSSL_PARAM_set_all_unmodified :: "ossl_param list \<Rightarrow> ossl_param list" where
  "OSSL_PARAM_set_all_unmodified ps = map (\<lambda>p. p\<lparr>op_return_size := OSSL_PARAM_UNMODIFIED\<rparr>) ps"

section \<open>Integers of any length\<close>

definition is_negative :: "platform \<Rightarrow> bytes \<Rightarrow> nat \<Rightarrow> bool res" where
  "is_negative pf number s =
     (if s = 0 then Undef
      else Ok (0x80 AND (if pf_big_endian pf then number ! 0 else number ! (s - 1)) \<noteq> 0))"

definition check_sign_bytes :: "bytes \<Rightarrow> nat \<Rightarrow> byte \<Rightarrow> bool" where
  "check_sign_bytes p n s = list_all (\<lambda>b. b = s) (take n p)"

text \<open>The bytes written to \<open>dest\<close>. With \<open>dest_len = 0\<close> the byte compared with the sign is not one of \<open>src\<close>.\<close>

definition copy_integer ::
    "platform \<Rightarrow> nat \<Rightarrow> bytes \<Rightarrow> nat \<Rightarrow> byte \<Rightarrow> bool \<Rightarrow> bytes res" where
  "copy_integer pf dest_len src src_len pad signed_int =
     (if pf_big_endian pf then
        if src_len < dest_len then Ok (replicate (dest_len - src_len) pad @ take src_len src)
        else
          let n = src_len - dest_len
          in if \<not> check_sign_bytes src n pad then Err Out_of_range
             else if signed_int \<and> dest_len = 0 then Undef
             else if signed_int \<and> (pad XOR src ! n) AND 0x80 \<noteq> 0 then Err Out_of_range
             else Ok (take dest_len (drop n src))
      else
        if src_len < dest_len then Ok (take src_len src @ replicate (dest_len - src_len) pad)
        else
          let n = src_len - dest_len
          in if \<not> check_sign_bytes (drop dest_len src) n pad then Err Out_of_range
             else if signed_int \<and> dest_len = 0 then Undef
             else if signed_int \<and> (pad XOR src ! (dest_len - 1)) AND 0x80 \<noteq> 0 then Err Out_of_range
             else Ok (take dest_len src))"

definition signed_from_signed :: "platform \<Rightarrow> nat \<Rightarrow> bytes \<Rightarrow> nat \<Rightarrow> bytes res" where
  "signed_from_signed pf dest_len src src_len =
     (case is_negative pf src src_len of
        Ok neg \<Rightarrow> copy_integer pf dest_len src src_len (if neg then 0xff else 0) True
      | Err e \<Rightarrow> Err e
      | Undef \<Rightarrow> Undef)"

definition signed_from_unsigned :: "platform \<Rightarrow> nat \<Rightarrow> bytes \<Rightarrow> nat \<Rightarrow> bytes res" where
  "signed_from_unsigned pf dest_len src src_len = copy_integer pf dest_len src src_len 0 True"

definition unsigned_from_signed :: "platform \<Rightarrow> nat \<Rightarrow> bytes \<Rightarrow> nat \<Rightarrow> bytes res" where
  "unsigned_from_signed pf dest_len src src_len =
     (case is_negative pf src src_len of
        Ok neg \<Rightarrow> if neg then Err Unsigned_negative else copy_integer pf dest_len src src_len 0 False
      | Err e \<Rightarrow> Err e
      | Undef \<Rightarrow> Undef)"

definition unsigned_from_unsigned :: "platform \<Rightarrow> nat \<Rightarrow> bytes \<Rightarrow> nat \<Rightarrow> bytes res" where
  "unsigned_from_unsigned pf dest_len src src_len = copy_integer pf dest_len src src_len 0 False"

definition general_get_int :: "platform \<Rightarrow> ossl_param \<Rightarrow> nat \<Rightarrow> bytes res" where
  "general_get_int pf p val_size =
     (case op_data p of
        None \<Rightarrow> Err Null_argument
      | Some data \<Rightarrow>
          if op_type p = OSSL_PARAM_INTEGER then signed_from_signed pf val_size data (op_size p)
          else if op_type p = OSSL_PARAM_UNSIGNED_INTEGER then signed_from_unsigned pf val_size data (op_size p)
          else Err Not_integer)"

definition general_get_uint :: "platform \<Rightarrow> ossl_param \<Rightarrow> nat \<Rightarrow> bytes res" where
  "general_get_uint pf p val_size =
     (case op_data p of
        None \<Rightarrow> Err Null_argument
      | Some data \<Rightarrow>
          if op_type p = OSSL_PARAM_INTEGER then unsigned_from_signed pf val_size data (op_size p)
          else if op_type p = OSSL_PARAM_UNSIGNED_INTEGER then unsigned_from_unsigned pf val_size data (op_size p)
          else Err Not_integer)"

text \<open>A setter returns the parameter with its new data and \<open>return_size\<close>, and the outcome.\<close>

definition set_outcome :: "ossl_param \<Rightarrow> bytes \<Rightarrow> nat \<Rightarrow> bytes res \<Rightarrow> ossl_param \<times> unit res" where
  "set_outcome p data val_size r =
     (case r of
        Ok bs \<Rightarrow> (p\<lparr>op_data := Some (store_at data 0 bs), op_return_size := op_size p\<rparr>, Ok ())
      | Err e \<Rightarrow> (p\<lparr>op_return_size := val_size\<rparr>, Err e)
      | Undef \<Rightarrow> (p, Undef))"

definition general_set_int :: "platform \<Rightarrow> ossl_param \<Rightarrow> bytes \<Rightarrow> nat \<Rightarrow> ossl_param \<times> unit res" where
  "general_set_int pf p val val_size =
     (case op_data p of
        None \<Rightarrow> (p\<lparr>op_return_size := val_size\<rparr>, Ok ())
      | Some data \<Rightarrow>
          set_outcome p data val_size
            (if op_type p = OSSL_PARAM_INTEGER then signed_from_signed pf (op_size p) val val_size
             else if op_type p = OSSL_PARAM_UNSIGNED_INTEGER then unsigned_from_signed pf (op_size p) val val_size
             else Err Not_integer))"

definition general_set_uint :: "platform \<Rightarrow> ossl_param \<Rightarrow> bytes \<Rightarrow> nat \<Rightarrow> ossl_param \<times> unit res" where
  "general_set_uint pf p val val_size =
     (case op_data p of
        None \<Rightarrow> (p\<lparr>op_return_size := val_size\<rparr>, Ok ())
      | Some data \<Rightarrow>
          set_outcome p data val_size
            (if op_type p = OSSL_PARAM_INTEGER then signed_from_unsigned pf (op_size p) val val_size
             else if op_type p = OSSL_PARAM_UNSIGNED_INTEGER then unsigned_from_unsigned pf (op_size p) val val_size
             else Err Not_integer))"

section \<open>The C integer types\<close>

text \<open>What a C object of some integer type holds: its bytes in the order of the platform.\<close>

definition le_value :: "bytes \<Rightarrow> int" where
  "le_value bs = int (be_value (rev bs))"

definition native_uint :: "platform \<Rightarrow> bytes \<Rightarrow> int" where
  "native_uint pf bs = le_value (if pf_big_endian pf then rev bs else bs)"

definition native_int :: "platform \<Rightarrow> bytes \<Rightarrow> int" where
  "native_int pf bs =
     (let u = native_uint pf bs; m = 256 ^ length bs in if 2 * u < m then u else u - m)"

primrec le_bytes :: "nat \<Rightarrow> int \<Rightarrow> bytes" where
  "le_bytes 0 v = []"
| "le_bytes (Suc n) v = of_int v # le_bytes n (v div 256)"

definition native_bytes :: "platform \<Rightarrow> nat \<Rightarrow> int \<Rightarrow> bytes" where
  "native_bytes pf n v = (if pf_big_endian pf then rev (le_bytes n v) else le_bytes n v)"

definition INT32_MIN :: int where "INT32_MIN = - (2 ^ 31)"
definition INT32_MAX :: int where "INT32_MAX = 2 ^ 31 - 1"
definition UINT32_MAX :: int where "UINT32_MAX = 2 ^ 32 - 1"
definition INT64_MIN :: int where "INT64_MIN = - (2 ^ 63)"
definition INT64_MAX :: int where "INT64_MAX = 2 ^ 63 - 1"
definition UINT64_MAX :: int where "UINT64_MAX = 2 ^ 64 - 1"

definition real_shift :: nat where "real_shift = 53"

text \<open>
  \<open>double_to_int\<close> is the test that a \<open>double\<close> is an integer of some range, and its value: the cast
  rounds towards zero, so that the comparison holds for integers only.
\<close>

definition double_to_int :: "platform \<Rightarrow> bytes \<Rightarrow> int \<Rightarrow> int \<Rightarrow> int option" where
  "double_to_int pf data lo hi =
     (case pf_double_read pf (take 8 data) of
        None \<Rightarrow> None
      | Some d \<Rightarrow> if of_int lo \<le> d \<and> d \<le> of_int hi \<and> of_int \<lfloor>d\<rfloor> = d then Some \<lfloor>d\<rfloor> else None)"

definition OSSL_PARAM_get_int32 :: "platform \<Rightarrow> ossl_param option \<Rightarrow> int res" where
  "OSSL_PARAM_get_int32 pf param =
     (case param of
        None \<Rightarrow> Err Null_argument
      | Some p \<Rightarrow>
          (case op_data p of
             None \<Rightarrow> Err Null_argument
           | Some data \<Rightarrow>
               if op_type p = OSSL_PARAM_INTEGER then
                 if op_size p = 4 then Ok (native_int pf (take 4 data))
                 else if op_size p = 8 then
                   let i64 = native_int pf (take 8 data)
                   in if i64 \<ge> INT32_MIN \<and> i64 \<le> INT32_MAX then Ok i64 else Err Out_of_range
                 else map_res (native_int pf) (general_get_int pf p 4)
               else if op_type p = OSSL_PARAM_UNSIGNED_INTEGER then
                 if op_size p = 4 then
                   let v = native_uint pf (take 4 data) in if v \<le> INT32_MAX then Ok v else Err Out_of_range
                 else if op_size p = 8 then
                   let v = native_uint pf (take 8 data) in if v \<le> INT32_MAX then Ok v else Err Out_of_range
                 else map_res (native_int pf) (general_get_int pf p 4)
               else if op_type p = OSSL_PARAM_REAL then
                 if op_size p = 8 then
                   (case double_to_int pf data INT32_MIN INT32_MAX of None \<Rightarrow> Err Out_of_range | Some v \<Rightarrow> Ok v)
                 else Err Unsupported_real
               else Err Bad_type))"

definition OSSL_PARAM_get_uint32 :: "platform \<Rightarrow> ossl_param option \<Rightarrow> int res" where
  "OSSL_PARAM_get_uint32 pf param =
     (case param of
        None \<Rightarrow> Err Null_argument
      | Some p \<Rightarrow>
          (case op_data p of
             None \<Rightarrow> Err Null_argument
           | Some data \<Rightarrow>
               if op_type p = OSSL_PARAM_UNSIGNED_INTEGER then
                 if op_size p = 4 then Ok (native_uint pf (take 4 data))
                 else if op_size p = 8 then
                   let v = native_uint pf (take 8 data) in if v \<le> UINT32_MAX then Ok v else Err Out_of_range
                 else map_res (native_uint pf) (general_get_uint pf p 4)
               else if op_type p = OSSL_PARAM_INTEGER then
                 if op_size p = 4 then
                   let i32 = native_int pf (take 4 data) in if i32 \<ge> 0 then Ok i32 else Err Unsigned_negative
                 else if op_size p = 8 then
                   let i64 = native_int pf (take 8 data)
                   in if i64 \<ge> 0 \<and> i64 \<le> UINT32_MAX then Ok i64
                      else if i64 < 0 then Err Unsigned_negative else Err Out_of_range
                 else map_res (native_uint pf) (general_get_uint pf p 4)
               else if op_type p = OSSL_PARAM_REAL then
                 if op_size p = 8 then
                   (case double_to_int pf data 0 UINT32_MAX of None \<Rightarrow> Err Inexact | Some v \<Rightarrow> Ok v)
                 else Err Unsupported_real
               else Err Bad_type))"

definition OSSL_PARAM_get_int64 :: "platform \<Rightarrow> ossl_param option \<Rightarrow> int res" where
  "OSSL_PARAM_get_int64 pf param =
     (case param of
        None \<Rightarrow> Err Null_argument
      | Some p \<Rightarrow>
          (case op_data p of
             None \<Rightarrow> Err Null_argument
           | Some data \<Rightarrow>
               if op_type p = OSSL_PARAM_INTEGER then
                 if op_size p = 4 then Ok (native_int pf (take 4 data))
                 else if op_size p = 8 then Ok (native_int pf (take 8 data))
                 else map_res (native_int pf) (general_get_int pf p 8)
               else if op_type p = OSSL_PARAM_UNSIGNED_INTEGER then
                 if op_size p = 4 then Ok (native_uint pf (take 4 data))
                 else if op_size p = 8 then
                   let v = native_uint pf (take 8 data) in if v \<le> INT64_MAX then Ok v else Err Out_of_range
                 else map_res (native_int pf) (general_get_int pf p 8)
               else if op_type p = OSSL_PARAM_REAL then
                 if op_size p = 8 then
                   (case double_to_int pf data INT64_MIN INT64_MAX of None \<Rightarrow> Err Inexact | Some v \<Rightarrow> Ok v)
                 else Err Unsupported_real
               else Err Bad_type))"

definition OSSL_PARAM_get_uint64 :: "platform \<Rightarrow> ossl_param option \<Rightarrow> int res" where
  "OSSL_PARAM_get_uint64 pf param =
     (case param of
        None \<Rightarrow> Err Null_argument
      | Some p \<Rightarrow>
          (case op_data p of
             None \<Rightarrow> Err Null_argument
           | Some data \<Rightarrow>
               if op_type p = OSSL_PARAM_UNSIGNED_INTEGER then
                 if op_size p = 4 then Ok (native_uint pf (take 4 data))
                 else if op_size p = 8 then Ok (native_uint pf (take 8 data))
                 else map_res (native_uint pf) (general_get_uint pf p 8)
               else if op_type p = OSSL_PARAM_INTEGER then
                 if op_size p = 4 then
                   let i32 = native_int pf (take 4 data) in if i32 \<ge> 0 then Ok i32 else Err Unsigned_negative
                 else if op_size p = 8 then
                   let i64 = native_int pf (take 8 data) in if i64 \<ge> 0 then Ok i64 else Err Unsigned_negative
                 else map_res (native_uint pf) (general_get_uint pf p 8)
               else if op_type p = OSSL_PARAM_REAL then
                 if op_size p = 8 then
                   (case double_to_int pf data 0 UINT64_MAX of None \<Rightarrow> Err Inexact | Some v \<Rightarrow> Ok v)
                 else Err Unsupported_real
               else Err Bad_type))"

text \<open>The test of \<open>p\<close> with which every setter starts.\<close>

definition nonnull ::
    "ossl_param option \<Rightarrow> (ossl_param \<Rightarrow> ossl_param \<times> unit res) \<Rightarrow> ossl_param option \<times> unit res" where
  "nonnull param f =
     (case param of None \<Rightarrow> (None, Err Null_argument) | Some p \<Rightarrow> (case f p of (q, r) \<Rightarrow> (Some q, r)))"

text \<open>
  A store of \<open>n\<close> bytes to \<open>p->data\<close>, with \<open>return_size\<close> set to \<open>n\<close>.
\<close>

definition param_store :: "ossl_param \<Rightarrow> bytes \<Rightarrow> bytes \<Rightarrow> ossl_param \<times> unit res" where
  "param_store p data bs =
     (p\<lparr>op_data := Some (store_at data 0 bs), op_return_size := length bs\<rparr>, Ok ())"

definition OSSL_PARAM_set_int32 :: "platform \<Rightarrow> ossl_param option \<Rightarrow> int \<Rightarrow> ossl_param option \<times> unit res" where
  "OSSL_PARAM_set_int32 pf param val = nonnull param (\<lambda>p.
     (if op_type p = OSSL_PARAM_INTEGER then
        (case op_data p of
           None \<Rightarrow> (p\<lparr>op_return_size := 4\<rparr>, Ok ())
         | Some data \<Rightarrow>
             if op_size p = 4 then param_store p data (native_bytes pf 4 val)
             else if op_size p = 8 then param_store p data (native_bytes pf 8 val)
             else general_set_int pf (p\<lparr>op_return_size := 4\<rparr>) (native_bytes pf 4 val) 4)
      else if op_type p = OSSL_PARAM_UNSIGNED_INTEGER \<and> val \<ge> 0 then
        (case op_data p of
           None \<Rightarrow> (p\<lparr>op_return_size := 4\<rparr>, Ok ())
         | Some data \<Rightarrow>
             if op_size p = 4 then param_store p data (native_bytes pf 4 val)
             else if op_size p = 8 then param_store p data (native_bytes pf 8 val)
             else general_set_int pf (p\<lparr>op_return_size := 4\<rparr>) (native_bytes pf 4 val) 4)
      else if op_type p = OSSL_PARAM_REAL then
        (case op_data p of
           None \<Rightarrow> (p\<lparr>op_return_size := 8\<rparr>, Ok ())
         | Some data \<Rightarrow>
             if op_size p = 8 then
               if real_shift < 8 * 4 - 1 \<and> \<bar>val\<bar> div 2 ^ real_shift \<noteq> 0
               then (p\<lparr>op_return_size := 8\<rparr>, Err Inexact)
               else (p\<lparr>op_data := Some (store_at data 0 (pf_double_write pf val)), op_return_size := 8\<rparr>, Ok ())
             else (p\<lparr>op_return_size := 8\<rparr>, Err Unsupported_real))
      else (p\<lparr>op_return_size := 0\<rparr>, Err Bad_type)))"

definition OSSL_PARAM_set_uint32 :: "platform \<Rightarrow> ossl_param option \<Rightarrow> int \<Rightarrow> ossl_param option \<times> unit res" where
  "OSSL_PARAM_set_uint32 pf param val = nonnull param (\<lambda>p.
     (if op_type p = OSSL_PARAM_UNSIGNED_INTEGER then
        (case op_data p of
           None \<Rightarrow> (p\<lparr>op_return_size := 4\<rparr>, Ok ())
         | Some data \<Rightarrow>
             if op_size p = 4 then param_store p data (native_bytes pf 4 val)
             else if op_size p = 8 then param_store p data (native_bytes pf 8 val)
             else general_set_uint pf (p\<lparr>op_return_size := 4\<rparr>) (native_bytes pf 4 val) 4)
      else if op_type p = OSSL_PARAM_INTEGER then
        (case op_data p of
           None \<Rightarrow> (p\<lparr>op_return_size := 4\<rparr>, Ok ())
         | Some data \<Rightarrow>
             if op_size p = 4 then
               if val \<le> INT32_MAX then param_store p data (native_bytes pf 4 val)
               else (p\<lparr>op_return_size := 4\<rparr>, Err Out_of_range)
             else if op_size p = 8 then param_store p data (native_bytes pf 8 val)
             else general_set_uint pf (p\<lparr>op_return_size := 4\<rparr>) (native_bytes pf 4 val) 4)
      else if op_type p = OSSL_PARAM_REAL then
        (case op_data p of
           None \<Rightarrow> (p\<lparr>op_return_size := 8\<rparr>, Ok ())
         | Some data \<Rightarrow>
             if op_size p = 8 then
               if real_shift < 8 * 4 \<and> val div 2 ^ real_shift \<noteq> 0
               then (p\<lparr>op_return_size := 0\<rparr>, Err Inexact)
               else (p\<lparr>op_data := Some (store_at data 0 (pf_double_write pf val)), op_return_size := 8\<rparr>, Ok ())
             else (p\<lparr>op_return_size := 0\<rparr>, Err Unsupported_real))
      else (p\<lparr>op_return_size := 0\<rparr>, Err Bad_type)))"

definition OSSL_PARAM_set_int64 :: "platform \<Rightarrow> ossl_param option \<Rightarrow> int \<Rightarrow> ossl_param option \<times> unit res" where
  "OSSL_PARAM_set_int64 pf param val = nonnull param (\<lambda>p.
     (if op_type p = OSSL_PARAM_INTEGER then
        (case op_data p of
           None \<Rightarrow> (p\<lparr>op_return_size := 8\<rparr>, Ok ())
         | Some data \<Rightarrow>
             if op_size p = 4 then
               if val \<ge> INT32_MIN \<and> val \<le> INT32_MAX then param_store p data (native_bytes pf 4 val)
               else (p\<lparr>op_return_size := 0\<rparr>, Err Out_of_range)
             else if op_size p = 8 then param_store p data (native_bytes pf 8 val)
             else general_set_int pf (p\<lparr>op_return_size := 0\<rparr>) (native_bytes pf 8 val) 8)
      else if op_type p = OSSL_PARAM_UNSIGNED_INTEGER \<and> val \<ge> 0 then
        (case op_data p of
           None \<Rightarrow> (p\<lparr>op_return_size := 8\<rparr>, Ok ())
         | Some data \<Rightarrow>
             if op_size p = 4 then
               if val \<le> UINT32_MAX then param_store p data (native_bytes pf 4 val)
               else (p\<lparr>op_return_size := 0\<rparr>, Err Out_of_range)
             else if op_size p = 8 then param_store p data (native_bytes pf 8 val)
             else general_set_int pf (p\<lparr>op_return_size := 0\<rparr>) (native_bytes pf 8 val) 8)
      else if op_type p = OSSL_PARAM_REAL then
        (case op_data p of
           None \<Rightarrow> (p\<lparr>op_return_size := 8\<rparr>, Ok ())
         | Some data \<Rightarrow>
             if op_size p = 8 then
               if \<bar>val\<bar> div 2 ^ real_shift = 0
               then (p\<lparr>op_data := Some (store_at data 0 (pf_double_write pf val)), op_return_size := 8\<rparr>, Ok ())
               else (p\<lparr>op_return_size := 0\<rparr>, Err Inexact)
             else (p\<lparr>op_return_size := 0\<rparr>, Err Unsupported_real))
      else (p\<lparr>op_return_size := 0\<rparr>, Err Bad_type)))"

text \<open>A parameter of type \<open>OSSL_PARAM_REAL\<close> is written to without a test for \<open>p->data == NULL\<close>.\<close>

definition OSSL_PARAM_set_uint64 :: "platform \<Rightarrow> ossl_param option \<Rightarrow> int \<Rightarrow> ossl_param option \<times> unit res" where
  "OSSL_PARAM_set_uint64 pf param val = nonnull param (\<lambda>p.
     (if op_type p = OSSL_PARAM_UNSIGNED_INTEGER then
        (case op_data p of
           None \<Rightarrow> (p\<lparr>op_return_size := 8\<rparr>, Ok ())
         | Some data \<Rightarrow>
             if op_size p = 4 then
               if val \<le> UINT32_MAX then param_store p data (native_bytes pf 4 val)
               else (p\<lparr>op_return_size := 0\<rparr>, Err Out_of_range)
             else if op_size p = 8 then param_store p data (native_bytes pf 8 val)
             else general_set_uint pf (p\<lparr>op_return_size := 0\<rparr>) (native_bytes pf 8 val) 8)
      else if op_type p = OSSL_PARAM_INTEGER then
        (case op_data p of
           None \<Rightarrow> (p\<lparr>op_return_size := 8\<rparr>, Ok ())
         | Some data \<Rightarrow>
             if op_size p = 4 then
               if val \<le> INT32_MAX then param_store p data (native_bytes pf 4 val)
               else (p\<lparr>op_return_size := 0\<rparr>, Err Out_of_range)
             else if op_size p = 8 then
               if val \<le> INT64_MAX then param_store p data (native_bytes pf 8 val)
               else (p\<lparr>op_return_size := 0\<rparr>, Err Out_of_range)
             else general_set_uint pf (p\<lparr>op_return_size := 0\<rparr>) (native_bytes pf 8 val) 8)
      else if op_type p = OSSL_PARAM_REAL then
        if op_size p = 8 then
          if val div 2 ^ real_shift = 0 then
            (case op_data p of
               None \<Rightarrow> (p\<lparr>op_return_size := 8\<rparr>, Undef)
             | Some data \<Rightarrow>
                 (p\<lparr>op_data := Some (store_at data 0 (pf_double_write pf val)), op_return_size := 8\<rparr>, Ok ()))
          else (p\<lparr>op_return_size := 0\<rparr>, Err Inexact)
        else (p\<lparr>op_return_size := 0\<rparr>, Err Unsupported_real)
      else (p\<lparr>op_return_size := 0\<rparr>, Err Bad_type)))"

text \<open>
  The types whose size depends on the platform: a parameter is read and written as the type of 32 or
  64 bits that it is, and byte by byte when it is neither.
\<close>

definition general_get ::
    "(ossl_param \<Rightarrow> nat \<Rightarrow> bytes res) \<Rightarrow> (bytes \<Rightarrow> int) \<Rightarrow> ossl_param option \<Rightarrow> nat \<Rightarrow> int res" where
  "general_get get rd param n = (case param of None \<Rightarrow> Undef | Some p \<Rightarrow> map_res rd (get p n))"

definition general_set ::
    "(ossl_param \<Rightarrow> bytes \<Rightarrow> nat \<Rightarrow> ossl_param \<times> unit res) \<Rightarrow> ossl_param option \<Rightarrow> bytes \<Rightarrow> nat \<Rightarrow>
     ossl_param option \<times> unit res" where
  "general_set put param val n =
     (case param of None \<Rightarrow> (None, Undef) | Some p \<Rightarrow> (case put p val n of (q, r) \<Rightarrow> (Some q, r)))"

definition OSSL_PARAM_get_int :: "platform \<Rightarrow> ossl_param option \<Rightarrow> int res" where
  "OSSL_PARAM_get_int pf p =
     (if pf_sizeof_int pf = 4 then OSSL_PARAM_get_int32 pf p
      else if pf_sizeof_int pf = 8 then OSSL_PARAM_get_int64 pf p
      else general_get (general_get_int pf) (native_int pf) p (pf_sizeof_int pf))"

definition OSSL_PARAM_set_int :: "platform \<Rightarrow> ossl_param option \<Rightarrow> int \<Rightarrow> ossl_param option \<times> unit res" where
  "OSSL_PARAM_set_int pf p val =
     (if pf_sizeof_int pf = 4 then OSSL_PARAM_set_int32 pf p val
      else if pf_sizeof_int pf = 8 then OSSL_PARAM_set_int64 pf p val
      else general_set (general_set_int pf) p (native_bytes pf (pf_sizeof_int pf) val) (pf_sizeof_int pf))"

definition OSSL_PARAM_construct_int :: "platform \<Rightarrow> string \<Rightarrow> bytes option \<Rightarrow> ossl_param" where
  "OSSL_PARAM_construct_int pf key buf =
     ossl_param_construct key OSSL_PARAM_INTEGER buf (pf_sizeof_int pf)"

definition OSSL_PARAM_get_uint :: "platform \<Rightarrow> ossl_param option \<Rightarrow> int res" where
  "OSSL_PARAM_get_uint pf p =
     (if pf_sizeof_int pf = 4 then OSSL_PARAM_get_uint32 pf p
      else if pf_sizeof_int pf = 8 then OSSL_PARAM_get_uint64 pf p
      else general_get (general_get_uint pf) (native_uint pf) p (pf_sizeof_int pf))"

definition OSSL_PARAM_set_uint :: "platform \<Rightarrow> ossl_param option \<Rightarrow> int \<Rightarrow> ossl_param option \<times> unit res" where
  "OSSL_PARAM_set_uint pf p val =
     (if pf_sizeof_int pf = 4 then OSSL_PARAM_set_uint32 pf p val
      else if pf_sizeof_int pf = 8 then OSSL_PARAM_set_uint64 pf p val
      else general_set (general_set_uint pf) p (native_bytes pf (pf_sizeof_int pf) val) (pf_sizeof_int pf))"

definition OSSL_PARAM_construct_uint :: "platform \<Rightarrow> string \<Rightarrow> bytes option \<Rightarrow> ossl_param" where
  "OSSL_PARAM_construct_uint pf key buf =
     ossl_param_construct key OSSL_PARAM_UNSIGNED_INTEGER buf (pf_sizeof_int pf)"

definition OSSL_PARAM_get_long :: "platform \<Rightarrow> ossl_param option \<Rightarrow> int res" where
  "OSSL_PARAM_get_long pf p =
     (if pf_sizeof_long pf = 4 then OSSL_PARAM_get_int32 pf p
      else if pf_sizeof_long pf = 8 then OSSL_PARAM_get_int64 pf p
      else general_get (general_get_int pf) (native_int pf) p (pf_sizeof_long pf))"

definition OSSL_PARAM_set_long :: "platform \<Rightarrow> ossl_param option \<Rightarrow> int \<Rightarrow> ossl_param option \<times> unit res" where
  "OSSL_PARAM_set_long pf p val =
     (if pf_sizeof_long pf = 4 then OSSL_PARAM_set_int32 pf p val
      else if pf_sizeof_long pf = 8 then OSSL_PARAM_set_int64 pf p val
      else general_set (general_set_int pf) p (native_bytes pf (pf_sizeof_long pf) val) (pf_sizeof_long pf))"

definition OSSL_PARAM_construct_long :: "platform \<Rightarrow> string \<Rightarrow> bytes option \<Rightarrow> ossl_param" where
  "OSSL_PARAM_construct_long pf key buf =
     ossl_param_construct key OSSL_PARAM_INTEGER buf (pf_sizeof_long pf)"

definition OSSL_PARAM_get_ulong :: "platform \<Rightarrow> ossl_param option \<Rightarrow> int res" where
  "OSSL_PARAM_get_ulong pf p =
     (if pf_sizeof_long pf = 4 then OSSL_PARAM_get_uint32 pf p
      else if pf_sizeof_long pf = 8 then OSSL_PARAM_get_uint64 pf p
      else general_get (general_get_uint pf) (native_uint pf) p (pf_sizeof_long pf))"

definition OSSL_PARAM_set_ulong :: "platform \<Rightarrow> ossl_param option \<Rightarrow> int \<Rightarrow> ossl_param option \<times> unit res" where
  "OSSL_PARAM_set_ulong pf p val =
     (if pf_sizeof_long pf = 4 then OSSL_PARAM_set_uint32 pf p val
      else if pf_sizeof_long pf = 8 then OSSL_PARAM_set_uint64 pf p val
      else general_set (general_set_uint pf) p (native_bytes pf (pf_sizeof_long pf) val) (pf_sizeof_long pf))"

definition OSSL_PARAM_construct_ulong :: "platform \<Rightarrow> string \<Rightarrow> bytes option \<Rightarrow> ossl_param" where
  "OSSL_PARAM_construct_ulong pf key buf =
     ossl_param_construct key OSSL_PARAM_UNSIGNED_INTEGER buf (pf_sizeof_long pf)"

definition OSSL_PARAM_get_size_t :: "platform \<Rightarrow> ossl_param option \<Rightarrow> int res" where
  "OSSL_PARAM_get_size_t pf p =
     (if pf_sizeof_size_t pf = 4 then OSSL_PARAM_get_uint32 pf p
      else if pf_sizeof_size_t pf = 8 then OSSL_PARAM_get_uint64 pf p
      else general_get (general_get_uint pf) (native_uint pf) p (pf_sizeof_size_t pf))"

definition OSSL_PARAM_set_size_t :: "platform \<Rightarrow> ossl_param option \<Rightarrow> int \<Rightarrow> ossl_param option \<times> unit res" where
  "OSSL_PARAM_set_size_t pf p val =
     (if pf_sizeof_size_t pf = 4 then OSSL_PARAM_set_uint32 pf p val
      else if pf_sizeof_size_t pf = 8 then OSSL_PARAM_set_uint64 pf p val
      else general_set (general_set_uint pf) p (native_bytes pf (pf_sizeof_size_t pf) val) (pf_sizeof_size_t pf))"

definition OSSL_PARAM_construct_size_t :: "platform \<Rightarrow> string \<Rightarrow> bytes option \<Rightarrow> ossl_param" where
  "OSSL_PARAM_construct_size_t pf key buf =
     ossl_param_construct key OSSL_PARAM_UNSIGNED_INTEGER buf (pf_sizeof_size_t pf)"

definition OSSL_PARAM_get_time_t :: "platform \<Rightarrow> ossl_param option \<Rightarrow> int res" where
  "OSSL_PARAM_get_time_t pf p =
     (if pf_sizeof_time_t pf = 4 then OSSL_PARAM_get_int32 pf p
      else if pf_sizeof_time_t pf = 8 then OSSL_PARAM_get_int64 pf p
      else general_get (general_get_int pf) (native_int pf) p (pf_sizeof_time_t pf))"

definition OSSL_PARAM_set_time_t :: "platform \<Rightarrow> ossl_param option \<Rightarrow> int \<Rightarrow> ossl_param option \<times> unit res" where
  "OSSL_PARAM_set_time_t pf p val =
     (if pf_sizeof_time_t pf = 4 then OSSL_PARAM_set_int32 pf p val
      else if pf_sizeof_time_t pf = 8 then OSSL_PARAM_set_int64 pf p val
      else general_set (general_set_int pf) p (native_bytes pf (pf_sizeof_time_t pf) val) (pf_sizeof_time_t pf))"

definition OSSL_PARAM_construct_time_t :: "platform \<Rightarrow> string \<Rightarrow> bytes option \<Rightarrow> ossl_param" where
  "OSSL_PARAM_construct_time_t pf key buf =
     ossl_param_construct key OSSL_PARAM_INTEGER buf (pf_sizeof_time_t pf)"

definition OSSL_PARAM_construct_int32 :: "string \<Rightarrow> bytes option \<Rightarrow> ossl_param" where
  "OSSL_PARAM_construct_int32 key buf = ossl_param_construct key OSSL_PARAM_INTEGER buf 4"

definition OSSL_PARAM_construct_uint32 :: "string \<Rightarrow> bytes option \<Rightarrow> ossl_param" where
  "OSSL_PARAM_construct_uint32 key buf = ossl_param_construct key OSSL_PARAM_UNSIGNED_INTEGER buf 4"

definition OSSL_PARAM_construct_int64 :: "string \<Rightarrow> bytes option \<Rightarrow> ossl_param" where
  "OSSL_PARAM_construct_int64 key buf = ossl_param_construct key OSSL_PARAM_INTEGER buf 8"

definition OSSL_PARAM_construct_uint64 :: "string \<Rightarrow> bytes option \<Rightarrow> ossl_param" where
  "OSSL_PARAM_construct_uint64 key buf = ossl_param_construct key OSSL_PARAM_UNSIGNED_INTEGER buf 8"

section \<open>Values of byte strings\<close>

lemma le_value_Nil [simp]: "le_value [] = 0"
  by (simp add: le_value_def)

lemma le_value_Cons [simp]: "le_value (b # bs) = uint b + 256 * le_value bs"
  by (simp add: le_value_def)

lemma le_value_bounds: "0 \<le> le_value bs" "le_value bs < 256 ^ length bs"
  using be_value_less [of "rev bs"] by (simp_all add: le_value_def flip: of_nat_power_less_of_nat_cancel_iff)

text \<open>A byte string read with a sign: all ones before its first byte when \<open>neg\<close>, else zeros.\<close>

definition sign_value :: "bool \<Rightarrow> bytes \<Rightarrow> int" where
  "sign_value neg bs = le_value bs - (if neg then 256 ^ length bs else 0)"

abbreviation pad_of :: "bool \<Rightarrow> byte" where
  "pad_of neg \<equiv> (if neg then 0xff else 0)"

lemma sign_value_Nil [simp]: "sign_value neg [] = (if neg then -1 else 0)"
  by (simp add: sign_value_def)

lemma sign_value_Cons [simp]: "sign_value neg (b # bs) = uint b + 256 * sign_value neg bs"
  by (simp add: sign_value_def)

lemma uint_byte_bounds: "0 \<le> uint (b :: byte)" "uint (b :: byte) < 256"
  using unat_byte_less [of b] by (simp_all add: uint_nat del: of_nat_unat)

lemma of_int_byte: "(of_int (uint b + 256 * k) :: byte) = b"
  using uint_byte_bounds [of b] by (simp only: word_uint_eq_iff uint_word_of_int) simp

lemma div_byte: "(uint (b :: byte) + 256 * k) div 256 = k"
  using uint_byte_bounds [of b] by (simp add: div_add1_eq)

lemma le_bytes_const: "le_bytes n (if neg then -1 else 0) = replicate n (pad_of neg)"
  by (induction n) auto

lemma le_bytes_byte: "le_bytes (Suc n) (uint b + 256 * k) = b # le_bytes n k"
  by (simp only: le_bytes.simps of_int_byte div_byte)

lemma le_bytes_sign_value: "le_bytes n (sign_value neg bs) = take n (bs @ replicate n (pad_of neg))"
proof (induction bs arbitrary: n)
  case Nil
  then show ?case
    using le_bytes_const [of n neg] by simp
next
  case (Cons b bs)
  then show ?case
  proof (cases n)
    case (Suc m)
    have "take m (bs @ replicate (Suc m) c) = take m (bs @ replicate m c)" for c
      by (simp add: take_replicate min_def del: replicate_Suc)
    with Cons.IH [of m] Suc show ?thesis
      by (simp add: le_bytes_byte del: replicate_Suc le_bytes.simps)
  qed simp
qed

lemma length_le_bytes [simp]: "length (le_bytes n v) = n"
  by (induction n arbitrary: v) simp_all

lemma le_value_le_bytes: "le_value (le_bytes n v) = v mod 256 ^ n"
proof (induction n arbitrary: v)
  case (Suc n)
  have "uint (of_int v :: byte) = v mod 256"
    by (simp add: uint_word_of_int)
  then show ?case
    using Suc.IH [of "v div 256"] by (simp add: zmod_zmult2_eq)
qed simp

lemma sign_value_drop: "sign_value neg bs div 256 ^ n = sign_value neg (drop n bs)" if "n \<le> length bs"
  using that
proof (induction n arbitrary: bs)
  case (Suc n)
  then obtain b bs' where bs: "bs = b # bs'" "n \<le> length bs'"
    by (cases bs) auto
  have "sign_value neg (b # bs') div 256 ^ Suc n = sign_value neg (b # bs') div 256 div 256 ^ n"
    by (simp add: zdiv_zmult2_eq)
  then show ?case
    using Suc.IH [OF bs(2)] bs(1) by (simp add: div_byte)
qed simp

lemma sign_value_pad: "sign_value neg bs = (if neg then -1 else 0) \<longleftrightarrow> list_all (\<lambda>b. b = pad_of neg) bs"
proof (induction bs)
  case (Cons b bs)
  have "uint b + 256 * k = (if neg then -1 else 0) \<longleftrightarrow> b = pad_of neg \<and> k = (if neg then -1 else 0)" for k
  proof
    assume e: "uint b + 256 * k = (if neg then -1 else 0)"
    then have "of_int (uint b + 256 * k) = (pad_of neg)" and "(uint b + 256 * k) div 256 = (if neg then -1 else 0)"
      by (simp_all split: if_splits)
    then show "b = pad_of neg \<and> k = (if neg then -1 else 0)"
      unfolding of_int_byte div_byte by simp
  qed auto
  then show ?case
    using Cons.IH by simp
qed simp

lemma int_div_eq_iff:
  assumes "0 < (m :: int)"
  shows "v div m = c \<longleftrightarrow> c * m \<le> v \<and> v < c * m + m"
proof
  assume "v div m = c"
  then show "c * m \<le> v \<and> v < c * m + m"
    using div_mult_mod_eq [of v m] pos_mod_bound [OF assms, of v] pos_mod_sign [OF assms, of v] by simp
next
  assume "c * m \<le> v \<and> v < c * m + m"
  then show "v div m = c"
    by (intro int_div_pos_eq [of v m c "v - c * m"]) (simp_all add: mult.commute)
qed

lemma fits_pad:
  assumes "n \<le> length bs"
  shows "list_all (\<lambda>b. b = pad_of neg) (drop n bs) \<longleftrightarrow>
    (if neg then - (256 ^ n) \<le> sign_value neg bs \<and> sign_value neg bs < 0
     else 0 \<le> sign_value neg bs \<and> sign_value neg bs < 256 ^ n)"
proof -
  have "list_all (\<lambda>b. b = pad_of neg) (drop n bs) \<longleftrightarrow> sign_value neg bs div 256 ^ n = (if neg then -1 else 0)"
    by (simp only: sign_value_drop [OF assms] sign_value_pad)
  also have "\<dots> \<longleftrightarrow> (if neg then - (256 ^ n) \<le> sign_value neg bs \<and> sign_value neg bs < 0
     else 0 \<le> sign_value neg bs \<and> sign_value neg bs < 256 ^ n)"
    using int_div_eq_iff [of "256 ^ n" "sign_value neg bs"] by simp
  finally show ?thesis .
qed

lemma byte_top_bit: "0x80 AND b \<noteq> 0 \<longleftrightarrow> 128 \<le> uint b" for b :: byte
proof -
  have "0x80 AND b \<noteq> 0 \<longleftrightarrow> bit b 7"
    using and_exp_eq_0_iff_not_bit [of b 7] by (simp add: and.commute)
  also have "\<dots> \<longleftrightarrow> odd (uint b div 128)"
    using bit_uint_iff [of b 7] bit_iff_odd [of "uint b" 7] by simp
  also have "\<dots> \<longleftrightarrow> 128 \<le> uint b"
    using uint_byte_bounds [of b] int_div_eq_iff [of 128 "uint b" 0] int_div_eq_iff [of 128 "uint b" 1]
    by (cases "128 \<le> uint b") auto
  finally show ?thesis .
qed

lemma top_digit: "256 * m \<le> 2 * (l + m * u) \<longleftrightarrow> 128 \<le> u" if l: "0 \<le> l" "l < m" for l m u :: int
proof -
  define w where "w = m * u"
  have "128 * m \<le> w" if "128 \<le> u"
    using that l mult_left_mono [of 128 u m] by (simp add: w_def mult.commute)
  moreover have "w \<le> 127 * m" if "\<not> 128 \<le> u"
    using that l mult_left_mono [of u 127 m] by (simp add: w_def mult.commute)
  ultimately have "256 * m \<le> 2 * (l + w) \<longleftrightarrow> 128 \<le> u"
    using l by (cases "128 \<le> u") auto
  then show ?thesis
    by (simp add: w_def)
qed

lemma le_value_snoc: "le_value (xs @ [x]) = le_value xs + 256 ^ length xs * uint x"
  by (induction xs) (simp_all add: algebra_simps)

lemma top_bit:
  assumes "bs \<noteq> []"
  shows "0x80 AND last bs \<noteq> 0 \<longleftrightarrow> 256 ^ length bs \<le> 2 * le_value bs"
  using assms
proof (cases bs rule: rev_cases)
  case (snoc xs x)
  then show ?thesis
    using top_digit [OF le_value_bounds, of xs "uint x"] by (simp add: byte_top_bit le_value_snoc)
qed simp

section \<open>Copying an integer\<close>

lemma pad_top_bit: "(pad_of neg XOR b) AND 0x80 \<noteq> 0 \<longleftrightarrow> neg \<noteq> (0x80 AND b \<noteq> 0)"
proof -
  have e: "x AND 0x80 \<noteq> 0 \<longleftrightarrow> bit x 7" for x :: byte
    using and_exp_eq_0_iff_not_bit [of x 7] by simp
  have "bit (pad_of neg) 7 \<longleftrightarrow> neg"
    by simp
  then have "bit (pad_of neg XOR b) 7 \<longleftrightarrow> neg \<noteq> bit b 7"
    by (simp only: bit_xor_iff)
  then show ?thesis
    unfolding e and.commute [of "0x80" b] by simp
qed

lemma sign_value_sign: "sign_value neg bs < 0 \<longleftrightarrow> neg"
  using le_value_bounds [of bs] by (auto simp: sign_value_def)

text \<open>When the bytes beyond the first \<open>n\<close> are padding, these have the same value.\<close>

lemma sign_value_take:
  assumes "n \<le> length bs" and "list_all (\<lambda>b. b = pad_of neg) (drop n bs)"
  shows "le_value (take n bs) = sign_value neg bs + (if neg then 256 ^ n else 0)"
proof -
  have "take n bs = le_bytes n (sign_value neg bs)"
    using assms(1) by (simp add: le_bytes_sign_value)
  then have "le_value (take n bs) = sign_value neg bs mod 256 ^ n"
    by (simp only: le_value_le_bytes)
  moreover have "sign_value neg bs div 256 ^ n = (if neg then -1 else 0)"
    using assms by (simp only: sign_value_drop sign_value_pad)
  ultimately show ?thesis
    using div_mult_mod_eq [of "sign_value neg bs" "256 ^ n"] by (auto split: if_splits)
qed

lemma copy_unsigned_le:
  assumes "\<not> pf_big_endian pf" and "length src = n"
  shows "copy_integer pf d src n 0 False =
    (if le_value src < 256 ^ d then Ok (le_bytes d (le_value src)) else Err Out_of_range)"
proof -
  have v: "sign_value False src = le_value src"
    by (simp add: sign_value_def)
  show ?thesis
  proof (cases "n < d")
    case True
    have "le_value src < 256 ^ n"
      using le_value_bounds [of src] assms by simp
    also have "\<dots> \<le> (256 :: int) ^ d"
      using True by (intro power_increasing) simp_all
    finally show ?thesis
      using True assms le_bytes_sign_value [of d False src] by (simp add: copy_integer_def v take_replicate min_def)
  next
    case False
    then show ?thesis
      using assms fits_pad [of d src False] le_bytes_sign_value [of d False src] le_value_bounds [of src]
      by (simp add: copy_integer_def check_sign_bytes_def v)
  qed
qed

lemma copy_signed_le:
  assumes "\<not> pf_big_endian pf" and "length src = n" and "0 < d"
  shows "copy_integer pf d src n (pad_of neg) True =
    (if - (256 ^ d) \<le> 2 * sign_value neg src \<and> 2 * sign_value neg src < 256 ^ d
     then Ok (le_bytes d (sign_value neg src)) else Err Out_of_range)"
proof (cases "n < d")
  case True
  then have "256 * (256 :: int) ^ n \<le> 256 ^ d"
    using power_increasing [of "Suc n" d "256 :: int"] by simp
  moreover have "0 \<le> (256 :: int) ^ n"
    by simp
  ultimately have "2 * (256 :: int) ^ n \<le> 256 ^ d"
    by linarith
  then have "- (256 ^ d) \<le> 2 * sign_value neg src" "2 * sign_value neg src < 256 ^ d"
    using le_value_bounds [of src] assms(2) by (auto simp: sign_value_def)
  then show ?thesis
    using True assms(1,2) le_bytes_sign_value [of d neg src] by (simp add: copy_integer_def take_replicate min_def)
next
  case False
  let ?t = "take d src"
  let ?all = "list_all (\<lambda>b. b = pad_of neg) (drop d src)"
  have d: "d \<le> length src" "?t \<noteq> []" "length ?t = d"
    using False assms by auto
  then have l: "src ! (d - 1) = last ?t"
    using assms(3) by (simp add: last_conv_nth)
  have ok: "?all \<and> \<not> (neg \<noteq> (0x80 AND last ?t \<noteq> 0)) \<longleftrightarrow>
      - (256 ^ d) \<le> 2 * sign_value neg src \<and> 2 * sign_value neg src < 256 ^ d"
  proof (cases ?all)
    case True
    have "0x80 AND last ?t \<noteq> 0 \<longleftrightarrow> 256 ^ d \<le> 2 * le_value ?t"
      using top_bit [OF d(2)] d(3) by simp
    then show ?thesis
      using True sign_value_take [OF d(1) True] sign_value_sign [of neg src] by auto
  next
    case no: False
    then show ?thesis
      using fits_pad [OF d(1), of neg] sign_value_sign [of neg src] by auto
  qed
  have take: "?t = le_bytes d (sign_value neg src)"
    using d(1) by (simp add: le_bytes_sign_value)
  have "copy_integer pf d src n (pad_of neg) True =
      (if ?all \<and> \<not> (neg \<noteq> (0x80 AND last ?t \<noteq> 0)) then Ok ?t else Err Out_of_range)"
    using assms False l unfolding copy_integer_def check_sign_bytes_def Let_def pad_top_bit
    by simp
  then show ?thesis
    unfolding ok unfolding take .
qed

text \<open>On the other byte order the same happens to the reversed strings.\<close>

lemma copy_integer_be:
  assumes "pf_big_endian pf" and "\<not> pf_big_endian pf'" and "length src = n"
  shows "copy_integer pf d src n pad si = map_res rev (copy_integer pf' d (rev src) n pad si)"
proof (cases "n < d")
  case True
  then show ?thesis
    using assms by (simp add: copy_integer_def)
next
  case False
  have "list_all (\<lambda>b. b = pad) (take (n - d) src) \<longleftrightarrow> list_all (\<lambda>b. b = pad) (drop d (rev src))"
    using assms(3) by (simp add: drop_rev)
  moreover have "0 < d \<Longrightarrow> src ! (n - d) = rev src ! (d - 1)"
    using assms(3) False by (simp add: rev_nth)
  moreover have "take d (drop (n - d) src) = rev (take d (rev src))"
    using assms(3) False by (simp add: take_rev)
  ultimately show ?thesis
    using assms False by (auto simp: copy_integer_def check_sign_bytes_def Let_def)
qed

section \<open>The four conversions\<close>

definition native_order :: "platform \<Rightarrow> bytes \<Rightarrow> bytes" where
  "native_order pf bs = (if pf_big_endian pf then rev bs else bs)"

lemma native_order_simps [simp]:
  "length (native_order pf bs) = length bs" "native_order pf (native_order pf bs) = bs"
  "native_order pf bs = [] \<longleftrightarrow> bs = []"
  by (simp_all add: native_order_def)

lemma native_eq:
  "native_uint pf bs = le_value (native_order pf bs)" "native_bytes pf n v = native_order pf (le_bytes n v)"
  by (simp_all add: native_uint_def native_bytes_def native_order_def)

lemma length_native_bytes [simp]: "length (native_bytes pf n v) = n"
  by (simp add: native_eq)

lemma copy_integer_native:
  assumes "length src = n"
  shows "copy_integer pf d src n pad si =
    map_res (native_order pf) (copy_integer (pf\<lparr>pf_big_endian := False\<rparr>) d (native_order pf src) n pad si)"
proof (cases "pf_big_endian pf")
  case True
  then show ?thesis
    using copy_integer_be [of pf "pf\<lparr>pf_big_endian := False\<rparr>" src n d pad si] assms
    by (simp add: native_order_def [abs_def])
next
  case False
  then show ?thesis
    by (simp add: native_order_def [abs_def] copy_integer_def res.map_ident Let_def)
qed

lemma native_int_sign:
  assumes "src \<noteq> []"
  shows "native_int pf src = sign_value (0x80 AND last (native_order pf src) \<noteq> 0) (native_order pf src)"
  using top_bit [of "native_order pf src"] assms
  by (auto simp: native_int_def native_eq sign_value_def Let_def)

lemma is_negative_eq:
  assumes "length src = n"
  shows "is_negative pf src n = (if n = 0 then Undef else Ok (native_int pf src < 0))"
proof (cases "n = 0")
  case False
  then have "src \<noteq> []"
    using assms by auto
  then have "(if pf_big_endian pf then src ! 0 else src ! (n - 1)) = last (native_order pf src)"
    using assms by (cases "pf_big_endian pf")
      (simp_all add: native_order_def last_rev hd_conv_nth, simp add: last_conv_nth)
  with False \<open>src \<noteq> []\<close> show ?thesis
    by (simp add: is_negative_def native_int_sign sign_value_sign del: word_neq_0_conv)
qed (simp add: is_negative_def)

lemma unsigned_from_unsigned_eq:
  "length src = n \<Longrightarrow> unsigned_from_unsigned pf d src n =
     (if native_uint pf src < 256 ^ d then Ok (native_bytes pf d (native_uint pf src)) else Err Out_of_range)"
  by (simp add: unsigned_from_unsigned_def copy_integer_native [of src n pf] copy_unsigned_le native_eq)

lemma signed_from_unsigned_eq:
  "length src = n \<Longrightarrow> 0 < d \<Longrightarrow> signed_from_unsigned pf d src n =
     (if 2 * native_uint pf src < 256 ^ d then Ok (native_bytes pf d (native_uint pf src)) else Err Out_of_range)"
  using copy_signed_le [of "pf\<lparr>pf_big_endian := False\<rparr>" "native_order pf src" n d False] le_value_bounds [of "native_order pf src"]
  by (auto simp: signed_from_unsigned_def copy_integer_native [of src n pf] native_eq sign_value_def)

lemma signed_from_signed_eq:
  assumes "length src = n" and "0 < n" and "0 < d"
  shows "signed_from_signed pf d src n =
     (if - (256 ^ d) \<le> 2 * native_int pf src \<and> 2 * native_int pf src < 256 ^ d
      then Ok (native_bytes pf d (native_int pf src)) else Err Out_of_range)"
proof -
  define neg where "neg \<longleftrightarrow> 0x80 AND last (native_order pf src) \<noteq> 0"
  have "src \<noteq> []"
    using assms by auto
  then have v: "native_int pf src = sign_value neg (native_order pf src)"
    by (simp add: native_int_sign neg_def del: word_neq_0_conv)
  show ?thesis
    using copy_signed_le [of "pf\<lparr>pf_big_endian := False\<rparr>" "native_order pf src" n d neg] assms
    by (simp add: signed_from_signed_def is_negative_eq copy_integer_native [of src n pf] v sign_value_sign native_eq
        split del: if_split cong: if_cong) simp
qed

lemma unsigned_from_signed_eq:
  assumes "length src = n" and "0 < n"
  shows "unsigned_from_signed pf d src n =
     (if native_int pf src < 0 then Err Unsigned_negative
      else if native_int pf src < 256 ^ d then Ok (native_bytes pf d (native_int pf src)) else Err Out_of_range)"
proof -
  have "native_int pf src = native_uint pf src" if "\<not> native_int pf src < 0"
    using that le_value_bounds [of "native_order pf src"] by (auto simp: native_int_def native_eq Let_def split: if_splits)
  then show ?thesis
    using assms unsigned_from_unsigned_eq [OF assms(1), of pf d]
    by (auto simp: unsigned_from_signed_def is_negative_eq unsigned_from_unsigned_def)
qed

text \<open>A value that fits is read back from the bytes that hold it.\<close>

lemma native_uint_bytes: "0 \<le> v \<Longrightarrow> v < 256 ^ n \<Longrightarrow> native_uint pf (native_bytes pf n v) = v"
  by (simp add: native_eq le_value_le_bytes)

lemma native_int_bytes:
  assumes "- (256 ^ n) \<le> 2 * v" and "2 * v < 256 ^ n"
  shows "native_int pf (native_bytes pf n v) = v"
proof -
  define m :: int where "m = 256 ^ n"
  have b: "- m \<le> 2 * v" "2 * v < m"
    using assms by (simp_all add: m_def)
  have "v mod m = (if v < 0 then v + m else v)"
    using b mod_pos_pos_trivial [of v m] mod_pos_pos_trivial [of "v + m" m] by auto
  then show ?thesis
    using b by (auto simp: native_int_def native_eq le_value_le_bytes Let_def simp flip: m_def)
qed

section \<open>What getters and setters do\<close>

text \<open>An integer parameter with a buffer of the announced, positive size, and the number in it.\<close>

definition int_param :: "ossl_param \<Rightarrow> bytes \<Rightarrow> bool" where
  "int_param p data \<longleftrightarrow> op_data p = Some data \<and> length data = op_size p \<and> 0 < op_size p \<and>
     (op_type p = OSSL_PARAM_INTEGER \<or> op_type p = OSSL_PARAM_UNSIGNED_INTEGER)"

definition param_int :: "platform \<Rightarrow> ossl_param \<Rightarrow> int" where
  "param_int pf p =
     (case op_data p of
        None \<Rightarrow> 0
      | Some data \<Rightarrow> if op_type p = OSSL_PARAM_INTEGER then native_int pf data else native_uint pf data)"

definition fits_param :: "ossl_param \<Rightarrow> int \<Rightarrow> bool" where
  "fits_param p v \<longleftrightarrow>
     (if op_type p = OSSL_PARAM_INTEGER then - (256 ^ op_size p) \<le> 2 * v \<and> 2 * v < 256 ^ op_size p
      else 0 \<le> v \<and> v < 256 ^ op_size p)"

lemmas int_limits = INT32_MIN_def INT32_MAX_def UINT32_MAX_def INT64_MIN_def INT64_MAX_def UINT64_MAX_def

lemma native_int_bounds: "- (256 ^ length bs) \<le> 2 * native_int pf bs" "2 * native_int pf bs < 256 ^ length bs"
  using le_value_bounds [of "native_order pf bs"] by (auto simp: native_int_def native_eq Let_def)

lemma native_uint_bounds: "0 \<le> native_uint pf bs" "native_uint pf bs < 256 ^ length bs"
  using le_value_bounds [of "native_order pf bs"] by (auto simp: native_eq)

lemma param_types_neq [simp]:
  "OSSL_PARAM_INTEGER \<noteq> OSSL_PARAM_UNSIGNED_INTEGER" "OSSL_PARAM_UNSIGNED_INTEGER \<noteq> OSSL_PARAM_INTEGER"
  "OSSL_PARAM_INTEGER \<noteq> OSSL_PARAM_REAL" "OSSL_PARAM_UNSIGNED_INTEGER \<noteq> OSSL_PARAM_REAL"
  by (simp_all add: param_types)

lemma int_param_type:
  assumes "int_param p data"
  obtains (int) "op_type p = OSSL_PARAM_INTEGER" "param_int pf p = native_int pf data"
    | (uint) "op_type p = OSSL_PARAM_UNSIGNED_INTEGER" "param_int pf p = native_uint pf data" "0 \<le> native_uint pf data"
  using assms native_uint_bounds(1) [of pf data] by (auto simp: int_param_def param_int_def)

lemma map_res_if: "map_res f (if c then Ok x else Err e) = (if c then Ok (f x) else Err e)"
  by simp

lemma if_Ok_cong: "(c \<Longrightarrow> x = y) \<Longrightarrow> (if c then Ok x else e) = (if c then Ok y else e)"
  by simp

lemma general_get_int_eq:
  assumes p: "int_param p data" and n: "0 < n"
  shows "map_res (native_int pf) (general_get_int pf p n) =
     (if - (256 ^ n) \<le> 2 * param_int pf p \<and> 2 * param_int pf p < 256 ^ n then Ok (param_int pf p) else Err Out_of_range)"
proof -
  have d: "op_data p = Some data" "length data = op_size p" "0 < op_size p"
    using p by (simp_all add: int_param_def)
  from p show ?thesis
  proof (cases rule: int_param_type [where pf = pf])
    case int
    then have "general_get_int pf p n = signed_from_signed pf n data (op_size p)"
      by (simp add: general_get_int_def d)
    then show ?thesis
      unfolding int(2) signed_from_signed_eq [OF d(2,3) n]
      by (simp only: map_res_if) (rule if_Ok_cong, elim conjE, rule native_int_bytes)
  next
    case uint
    then have "general_get_int pf p n = signed_from_unsigned pf n data (op_size p)"
      by (simp add: general_get_int_def d)
    moreover have lo: "- (256 ^ n) \<le> 2 * native_uint pf data"
      using uint(3) by - (rule order_trans [of _ 0], simp_all)
    ultimately show ?thesis
      unfolding uint(2) signed_from_unsigned_eq [OF d(2) n]
      by (simp only: map_res_if lo simp_thms) (rule if_Ok_cong, rule native_int_bytes [OF lo])
  qed
qed

lemma general_get_uint_eq:
  assumes p: "int_param p data"
  shows "map_res (native_uint pf) (general_get_uint pf p n) =
     (if param_int pf p < 0 then Err Unsigned_negative
      else if param_int pf p < 256 ^ n then Ok (param_int pf p) else Err Out_of_range)"
proof -
  have d: "op_data p = Some data" "length data = op_size p" "0 < op_size p"
    using p by (simp_all add: int_param_def)
  from p show ?thesis
  proof (cases rule: int_param_type [where pf = pf])
    case int
    then have g: "general_get_uint pf p n = unsigned_from_signed pf n data (op_size p)"
      by (simp add: general_get_uint_def d)
    show ?thesis
    proof (cases "native_int pf data < 0")
      case True
      then show ?thesis
        unfolding g int(2) unsigned_from_signed_eq [OF d(2,3)] by (simp only: if_True res.map)
    next
      case False
      then have "0 \<le> native_int pf data"
        by simp
      with False show ?thesis
        unfolding g int(2) unsigned_from_signed_eq [OF d(2,3)]
        by (simp only: if_False map_res_if) (rule if_Ok_cong, rule native_uint_bytes)
    qed
  next
    case uint
    then have g: "general_get_uint pf p n = unsigned_from_unsigned pf n data (op_size p)"
      by (simp add: general_get_uint_def d)
    from uint(3) have "\<not> native_uint pf data < 0"
      by simp
    then show ?thesis
      unfolding g uint(2) unsigned_from_unsigned_eq [OF d(2)]
      by (simp only: if_False map_res_if) (rule if_Ok_cong, rule native_uint_bytes [OF uint(3)])
  qed
qed

lemma int_param_cases:
  assumes "int_param p data"
  obtains (s4) "op_type p = OSSL_PARAM_INTEGER" "op_size p = 4" | (s8) "op_type p = OSSL_PARAM_INTEGER" "op_size p = 8"
    | (s) "op_type p = OSSL_PARAM_INTEGER" "op_size p \<noteq> 4" "op_size p \<noteq> 8"
    | (u4) "op_type p = OSSL_PARAM_UNSIGNED_INTEGER" "op_size p = 4" | (u8) "op_type p = OSSL_PARAM_UNSIGNED_INTEGER" "op_size p = 8"
    | (u) "op_type p = OSSL_PARAM_UNSIGNED_INTEGER" "op_size p \<noteq> 4" "op_size p \<noteq> 8"
  using assms unfolding int_param_def by blast

lemma int_param_facts:
  assumes "int_param p data"
  shows "op_type p = OSSL_PARAM_INTEGER \<Longrightarrow> param_int pf p = native_int pf data"
    and "op_type p = OSSL_PARAM_UNSIGNED_INTEGER \<Longrightarrow> param_int pf p = native_uint pf data"
    and "op_size p = 4 \<Longrightarrow> INT32_MIN \<le> native_int pf data \<and> native_int pf data \<le> INT32_MAX"
    and "op_size p = 8 \<Longrightarrow> INT64_MIN \<le> native_int pf data \<and> native_int pf data \<le> INT64_MAX"
    and "op_size p = 4 \<Longrightarrow> native_uint pf data \<le> UINT32_MAX"
    and "op_size p = 8 \<Longrightarrow> native_uint pf data \<le> UINT64_MAX"
    and "0 \<le> native_uint pf data"
  using assms native_int_bounds [where pf = pf and bs = data] native_uint_bounds [where pf = pf and bs = data]
  by (simp_all add: int_param_def param_int_def int_limits)

lemma int_limits_order:
  "INT32_MIN \<le> 0" "INT64_MIN \<le> INT32_MIN" "0 \<le> INT32_MAX" "INT32_MAX \<le> UINT32_MAX" "UINT32_MAX \<le> INT64_MAX"
  "INT64_MAX \<le> UINT64_MAX"
  by (simp_all add: int_limits)

lemma int_range_iff:
  "- (256 ^ 4) \<le> 2 * v \<and> 2 * v < 256 ^ 4 \<longleftrightarrow> INT32_MIN \<le> v \<and> v \<le> INT32_MAX" "v < 256 ^ 4 \<longleftrightarrow> v \<le> UINT32_MAX"
  "- (256 ^ 8) \<le> 2 * v \<and> 2 * v < 256 ^ 8 \<longleftrightarrow> INT64_MIN \<le> v \<and> v \<le> INT64_MAX" "v < 256 ^ 8 \<longleftrightarrow> v \<le> UINT64_MAX"
  by (auto simp: int_limits)

lemma get_int32_eq:
  assumes p: "int_param p data"
  shows "OSSL_PARAM_get_int32 pf (Some p) =
    (if INT32_MIN \<le> param_int pf p \<and> param_int pf p \<le> INT32_MAX then Ok (param_int pf p) else Err Out_of_range)"
proof -
  have d: "op_data p = Some data" "length data = op_size p"
    using p by (simp_all add: int_param_def)
  note f = int_param_facts [OF p, where pf = pf]
  show ?thesis
  proof (cases "op_size p = 4 \<or> op_size p = 8")
    case True
    then show ?thesis
      by (cases rule: int_param_cases [OF p]) (use d f int_limits_order in \<open>simp_all add: OSSL_PARAM_get_int32_def Let_def\<close>)
  next
    case False
    then have "OSSL_PARAM_get_int32 pf (Some p) = map_res (native_int pf) (general_get_int pf p 4)"
      by (cases rule: int_param_cases [OF p]) (use d in \<open>simp_all add: OSSL_PARAM_get_int32_def Let_def\<close>)
    then show ?thesis
      unfolding general_get_int_eq [OF p zero_less_numeral] int_range_iff(1,3) .
  qed
qed

lemma get_int64_eq:
  assumes p: "int_param p data"
  shows "OSSL_PARAM_get_int64 pf (Some p) =
    (if INT64_MIN \<le> param_int pf p \<and> param_int pf p \<le> INT64_MAX then Ok (param_int pf p) else Err Out_of_range)"
proof -
  have d: "op_data p = Some data" "length data = op_size p"
    using p by (simp_all add: int_param_def)
  note f = int_param_facts [OF p, where pf = pf]
  show ?thesis
  proof (cases "op_size p = 4 \<or> op_size p = 8")
    case True
    then show ?thesis
      by (cases rule: int_param_cases [OF p]) (use d f int_limits_order in \<open>simp_all add: OSSL_PARAM_get_int64_def Let_def\<close>)
  next
    case False
    then have "OSSL_PARAM_get_int64 pf (Some p) = map_res (native_int pf) (general_get_int pf p 8)"
      by (cases rule: int_param_cases [OF p]) (use d in \<open>simp_all add: OSSL_PARAM_get_int64_def Let_def\<close>)
    then show ?thesis
      unfolding general_get_int_eq [OF p zero_less_numeral] int_range_iff(1,3) .
  qed
qed

lemma get_uint32_eq:
  assumes p: "int_param p data"
  shows "OSSL_PARAM_get_uint32 pf (Some p) =
    (if param_int pf p < 0 then Err Unsigned_negative
     else if param_int pf p \<le> UINT32_MAX then Ok (param_int pf p) else Err Out_of_range)"
proof -
  have d: "op_data p = Some data" "length data = op_size p"
    using p by (simp_all add: int_param_def)
  note f = int_param_facts [OF p, where pf = pf]
  show ?thesis
  proof (cases "op_size p = 4 \<or> op_size p = 8")
    case True
    then show ?thesis
      by (cases rule: int_param_cases [OF p]) (use d f int_limits_order in \<open>simp_all add: OSSL_PARAM_get_uint32_def Let_def\<close>)
  next
    case False
    then have "OSSL_PARAM_get_uint32 pf (Some p) = map_res (native_uint pf) (general_get_uint pf p 4)"
      by (cases rule: int_param_cases [OF p]) (use d in \<open>simp_all add: OSSL_PARAM_get_uint32_def Let_def\<close>)
    then show ?thesis
      unfolding general_get_uint_eq [OF p] int_range_iff(2,4) .
  qed
qed

lemma get_uint64_eq:
  assumes p: "int_param p data"
  shows "OSSL_PARAM_get_uint64 pf (Some p) =
    (if param_int pf p < 0 then Err Unsigned_negative
     else if param_int pf p \<le> UINT64_MAX then Ok (param_int pf p) else Err Out_of_range)"
proof -
  have d: "op_data p = Some data" "length data = op_size p"
    using p by (simp_all add: int_param_def)
  note f = int_param_facts [OF p, where pf = pf]
  show ?thesis
  proof (cases "op_size p = 4 \<or> op_size p = 8")
    case True
    then show ?thesis
      by (cases rule: int_param_cases [OF p]) (use d f int_limits_order in \<open>simp_all add: OSSL_PARAM_get_uint64_def Let_def\<close>)
  next
    case False
    then have "OSSL_PARAM_get_uint64 pf (Some p) = map_res (native_uint pf) (general_get_uint pf p 8)"
      by (cases rule: int_param_cases [OF p]) (use d in \<open>simp_all add: OSSL_PARAM_get_uint64_def Let_def\<close>)
    then show ?thesis
      unfolding general_get_uint_eq [OF p] int_range_iff(2,4) .
  qed
qed

text \<open>The parameter after a value was stored in it.\<close>

definition param_put :: "platform \<Rightarrow> ossl_param \<Rightarrow> int \<Rightarrow> ossl_param" where
  "param_put pf p v =
     p\<lparr>op_data := Some (native_bytes pf (op_size p) v), op_return_size := op_size p\<rparr>"

lemma param_put_value:
  assumes "int_param p data" and "fits_param p v"
  shows "int_param (param_put pf p v) (native_bytes pf (op_size p) v)" and "param_int pf (param_put pf p v) = v"
  using assms native_int_bytes [of "op_size p" v pf] native_uint_bytes [of v "op_size p" pf]
  by (auto simp: int_param_def param_put_def param_int_def fits_param_def)

lemma store_whole: "length ds = length bs \<Longrightarrow> store_at bs 0 ds = ds"
  by (simp add: store_at_eq)

lemma param_store_eq:
  assumes "int_param p data" and "op_size p = n"
  shows "param_store p data (native_bytes pf n v) = (param_put pf p v, Ok ())"
  using assms by (simp add: param_store_def param_put_def int_param_def store_whole)

lemma set_outcome_eq:
  assumes "int_param p data"
  shows "set_outcome (p\<lparr>op_return_size := r\<rparr>) data n (Ok (native_bytes pf (op_size p) v)) = (param_put pf p v, Ok ())"
    and "set_outcome (p\<lparr>op_return_size := r\<rparr>) data n (Err e) = (p\<lparr>op_return_size := n\<rparr>, Err e)"
  using assms by (simp_all add: set_outcome_def param_put_def int_param_def store_whole)

lemma general_set_int_eq:
  assumes p: "int_param p data" and n: "0 < n" and v: "- (256 ^ n) \<le> 2 * v" "2 * v < 256 ^ n"
  shows "general_set_int pf (p\<lparr>op_return_size := r\<rparr>) (native_bytes pf n v) n =
    (if fits_param p v then (param_put pf p v, Ok ())
     else (p\<lparr>op_return_size := n\<rparr>,
           Err (if op_type p = OSSL_PARAM_UNSIGNED_INTEGER \<and> v < 0 then Unsigned_negative else Out_of_range)))"
proof -
  have d: "op_data p = Some data" "length data = op_size p" "0 < op_size p"
    using p by (simp_all add: int_param_def)
  note nb = native_int_bytes [OF v, of pf]
  note l = length_native_bytes [of pf n v]
  from p show ?thesis
  proof (cases rule: int_param_type [where pf = pf])
    case int
    then show ?thesis
      by (simp add: general_set_int_def d signed_from_signed_eq [OF l n d(3)] nb set_outcome_eq [OF p] fits_param_def)
  next
    case uint
    then show ?thesis
      by (simp add: general_set_int_def d unsigned_from_signed_eq [OF l n] nb set_outcome_eq [OF p] fits_param_def)
  qed
qed

lemma general_set_uint_eq:
  assumes p: "int_param p data" and v: "0 \<le> v" "v < 256 ^ n"
  shows "general_set_uint pf (p\<lparr>op_return_size := r\<rparr>) (native_bytes pf n v) n =
    (if fits_param p v then (param_put pf p v, Ok ()) else (p\<lparr>op_return_size := n\<rparr>, Err Out_of_range))"
proof -
  have d: "op_data p = Some data" "length data = op_size p" "0 < op_size p"
    using p by (simp_all add: int_param_def)
  note nb = native_uint_bytes [OF v, of pf]
  note l = length_native_bytes [of pf n v]
  have "- (256 ^ op_size p) \<le> 2 * v"
    using v by - (rule order_trans [of _ 0], simp_all)
  with p show ?thesis
  proof (cases rule: int_param_type [where pf = pf])
    case int
    with \<open>- (256 ^ op_size p) \<le> 2 * v\<close> show ?thesis
      by (simp add: general_set_uint_def d signed_from_unsigned_eq [OF l d(3)] nb set_outcome_eq [OF p] fits_param_def)
  next
    case uint
    then show ?thesis
      using v by (simp add: general_set_uint_def d unsigned_from_unsigned_eq [OF l] nb set_outcome_eq [OF p] fits_param_def)
  qed
qed

lemma fits_param_cases:
  "op_type p = OSSL_PARAM_INTEGER \<Longrightarrow> op_size p = 4 \<Longrightarrow> fits_param p v \<longleftrightarrow> INT32_MIN \<le> v \<and> v \<le> INT32_MAX"
  "op_type p = OSSL_PARAM_INTEGER \<Longrightarrow> op_size p = 8 \<Longrightarrow> fits_param p v \<longleftrightarrow> INT64_MIN \<le> v \<and> v \<le> INT64_MAX"
  "op_type p = OSSL_PARAM_UNSIGNED_INTEGER \<Longrightarrow> op_size p = 4 \<Longrightarrow> fits_param p v \<longleftrightarrow> 0 \<le> v \<and> v \<le> UINT32_MAX"
  "op_type p = OSSL_PARAM_UNSIGNED_INTEGER \<Longrightarrow> op_size p = 8 \<Longrightarrow> fits_param p v \<longleftrightarrow> 0 \<le> v \<and> v \<le> UINT64_MAX"
  "op_type p = OSSL_PARAM_UNSIGNED_INTEGER \<Longrightarrow> v < 0 \<Longrightarrow> \<not> fits_param p v"
  by (auto simp: fits_param_def int_limits)

text \<open>
  Every setter stores the value when the parameter can hold it, and fails without touching the data
  otherwise.
\<close>

definition set_result :: "platform \<Rightarrow> ossl_param \<Rightarrow> int \<Rightarrow> ossl_param option \<times> unit res \<Rightarrow> bool" where
  "set_result pf p v r \<longleftrightarrow>
     (if fits_param p v then r = (Some (param_put pf p v), Ok ())
      else \<exists>q e. r = (Some q, Err e) \<and> q = p\<lparr>op_return_size := op_return_size q\<rparr>)"

lemma set_int32_eq:
  assumes p: "int_param p data" and v: "INT32_MIN \<le> v" "v \<le> INT32_MAX"
  shows "set_result pf p v (OSSL_PARAM_set_int32 pf (Some p) v)"
proof -
  have d: "op_data p = Some data"
    using p by (simp add: int_param_def)
  have "- (256 ^ 4) \<le> 2 * v \<and> 2 * v < 256 ^ 4"
    using v unfolding int_range_iff(1) by blast
  then have g: "general_set_int pf (p\<lparr>op_return_size := r\<rparr>) (native_bytes pf 4 v) 4 =
    (if fits_param p v then (param_put pf p v, Ok ())
     else (p\<lparr>op_return_size := 4\<rparr>,
           Err (if op_type p = OSSL_PARAM_UNSIGNED_INTEGER \<and> v < 0 then Unsigned_negative else Out_of_range)))" for r
    by (intro general_set_int_eq [OF p]) simp_all
  show ?thesis
    by (cases rule: int_param_cases [OF p])
      (use v int_limits_order in
        \<open>simp_all add: set_result_def nonnull_def OSSL_PARAM_set_int32_def d g param_store_eq [OF p] fits_param_cases\<close>)
qed

lemma set_uint32_eq:
  assumes p: "int_param p data" and v: "0 \<le> v" "v \<le> UINT32_MAX"
  shows "set_result pf p v (OSSL_PARAM_set_uint32 pf (Some p) v)"
proof -
  have d: "op_data p = Some data"
    using p by (simp add: int_param_def)
  have "v < 256 ^ 4"
    using v(2) unfolding int_range_iff(2) .
  note g = general_set_uint_eq [OF p v(1) this, where pf = pf]
  show ?thesis
    by (cases rule: int_param_cases [OF p])
      (use v int_limits_order in
        \<open>simp_all add: set_result_def nonnull_def OSSL_PARAM_set_uint32_def d g param_store_eq [OF p] fits_param_cases\<close>)
qed

lemma set_int64_eq:
  assumes p: "int_param p data" and v: "INT64_MIN \<le> v" "v \<le> INT64_MAX"
  shows "set_result pf p v (OSSL_PARAM_set_int64 pf (Some p) v)"
proof -
  have d: "op_data p = Some data"
    using p by (simp add: int_param_def)
  have "- (256 ^ 8) \<le> 2 * v \<and> 2 * v < 256 ^ 8"
    using v unfolding int_range_iff(3) by blast
  then have g: "general_set_int pf (p\<lparr>op_return_size := r\<rparr>) (native_bytes pf 8 v) 8 =
    (if fits_param p v then (param_put pf p v, Ok ())
     else (p\<lparr>op_return_size := 8\<rparr>,
           Err (if op_type p = OSSL_PARAM_UNSIGNED_INTEGER \<and> v < 0 then Unsigned_negative else Out_of_range)))" for r
    by (intro general_set_int_eq [OF p]) simp_all
  show ?thesis
    by (cases rule: int_param_cases [OF p])
      (use v int_limits_order in
        \<open>simp_all add: set_result_def nonnull_def OSSL_PARAM_set_int64_def d g param_store_eq [OF p] fits_param_cases\<close>)
qed

lemma set_uint64_eq:
  assumes p: "int_param p data" and v: "0 \<le> v" "v \<le> UINT64_MAX"
  shows "set_result pf p v (OSSL_PARAM_set_uint64 pf (Some p) v)"
proof -
  have d: "op_data p = Some data"
    using p by (simp add: int_param_def)
  have "v < 256 ^ 8"
    using v(2) unfolding int_range_iff(4) .
  note g = general_set_uint_eq [OF p v(1) this, where pf = pf]
  show ?thesis
    by (cases rule: int_param_cases [OF p])
      (use v int_limits_order in
        \<open>simp_all add: set_result_def nonnull_def OSSL_PARAM_set_uint64_def d g param_store_eq [OF p] fits_param_cases\<close>)
qed

lemma copy_integer_Undef:
  "copy_integer pf n src m pad sg = Undef \<longleftrightarrow>
     sg \<and> n = 0 \<and> check_sign_bytes src m pad"
  by (auto simp: copy_integer_def Let_def check_sign_bytes_def)

lemma general_get_int_Undef:
  "0 < n \<Longrightarrow> general_get_int pf p n = Undef \<longleftrightarrow> op_data p \<noteq> None \<and> op_type p = OSSL_PARAM_INTEGER \<and> op_size p = 0"
  by (auto simp: general_get_int_def signed_from_signed_def signed_from_unsigned_def is_negative_def
      copy_integer_Undef split: option.splits res.splits)

lemma general_get_uint_Undef:
  "general_get_uint pf p n = Undef \<longleftrightarrow> op_data p \<noteq> None \<and> op_type p = OSSL_PARAM_INTEGER \<and> op_size p = 0"
  by (auto simp: general_get_uint_def unsigned_from_signed_def unsigned_from_unsigned_def is_negative_def
      copy_integer_Undef split: option.splits res.splits)

lemma map_res_Undef: "map_res f r = Undef \<longleftrightarrow> r = Undef"
  by (cases r) simp_all

lemmas get_Undef = general_get_int_Undef general_get_uint_Undef map_res_Undef Let_def

section \<open>Properties\<close>

text \<open>A parameter of three bytes, on which the properties are exercised.\<close>

definition little :: platform where
  "little = \<lparr>pf_big_endian = False, pf_sizeof_int = 4, pf_sizeof_long = 8, pf_sizeof_size_t = 8,
             pf_sizeof_time_t = 8, pf_double_read = (\<lambda>_. None), pf_double_write = (\<lambda>_. [])\<rparr>"

definition param_ex :: ossl_param where
  "param_ex = ossl_param_construct ''n'' OSSL_PARAM_INTEGER (Some [0xfe, 0xff, 0xff]) 3"

lemma param_ex_ok:
  "int_param param_ex [0xfe, 0xff, 0xff]" "param_int little param_ex = - 2" "fits_param param_ex (- 70000)"
  "\<not> fits_param param_ex (- 9000000)"
  by (simp_all add: param_ex_def ossl_param_construct_def int_param_def param_int_def little_def native_int_def
      native_uint_def fits_param_def)

text \<open>
  C12: Whatever the size of the buffer, the byte order and the signedness of an integer parameter, each getter
  returns exactly the number in it if its C type can hold that number, and the error that says why not
  otherwise: the fast paths for 4 and 8 bytes and the general copy agree.
\<close>

theorem OSSL_PARAM_get_value:
  assumes "int_param p data"
  shows "OSSL_PARAM_get_int32 pf (Some p) =
      (if INT32_MIN \<le> param_int pf p \<and> param_int pf p \<le> INT32_MAX then Ok (param_int pf p) else Err Out_of_range) \<and>
    OSSL_PARAM_get_int64 pf (Some p) =
      (if INT64_MIN \<le> param_int pf p \<and> param_int pf p \<le> INT64_MAX then Ok (param_int pf p) else Err Out_of_range) \<and>
    OSSL_PARAM_get_uint32 pf (Some p) =
      (if param_int pf p < 0 then Err Unsigned_negative
       else if param_int pf p \<le> UINT32_MAX then Ok (param_int pf p) else Err Out_of_range) \<and>
    OSSL_PARAM_get_uint64 pf (Some p) =
      (if param_int pf p < 0 then Err Unsigned_negative
       else if param_int pf p \<le> UINT64_MAX then Ok (param_int pf p) else Err Out_of_range)"
  by (intro conjI get_int32_eq [OF assms] get_int64_eq [OF assms] get_uint32_eq [OF assms] get_uint64_eq [OF assms])

theorem OSSL_PARAM_get_value_witness:
  "OSSL_PARAM_get_int32 little (Some param_ex) = Ok (- 2) \<and>
   OSSL_PARAM_get_uint64 little (Some param_ex) = Err Unsigned_negative"
  using OSSL_PARAM_get_value [OF param_ex_ok(1), of little] by (simp add: param_ex_ok(2) int_limits)

text \<open>
  C14: A number that a setter's C type and the parameter's buffer both can hold survives the round trip
  through the parameter: the setter succeeds, reports the size of the buffer, and the getter of the same
  type gives the number back.
\<close>

theorem OSSL_PARAM_set_get:
  assumes "int_param p data" and "fits_param p v"
  shows "\<exists>q. op_return_size q = op_size p \<and>
      (INT32_MIN \<le> v \<and> v \<le> INT32_MAX \<longrightarrow>
         OSSL_PARAM_set_int32 pf (Some p) v = (Some q, Ok ()) \<and> OSSL_PARAM_get_int32 pf (Some q) = Ok v) \<and>
      (0 \<le> v \<and> v \<le> UINT32_MAX \<longrightarrow>
         OSSL_PARAM_set_uint32 pf (Some p) v = (Some q, Ok ()) \<and> OSSL_PARAM_get_uint32 pf (Some q) = Ok v) \<and>
      (INT64_MIN \<le> v \<and> v \<le> INT64_MAX \<longrightarrow>
         OSSL_PARAM_set_int64 pf (Some p) v = (Some q, Ok ()) \<and> OSSL_PARAM_get_int64 pf (Some q) = Ok v) \<and>
      (0 \<le> v \<and> v \<le> UINT64_MAX \<longrightarrow>
         OSSL_PARAM_set_uint64 pf (Some p) v = (Some q, Ok ()) \<and> OSSL_PARAM_get_uint64 pf (Some q) = Ok v)"
proof -
  note q = param_put_value [OF assms, of pf]
  show ?thesis
    using set_int32_eq [OF assms(1), of v pf] set_uint32_eq [OF assms(1), of v pf]
      set_int64_eq [OF assms(1), of v pf] set_uint64_eq [OF assms(1), of v pf] assms(2)
    by (intro exI [of _ "param_put pf p v"])
      (simp add: set_result_def get_int32_eq [OF q(1)] get_uint32_eq [OF q(1)] get_int64_eq [OF q(1)]
        get_uint64_eq [OF q(1)] q(2), simp add: param_put_def)
qed

theorem OSSL_PARAM_set_get_witness:
  "\<exists>q. OSSL_PARAM_set_int32 little (Some param_ex) (- 70000) = (Some q, Ok ()) \<and>
       OSSL_PARAM_get_int32 little (Some q) = Ok (- 70000)"
  using OSSL_PARAM_set_get [OF param_ex_ok(1,3), of little] by (auto simp: int_limits)

text \<open>
  C24: A number that the parameter's buffer cannot hold is refused by every setter, which then leaves the
  parameter as it is but for \<open>return_size\<close>; nothing is truncated.
\<close>

theorem OSSL_PARAM_set_no_truncation:
  assumes "int_param p data" and "\<not> fits_param p v"
  shows "(INT32_MIN \<le> v \<and> v \<le> INT32_MAX \<longrightarrow>
      (\<exists>q e. OSSL_PARAM_set_int32 pf (Some p) v = (Some q, Err e) \<and> q = p\<lparr>op_return_size := op_return_size q\<rparr>)) \<and>
    (0 \<le> v \<and> v \<le> UINT32_MAX \<longrightarrow>
      (\<exists>q e. OSSL_PARAM_set_uint32 pf (Some p) v = (Some q, Err e) \<and> q = p\<lparr>op_return_size := op_return_size q\<rparr>)) \<and>
    (INT64_MIN \<le> v \<and> v \<le> INT64_MAX \<longrightarrow>
      (\<exists>q e. OSSL_PARAM_set_int64 pf (Some p) v = (Some q, Err e) \<and> q = p\<lparr>op_return_size := op_return_size q\<rparr>)) \<and>
    (0 \<le> v \<and> v \<le> UINT64_MAX \<longrightarrow>
      (\<exists>q e. OSSL_PARAM_set_uint64 pf (Some p) v = (Some q, Err e) \<and> q = p\<lparr>op_return_size := op_return_size q\<rparr>))"
  using set_int32_eq [OF assms(1), of v pf] set_uint32_eq [OF assms(1), of v pf]
    set_int64_eq [OF assms(1), of v pf] set_uint64_eq [OF assms(1), of v pf] assms(2)
  by (simp only: set_result_def if_False) blast

theorem OSSL_PARAM_set_no_truncation_witness:
  "\<exists>q e. OSSL_PARAM_set_int64 little (Some param_ex) (- 9000000) = (Some q, Err e) \<and> op_data q = op_data param_ex"
proof -
  from OSSL_PARAM_set_no_truncation [OF param_ex_ok(1,4), of little]
  obtain q e where "OSSL_PARAM_set_int64 little (Some param_ex) (- 9000000) = (Some q, Err e)"
    and q: "q = param_ex\<lparr>op_return_size := op_return_size q\<rparr>"
    by (auto simp: int_limits)
  moreover from arg_cong [OF q, of op_data] have "op_data q = op_data param_ex"
    by simp
  ultimately show ?thesis
    by blast
qed



end
