(* ===== verification/Ossl_Param_Str.thy ===== *)
theory Ossl_Param_Str
  imports Ossl_Param
begin

text \<open>
  The string half of \<open>crypto/params.c\<close>: getters and setters of UTF-8 and octet strings, and the
  concatenation of all octet strings under one key with a packet writer.

  An argument \<open>void **val\<close> is \<open>None\<close> for a null pointer, \<open>Some None\<close> when the pointer it points to is
  null and the callee has to allocate, and \<open>Some (Some buf)\<close> when it points to a buffer. Bytes of a
  fresh allocation that are not written are indeterminate in C; the model has 0 there.
\<close>

section \<open>Strings\<close>

text \<open>What a string getter leaves behind: \<open>*val\<close>, \<open>*max_len\<close> and \<open>*used_len\<close>.\<close>

record str_out =
  so_val :: "bytes option option"
  so_max_len :: nat
  so_used_len :: "nat option"

definition get_string_internal ::
    "allocator \<Rightarrow> ossl_param option \<Rightarrow> str_out \<Rightarrow> nat \<Rightarrow> str_out \<times> unit res" where
  "get_string_internal al param out type =
     (if so_val out = None \<and> so_used_len out = None then (out, Err Null_argument)
      else case param of
        None \<Rightarrow> (out, Err Null_argument)
      | Some p \<Rightarrow>
          if op_type p \<noteq> type then (out, Err Bad_type)
          else
            let sz = op_size p;
                alloc_sz = size_add sz (if type = OSSL_PARAM_UTF8_STRING \<or> sz = 0 then 1 else 0);
                out1 = out\<lparr>so_used_len := map_option (\<lambda>_. sz) (so_used_len out)\<rparr>
            in (case op_data p of
                  None \<Rightarrow> (out1, Err Null_argument)
                | Some data \<Rightarrow>
                    (case so_val out of
                       None \<Rightarrow> (out1, Ok ())
                     | Some v \<Rightarrow>
                         if v = None \<and> \<not> al alloc_sz then (out1, Err Malloc_failure)
                         else
                           let buf = (case v of None \<Rightarrow> replicate alloc_sz 0 | Some b \<Rightarrow> b);
                               max_len = (if v = None then alloc_sz else so_max_len out);
                               out2 = out1\<lparr>so_val := Some (Some buf), so_max_len := max_len\<rparr>
                           in if max_len < sz then (out2, Err Too_small)
                              else (out2\<lparr>so_val := Some (Some (store_at buf 0 (take sz data)))\<rparr>, Ok ()))))"

definition OPENSSL_strnlen :: "bytes \<Rightarrow> nat \<Rightarrow> nat" where
  "OPENSSL_strnlen str maxlen = length (takeWhile (\<lambda>b. b \<noteq> 0) (take maxlen str))"

text \<open>The initialiser of \<open>data_length\<close> reads \<open>p->data_size\<close> before the result for a null \<open>p\<close> is looked at.\<close>

definition OSSL_PARAM_get_utf8_string ::
    "allocator \<Rightarrow> ossl_param option \<Rightarrow> bytes option option \<Rightarrow> nat \<Rightarrow> bytes option option \<times> unit res" where
  "OSSL_PARAM_get_utf8_string al param val max_len =
     (case get_string_internal al param \<lparr>so_val = val, so_max_len = max_len, so_used_len = None\<rparr>
             OSSL_PARAM_UTF8_STRING of
        (out, ret) \<Rightarrow>
          (case param of
             None \<Rightarrow> (so_val out, Undef)
           | Some p \<Rightarrow>
               if ret \<noteq> Ok () then (so_val out, ret)
               else
                 let data = (case op_data p of None \<Rightarrow> [] | Some d \<Rightarrow> d);
                     data_length = (if op_size p \<ge> so_max_len out then OPENSSL_strnlen data (op_size p)
                                    else op_size p)
                 in if data_length \<ge> so_max_len out then (so_val out, Err No_space_for_nul)
                    else (map_option (map_option (\<lambda>b. store_at b data_length [0])) (so_val out), ret)))"

definition OSSL_PARAM_get_octet_string ::
    "allocator \<Rightarrow> ossl_param option \<Rightarrow> bytes option option \<Rightarrow> nat \<Rightarrow> nat option \<Rightarrow> str_out \<times> unit res" where
  "OSSL_PARAM_get_octet_string al param val max_len used_len =
     get_string_internal al param \<lparr>so_val = val, so_max_len = max_len, so_used_len = used_len\<rparr>
       OSSL_PARAM_OCTET_STRING"

definition set_string_internal :: "ossl_param \<Rightarrow> bytes \<Rightarrow> nat \<Rightarrow> nat \<Rightarrow> ossl_param \<times> unit res" where
  "set_string_internal p val len type =
     (if op_type p \<noteq> type then (p, Err Bad_type)
      else
        let p1 = p\<lparr>op_return_size := len\<rparr>
        in (case op_data p of
              None \<Rightarrow> (p1, Ok ())
            | Some data \<Rightarrow>
                if op_size p < len then (p1, Err Too_small)
                else
                  let d1 = store_at data 0 (take len val);
                      d2 = (if type = OSSL_PARAM_UTF8_STRING \<and> op_size p > len then store_at d1 len [0] else d1)
                  in (p1\<lparr>op_data := Some d2\<rparr>, Ok ())))"

text \<open>A C string is the list of its bytes from the pointer on, its terminator included.\<close>

definition strlen :: "bytes \<Rightarrow> nat" where
  "strlen str = length (takeWhile (\<lambda>b. b \<noteq> 0) str)"

definition OSSL_PARAM_set_utf8_string :: "ossl_param option \<Rightarrow> bytes option \<Rightarrow> ossl_param option \<times> unit res" where
  "OSSL_PARAM_set_utf8_string param val =
     (case (param, val) of
        (Some p, Some v) \<Rightarrow>
          map_prod Some (\<lambda>r. r)
            (set_string_internal (p\<lparr>op_return_size := 0\<rparr>) v (strlen v) OSSL_PARAM_UTF8_STRING)
      | _ \<Rightarrow> (param, Err Null_argument))"

definition OSSL_PARAM_set_octet_string ::
    "ossl_param option \<Rightarrow> bytes option \<Rightarrow> nat \<Rightarrow> ossl_param option \<times> unit res" where
  "OSSL_PARAM_set_octet_string param val len =
     (case (param, val) of
        (Some p, Some v) \<Rightarrow>
          map_prod Some (\<lambda>r. r)
            (set_string_internal (p\<lparr>op_return_size := 0\<rparr>) v len OSSL_PARAM_OCTET_STRING)
      | _ \<Rightarrow> (param, Err Null_argument))"

definition OSSL_PARAM_construct_utf8_string :: "string \<Rightarrow> bytes option \<Rightarrow> nat \<Rightarrow> ossl_param" where
  "OSSL_PARAM_construct_utf8_string key buf bsize =
     ossl_param_construct key OSSL_PARAM_UTF8_STRING buf
       (case buf of Some b \<Rightarrow> if bsize = 0 then strlen b else bsize | None \<Rightarrow> bsize)"

definition OSSL_PARAM_construct_octet_string :: "string \<Rightarrow> bytes option \<Rightarrow> nat \<Rightarrow> ossl_param" where
  "OSSL_PARAM_construct_octet_string key buf bsize =
     ossl_param_construct key OSSL_PARAM_OCTET_STRING buf bsize"

section \<open>Octet strings of an array\<close>

text \<open>The value returned, 1, 0 or -1, with \<open>*out\<close> and \<open>*out_len\<close>.\<close>

type_synonym get1_result = "int \<times> bytes option \<times> nat"

definition ossl_param_get1_octet_string ::
    "allocator \<Rightarrow> ossl_param list \<Rightarrow> string \<Rightarrow> bytes option \<Rightarrow> nat \<Rightarrow> get1_result" where
  "ossl_param_get1_octet_string al params name out out_len =
     (case OSSL_PARAM_locate_const params name of
        None \<Rightarrow> (-1, out, out_len)
      | Some (p, _) \<Rightarrow>
          if op_data p \<noteq> None \<and> op_size p > 0 then
            (case OSSL_PARAM_get_octet_string al (Some p) (Some None) 0 (Some 0) of
               (so, r) \<Rightarrow>
                 if r \<noteq> Ok () then (0, out, out_len)
                 else (1, (case so_val so of None \<Rightarrow> None | Some b \<Rightarrow> b),
                       (case so_used_len so of None \<Rightarrow> 0 | Some n \<Rightarrow> n)))
          else (1, None, 0))"

lemma length_locate_le [termination_simp]: "OSSL_PARAM_locate ps key = q # qs \<Longrightarrow> length qs < length ps"
  by (induction ps) (auto split: if_splits)

text \<open>The loop of \<open>setbuf_fromparams\<close>; the pointer \<open>p\<close> is the list of the elements from \<open>p\<close> on.\<close>

fun setbuf_loop :: "allocator \<Rightarrow> string \<Rightarrow> wpacket \<Rightarrow> ossl_param list \<Rightarrow> wpacket option" where
  "setbuf_loop al name pkt [] = Some pkt"
| "setbuf_loop al name pkt (p # rest) =
     (if op_type p \<noteq> OSSL_PARAM_OCTET_STRING then None
      else
        let r = (case op_data p of
                   Some data \<Rightarrow> if op_size p \<noteq> 0 then WPACKET_memcpy al pkt data (op_size p) else Some pkt
                 | None \<Rightarrow> Some pkt)
        in (case r of
              None \<Rightarrow> None
            | Some pkt' \<Rightarrow>
                (case OSSL_PARAM_locate rest name of
                   [] \<Rightarrow> Some pkt'
                 | q # qs \<Rightarrow> setbuf_loop al name pkt' (q # qs))))"

text \<open>The buffer and \<open>*outlen\<close>. For a null \<open>out\<close> the writer only counts.\<close>

definition setbuf_fromparams ::
    "allocator \<Rightarrow> ossl_param list \<Rightarrow> string \<Rightarrow> bytes option \<Rightarrow> nat \<Rightarrow> (bytes option \<times> nat) option" where
  "setbuf_fromparams al p name out outlen =
     (case (case out of
              None \<Rightarrow> WPACKET_init_null al 0
            | Some o1 \<Rightarrow> WPACKET_init_static_len al o1 outlen 0) of
        None \<Rightarrow> None
      | Some pkt \<Rightarrow>
          (case setbuf_loop al name pkt p of
             None \<Rightarrow> None
           | Some pkt1 \<Rightarrow>
               let outlen1 = WPACKET_get_total_written pkt1
               in (case WPACKET_finish al pkt1 of
                     None \<Rightarrow> None
                   | Some pkt2 \<Rightarrow> Some (wp_staticbuf pkt2, outlen1))))"

definition ossl_param_get1_concat_octet_string ::
    "allocator \<Rightarrow> ossl_param list \<Rightarrow> string \<Rightarrow> bytes option \<Rightarrow> nat \<Rightarrow> nat \<Rightarrow> get1_result" where
  "ossl_param_get1_concat_octet_string al params name out out_len maxsize =
     (case OSSL_PARAM_locate params name of
        [] \<Rightarrow> (-1, out, out_len)
      | p # rest \<Rightarrow>
          (case setbuf_fromparams al (p # rest) name None 0 of
             None \<Rightarrow> (0, out, out_len)
           | Some (_, sz) \<Rightarrow>
               if maxsize > 0 \<and> sz > maxsize then (0, out, out_len)
               else if sz = 0 then
                 if \<not> al 1 then (0, out, out_len) else (1, Some [0], 0)
               else if \<not> al sz then (0, out, out_len)
               else
                 (case setbuf_fromparams al (p # rest) name (Some (replicate sz 0)) sz of
                    None \<Rightarrow> (0, out, out_len)
                  | Some (res, sz') \<Rightarrow> (1, res, sz'))))"

section \<open>Strings and concatenations\<close>

text \<open>The octet strings of an array under one key: what the concatenation is to be.\<close>

definition octet_data :: "ossl_param \<Rightarrow> bytes" where
  "octet_data p = (case op_data p of None \<Rightarrow> [] | Some d \<Rightarrow> take (op_size p) d)"

definition octets :: "string \<Rightarrow> ossl_param list \<Rightarrow> bytes" where
  "octets name ps = concat (map octet_data (filter (\<lambda>p. op_key p = name) ps))"

definition octet_param :: "ossl_param \<Rightarrow> bool" where
  "octet_param p \<longleftrightarrow> op_type p = OSSL_PARAM_OCTET_STRING \<and> (\<forall>d. op_data p = Some d \<longrightarrow> op_size p \<le> length d)"

lemma locate_eq: "OSSL_PARAM_locate ps name = dropWhile (\<lambda>p. op_key p \<noteq> name) ps"
  by (induction ps) auto

lemma octets_locate: "octets name (OSSL_PARAM_locate ps name) = octets name ps"
  by (induction ps) (auto simp: octets_def)

lemma octets_Nil [simp]: "octets name [] = []"
  by (simp add: octets_def)

lemma octets_Cons [simp]: "octets name (p # ps) = (if op_key p = name then octet_data p @ octets name ps else octets name ps)"
  by (simp add: octets_def)

lemma locate_head: "OSSL_PARAM_locate ps name = q # qs \<Longrightarrow> op_key q = name \<and> set (q # qs) \<subseteq> set ps"
  by (induction ps) (auto split: if_splits)

lemma locate_Nil_iff: "OSSL_PARAM_locate ps name = [] \<longleftrightarrow> (\<forall>p \<in> set ps. op_key p \<noteq> name)"
  by (induction ps) auto

text \<open>A writer that does not allocate: on the caller's buffer, or only counting.\<close>

definition wp_plain :: "wpacket \<Rightarrow> bool" where
  "wp_plain p \<longleftrightarrow> wpacket_ok p \<and> wp_buf p = None \<and> \<not> wp_endfirst p \<and> wp_subs p = [new_sub]"

lemma memcpy_plain:
  assumes "wp_plain p" and "len \<le> length src"
  shows "WPACKET_memcpy al p src len = (if len \<le> wp_room p then Some (wp_append p (take len src)) else None)"
proof (cases "wp_staticbuf p")
  case (Some d)
  with assms have "wp_static p"
    by (simp add: wp_plain_def wp_static_def)
  then show ?thesis
    using assms(2) by (rule memcpy_static)
next
  case None
  have p: "wp_buf p = None" "\<not> wp_endfirst p" "wp_subs p \<noteq> []"
    "wp_curr p = wp_written p" "wp_written p \<le> wp_maxsize p" "wp_maxsize p \<le> SIZE_MAX"
    using assms by (auto simp: wp_plain_def wpacket_ok_def)
  have "WPACKET_reserve_bytes al p len = (if 0 < len \<and> len \<le> wp_room p then Some (None, p) else None)"
    using p None by (simp add: WPACKET_reserve_bytes_def WPACKET_get_curr_def GETBUF_def wp_room_def size_sub_le)
  moreover have "len \<le> wp_room p \<Longrightarrow> size_add (wp_written p) len = wp_written p + len"
    using p by (simp add: size_add_le wp_room_def)
  moreover have "len = 0 \<Longrightarrow> wp_append p (take len src) = p"
    by simp
  ultimately show ?thesis
    using p(4) assms(2) None
    by (auto simp: WPACKET_memcpy_def WPACKET_allocate_bytes_def wp_store_def wp_append_def)
qed

lemma wp_append_plain:
  assumes "wp_plain p" and "length ds \<le> wp_room p"
  shows "wp_plain (wp_append p ds)"
  using assms subs_ok_mono [of "wp_written p" "wp_subs p" "wp_written p + length ds"]
  by (auto simp: wp_plain_def wp_append_def wpacket_ok_def wp_room_def split: option.splits)

lemma length_octet_data: "octet_param p \<Longrightarrow> length (octet_data p) = (if op_data p = None then 0 else op_size p)"
  by (auto simp: octet_param_def octet_data_def)

lemma setbuf_loop_eq:
  assumes "wp_plain pkt" and "\<forall>p \<in> set ps. op_key p = name \<longrightarrow> octet_param p"
    and "ps \<noteq> []" and "op_key (hd ps) = name"
  shows "setbuf_loop al name pkt ps =
    (if length (octets name ps) \<le> wp_room pkt then Some (wp_append pkt (octets name ps)) else None)"
  using assms
proof (induction al name pkt ps rule: setbuf_loop.induct)
  case (2 al name pkt p rest)
  have p: "octet_param p" "op_key p = name"
    using 2(3,5) by simp_all
  note l = length_octet_data [OF p(1)]
  have step: "(case op_data p of
       Some data \<Rightarrow> if op_size p \<noteq> 0 then WPACKET_memcpy al pkt data (op_size p) else Some pkt
     | None \<Rightarrow> Some pkt) =
     (if length (octet_data p) \<le> wp_room pkt then Some (wp_append pkt (octet_data p)) else None)"
    using p memcpy_plain [OF 2(2), of "op_size p" _ al]
    by (auto simp: octet_param_def octet_data_def split: option.splits)
  show ?case
  proof (cases "length (octet_data p) \<le> wp_room pkt")
    case False
    then show ?thesis
      using p step by (simp add: octet_param_def)
  next
    case True
    note plain = wp_append_plain [OF 2(2) True]
    show ?thesis
    proof (cases "OSSL_PARAM_locate rest name")
      case Nil
      then have "octets name rest = []"
        using octets_locate [of name rest] by simp
      then show ?thesis
        using p step True Nil by (simp add: octet_param_def)
    next
      case (Cons q qs)
      note h = locate_head [OF Cons]
      have "setbuf_loop al name (wp_append pkt (octet_data p)) (q # qs) =
        (if length (octets name (q # qs)) \<le> wp_room (wp_append pkt (octet_data p))
         then Some (wp_append (wp_append pkt (octet_data p)) (octets name (q # qs))) else None)"
        using p 2(3) h step True Cons plain
        by (intro 2(1) [OF _ refl]) (auto simp: octet_param_def)
      moreover have "octets name (q # qs) = octets name rest"
        using octets_locate [of name rest] Cons by simp
      ultimately show ?thesis
        using p step True Cons by (simp add: octet_param_def del: octets_Cons) (auto simp: le_diff_conv2)
    qed
  qed
qed simp

lemma finish_plain:
  assumes "wp_plain p"
  shows "WPACKET_finish al p = Some (p\<lparr>wp_subs := []\<rparr>)"
  using assms
  by (auto simp: WPACKET_finish_def wpacket_intern_close_def close_fill_def Let_def wp_plain_def wpacket_ok_def new_sub_def)

lemma init_null_plain:
  assumes "al sizeof_wpacket_sub"
  obtains p where "WPACKET_init_null al 0 = Some p" "wp_plain p" "wp_written p = 0" "wp_room p = SIZE_MAX"
    "wp_staticbuf p = None"
proof -
  let ?p = "\<lparr>wp_buf = None, wp_staticbuf = None, wp_curr = 0, wp_written = 0,
             wp_maxsize = SIZE_MAX, wp_subs = [new_sub], wp_endfirst = False\<rparr>"
  have "WPACKET_init_null al 0 = Some ?p"
    using assms by (simp add: WPACKET_init_null_def wpacket_intern_init_len_def maxmaxsize_def)
  then show ?thesis
    by (intro that) (auto simp: wp_plain_def wpacket_ok_def wp_room_def new_sub_def)
qed

lemma init_static_plain:
  assumes "al sizeof_wpacket_sub" and "0 < len" and "len \<le> length buf" and "len \<le> SIZE_MAX"
  obtains p where "WPACKET_init_static_len al buf len 0 = Some p" "wp_plain p" "wp_written p = 0"
    "wp_room p = len" "wp_staticbuf p = Some buf"
proof -
  from init_static_ok [of al len buf, OF assms] obtain p where "WPACKET_init_static_len al buf len 0 = Some p"
    "wp_static p" "wp_written p = 0" "wp_room p = len" "wp_staticbuf p = Some buf" "wp_subs p = [new_sub]" .
  then show ?thesis
    by (intro that) (auto simp: wp_static_def wp_plain_def wpacket_ok_def)
qed

text \<open>What both passes of the concatenation do.\<close>

lemma setbuf_fromparams_eq:
  assumes al: "al sizeof_wpacket_sub" and ps: "\<forall>p \<in> set ps. op_key p = name \<longrightarrow> octet_param p"
    and hd: "ps \<noteq> []" "op_key (hd ps) = name"
  shows "setbuf_fromparams al ps name None n =
      (if length (octets name ps) \<le> SIZE_MAX then Some (None, length (octets name ps)) else None)"
    and "0 < n \<Longrightarrow> n \<le> length buf \<Longrightarrow> n \<le> SIZE_MAX \<Longrightarrow> setbuf_fromparams al ps name (Some buf) n =
      (if length (octets name ps) \<le> n then Some (Some (store_at buf 0 (octets name ps)), length (octets name ps)) else None)"
proof -
  have main: "(case setbuf_loop al name p ps of None \<Rightarrow> None
      | Some pkt1 \<Rightarrow> let outlen1 = WPACKET_get_total_written pkt1
          in (case WPACKET_finish al pkt1 of None \<Rightarrow> None | Some pkt2 \<Rightarrow> Some (wp_staticbuf pkt2, outlen1))) =
      (if length (octets name ps) \<le> wp_room p
       then Some (map_option (\<lambda>d. store_at d 0 (octets name ps)) (wp_staticbuf p), length (octets name ps)) else None)"
    if "wp_plain p" "wp_written p = 0" for p
    using setbuf_loop_eq [OF that(1) ps hd] finish_plain [OF wp_append_plain [OF that(1)]] that(2)
    by (simp add: WPACKET_get_total_written_def Let_def wp_append_def)
  from init_null_plain [of al, OF al] obtain p where "WPACKET_init_null al 0 = Some p" "wp_plain p"
    "wp_written p = 0" "wp_room p = SIZE_MAX" "wp_staticbuf p = None" .
  then show "setbuf_fromparams al ps name None n =
      (if length (octets name ps) \<le> SIZE_MAX then Some (None, length (octets name ps)) else None)"
    using main [of p] by (simp add: setbuf_fromparams_def)
  assume "0 < n" "n \<le> length buf" "n \<le> SIZE_MAX"
  then obtain p where "WPACKET_init_static_len al buf n 0 = Some p" "wp_plain p" "wp_written p = 0"
    "wp_room p = n" "wp_staticbuf p = Some buf"
    using init_static_plain [of al n buf, OF al] by metis
  then show "setbuf_fromparams al ps name (Some buf) n =
      (if length (octets name ps) \<le> n then Some (Some (store_at buf 0 (octets name ps)), length (octets name ps)) else None)"
    using main [of p] by (simp add: setbuf_fromparams_def)
qed

lemma concat_octet_string_eq:
  assumes al: "al sizeof_wpacket_sub" and ps: "\<forall>p \<in> set ps. op_key p = name \<longrightarrow> octet_param p"
    and ex: "\<exists>p \<in> set ps. op_key p = name"
  shows "ossl_param_get1_concat_octet_string al ps name out out_len maxsize =
    (let r = octets name ps; n = length r
     in if n \<le> SIZE_MAX \<and> (maxsize = 0 \<or> n \<le> maxsize) \<and> al (if n = 0 then 1 else n)
        then (1, Some (if n = 0 then [0] else r), n) else (0, out, out_len))"
proof -
  obtain q qs where l: "OSSL_PARAM_locate ps name = q # qs"
    using ex locate_Nil_iff [of ps name] by (cases "OSSL_PARAM_locate ps name") auto
  note h = locate_head [OF l]
  have o: "octets name (q # qs) = octets name ps"
    using octets_locate [of name ps] l by simp
  have qs: "\<forall>p \<in> set (q # qs). op_key p = name \<longrightarrow> octet_param p"
    using ps h by blast
  note e = setbuf_fromparams_eq [of al, OF al qs, simplified o list.sel, OF list.distinct(2)]
  have k: "op_key q = name"
    using h by blast
  show ?thesis
    using e(1) [OF k, of 0] e(2) [OF k, of "length (octets name ps)" "replicate (length (octets name ps)) 0"]
      store_whole [of "octets name ps" "replicate (length (octets name ps)) 0"]
    by (auto simp: ossl_param_get1_concat_octet_string_def l Let_def)
qed

lemma takeWhile_nul: "0 \<notin> set v \<Longrightarrow> takeWhile (\<lambda>b. b \<noteq> 0) (v @ 0 # rest) = v"
  by (induction v) auto

lemma takeWhile_strlen: "0 \<notin> set v \<Longrightarrow> strlen (v @ 0 # rest) = length v"
  by (simp add: strlen_def takeWhile_nul)

lemma set_utf8_string_eq:
  assumes "op_type p = OSSL_PARAM_UTF8_STRING" and "op_data p = Some data" and "length data = op_size p"
    and "0 \<notin> set v" and "length v \<le> op_size p"
  shows "OSSL_PARAM_set_utf8_string (Some p) (Some (v @ [0])) =
    (Some (p\<lparr>op_return_size := length v,
             op_data := Some (take (op_size p) (v @ 0 # drop (length v + 1) data))\<rparr>), Ok ())"
  using assms
  by (auto simp: OSSL_PARAM_set_utf8_string_def set_string_internal_def takeWhile_strlen Let_def store_at_eq)

lemma get_utf8_string_alloc:
  assumes "op_type p = OSSL_PARAM_UTF8_STRING" and "op_data p = Some data" and "length data = op_size p"
    and "op_size p < SIZE_MAX" and "al (op_size p + 1)"
  shows "OSSL_PARAM_get_utf8_string al (Some p) (Some None) n = (Some (Some (data @ [0])), Ok ())"
  using assms size_add_le [of "op_size p" 1]
  by (simp add: OSSL_PARAM_get_utf8_string_def get_string_internal_def Let_def store_at_eq replicate_add
      flip: replicate_Suc)

section \<open>Properties\<close>

text \<open>Two strings under one key, with a foreign parameter between them, and a buffer for a string.\<close>

definition array_ex :: "ossl_param list" where
  "array_ex =
     [OSSL_PARAM_construct_octet_string ''info'' (Some [1, 2]) 2,
      OSSL_PARAM_construct_int32 ''n'' (Some [0, 0, 0, 0]),
      OSSL_PARAM_construct_octet_string ''info'' (Some [3]) 1]"

definition name_ex :: ossl_param where
  "name_ex = OSSL_PARAM_construct_utf8_string ''name'' (Some [0, 0, 0, 0]) 4"

lemmas construct_defs = OSSL_PARAM_construct_octet_string_def OSSL_PARAM_construct_utf8_string_def
  OSSL_PARAM_construct_int32_def ossl_param_construct_def

lemma array_ex_ok:
  "\<forall>p \<in> set array_ex. op_key p = ''info'' \<longrightarrow> octet_param p" "\<exists>p \<in> set array_ex. op_key p = ''info''"
  "octets ''info'' array_ex = [1, 2, 3]"
  by (simp_all add: array_ex_def construct_defs octet_param_def octet_data_def)

text \<open>
  C16: \<open>ossl_param_get1_concat_octet_string\<close> returns the octet strings under the key, in the order of the
  array and with nothing of the other parameters, whenever their total length is within \<open>maxsize\<close> (0: no
  limit) and the allocator grants it; in every other case it fails and leaves the caller's buffer alone.
  The counting pass and the copying pass agree on the length, so that the buffer is exactly filled.
\<close>

theorem concat_octet_string:
  assumes "al sizeof_wpacket_sub" and "\<forall>p \<in> set ps. op_key p = name \<longrightarrow> octet_param p"
    and "\<exists>p \<in> set ps. op_key p = name"
  shows "ossl_param_get1_concat_octet_string al ps name out out_len maxsize =
    (let r = octets name ps; n = length r
     in if n \<le> SIZE_MAX \<and> (maxsize = 0 \<or> n \<le> maxsize) \<and> al (if n = 0 then 1 else n)
        then (1, Some (if n = 0 then [0] else r), n) else (0, out, out_len))"
  using concat_octet_string_eq [of al, OF assms] .

theorem concat_octet_string_witness:
  "ossl_param_get1_concat_octet_string (\<lambda>_. True) array_ex ''info'' None 0 16 = (1, Some [1, 2, 3], 3)"
  using concat_octet_string [of "\<lambda>_. True", OF TrueI array_ex_ok(1,2), of None 0 16]
  by (simp add: array_ex_ok(3) SIZE_MAX_def)

text \<open>
  C25: A string without a zero byte that fits the parameter's buffer comes back from it, even when it
  fills the buffer completely and no terminator was stored: the getter's buffer is one byte longer and
  ends the string itself.
\<close>

theorem utf8_string_set_get:
  assumes "op_type p = OSSL_PARAM_UTF8_STRING" and "op_data p = Some data" and "length data = op_size p"
    and "0 \<notin> set v" and "length v \<le> op_size p" and "op_size p < SIZE_MAX" and "al (op_size p + 1)"
  shows "\<exists>q buf. OSSL_PARAM_set_utf8_string (Some p) (Some (v @ [0])) = (Some q, Ok ()) \<and>
      op_return_size q = length v \<and>
      OSSL_PARAM_get_utf8_string al (Some q) (Some None) 0 = (Some (Some buf), Ok ()) \<and>
      length buf = op_size p + 1 \<and> 0 \<in> set buf \<and> takeWhile (\<lambda>b. b \<noteq> 0) buf = v"
proof -
  let ?d = "take (op_size p) (v @ 0 # drop (length v + 1) data)"
  let ?q = "p\<lparr>op_return_size := length v, op_data := Some ?d\<rparr>"
  have l: "length ?d = op_size p"
    using assms(3,5) by simp
  have "OSSL_PARAM_get_utf8_string al (Some ?q) (Some None) 0 = (Some (Some (?d @ [0])), Ok ())"
    using assms l by (intro get_utf8_string_alloc) simp_all
  moreover have "takeWhile (\<lambda>b. b \<noteq> 0) (?d @ [0]) = v"
  proof (cases "length v = op_size p")
    case True
    with assms(4) show ?thesis
      by (simp add: takeWhile_nul)
  next
    case False
    then obtain k where "op_size p - length v = Suc k"
      using assms(5) by (cases "op_size p - length v") auto
    with assms(4,5) show ?thesis
      by (simp add: takeWhile_nul)
  qed
  ultimately show ?thesis
    using set_utf8_string_eq [OF assms(1-5)] l
    by - (rule exI [of _ ?q], rule exI [of _ "?d @ [0]"], simp)
qed

theorem utf8_string_set_get_witness:
  "\<exists>q buf. OSSL_PARAM_set_utf8_string (Some name_ex) (Some ([0x61, 0x62] @ [0])) = (Some q, Ok ()) \<and>
     OSSL_PARAM_get_utf8_string (\<lambda>_. True) (Some q) (Some None) 0 = (Some (Some buf), Ok ()) \<and>
     takeWhile (\<lambda>b. b \<noteq> 0) buf = [0x61, 0x62]"
  using utf8_string_set_get [of name_ex "[0, 0, 0, 0]" "[0x61, 0x62]" "\<lambda>_. True"]
  by (auto simp: name_ex_def construct_defs SIZE_MAX_def)


end
