(* ===== verification/Slh_Key.thy ===== *)
theory Slh_Key
  imports Slh_Dsa Ossl_Param_Str
begin

text \<open>
  Keys and contexts of SLH-DSA (\<open>crypto/slh_dsa/slh_dsa_key.c\<close>, \<open>slh_dsa_hash_ctx.c\<close>): creation, import,
  export, comparison, key generation and clearing, and what an application gets from all layers
  together: a signature made with a generated key is accepted under the exported public key.

  A key that a function modifies through its pointer is returned. Reference counts of fetched
  digests have no counterpart in the model, so that \<open>slh_dsa_key_hash_dup\<close> does nothing.
\<close>

section \<open>Names\<close>

definition ossl_tolower :: "int \<Rightarrow> int" where
  "ossl_tolower c = (if c \<ge> 0x41 \<and> c \<le> 0x5A then c XOR 0x20 else c)"

text \<open>The value of a \<open>char\<close>, which is signed.\<close>

definition char_int :: "char \<Rightarrow> int" where
  "char_int c = (let v = of_char c in if v < 128 then v else v - 256)"

text \<open>The end of a list is the terminator.\<close>

fun OPENSSL_strcasecmp :: "string \<Rightarrow> string \<Rightarrow> int" where
  "OPENSSL_strcasecmp [] [] = 0"
| "OPENSSL_strcasecmp [] (d # ds) = 0 - ossl_tolower (char_int d)"
| "OPENSSL_strcasecmp (c # cs) [] = ossl_tolower (char_int c) - 0"
| "OPENSSL_strcasecmp (c # cs) (d # ds) =
     (let t = ossl_tolower (char_int c) - ossl_tolower (char_int d)
      in if t = 0 then OPENSSL_strcasecmp cs ds else t)"

section \<open>Creating and destroying keys\<close>

definition SLH_DSA_MAX_N :: nat where "SLH_DSA_MAX_N = 32"

definition SLH_DSA_PUB :: "slh_dsa_key \<Rightarrow> bytes" where
  "SLH_DSA_PUB key = SLH_DSA_PK_SEED key"

definition OSSL_KEYMGMT_SELECT_PRIVATE_KEY :: u32 where "OSSL_KEYMGMT_SELECT_PRIVATE_KEY = 1"
definition OSSL_KEYMGMT_SELECT_PUBLIC_KEY :: u32 where "OSSL_KEYMGMT_SELECT_PUBLIC_KEY = 2"

definition OSSL_KEYMGMT_SELECT_KEYPAIR :: u32 where
  "OSSL_KEYMGMT_SELECT_KEYPAIR = OSSL_KEYMGMT_SELECT_PRIVATE_KEY OR OSSL_KEYMGMT_SELECT_PUBLIC_KEY"

text \<open>The sizes of the two structures on a platform with pointers of 8 bytes.\<close>

definition sizeof_slh_dsa_key :: nat where "sizeof_slh_dsa_key = 208"
definition sizeof_slh_dsa_hash_ctx :: nat where "sizeof_slh_dsa_hash_ctx = 40"

definition slh_dsa_key_hash_init :: "slh_dsa_key \<Rightarrow> slh_dsa_key option" where
  "slh_dsa_key_hash_init key =
     (let is_shake = sp_is_shake (key_params key);
          security_category = sp_security_category (key_params key);
          digest_alg = (if is_shake then ''SHAKE-256'' else ''SHA2-256'')
      in (case lib_md_fetch (key_libctx key) digest_alg (key_propq key) of
            None \<Rightarrow> None
          | Some md \<Rightarrow>
              let key1 = key\<lparr>key_md := Some md\<rparr>;
                  r = (if is_shake then Some key1
                       else
                         (case (if security_category = 1 then Some (md, True)
                                else map_option (\<lambda>m. (m, False))
                                       (lib_md_fetch (key_libctx key) ''SHA2-512'' (key_propq key))) of
                            None \<Rightarrow> None
                          | Some (big, shared) \<Rightarrow>
                              (case lib_mac_fetch (key_libctx key) ''HMAC'' (key_propq key) of
                                 None \<Rightarrow> None
                               | Some hmac \<Rightarrow>
                                   Some (key1\<lparr>key_md_big := Some big, key_md_shared := shared, key_hmac := Some hmac\<rparr>))))
              in map_option (\<lambda>k. k\<lparr>key_adrs_func := ossl_slh_get_adrs_fn (\<not> is_shake),
                                   key_hash_func := ossl_slh_get_hash_fn is_shake\<rparr>) r))"

text \<open>
  \<open>zeroed\<close> is the structure that \<open>OPENSSL_zalloc\<close> returns, once \<open>libctx\<close> and \<open>params\<close> are set; its
  method tables are null pointers, which \<open>slh_dsa_key_hash_init\<close> replaces.
\<close>

definition zeroed :: "evp_lib \<Rightarrow> slh_dsa_params \<Rightarrow> slh_dsa_key" where
  "zeroed libctx params =
     \<lparr>key_priv = replicate (4 * SLH_DSA_MAX_N) 0, key_pub = False, key_libctx = libctx, key_propq = None,
      key_has_priv = False, key_params = params, key_adrs_func = ossl_slh_get_adrs_fn False,
      key_hash_func = ossl_slh_get_hash_fn False, key_md = None, key_md_big = None, key_md_shared = False,
      key_hmac = None\<rparr>"

text \<open>\<open>OPENSSL_strdup\<close>: the copy and its terminator are allocated.\<close>

definition strdup_ok :: "allocator \<Rightarrow> string option \<Rightarrow> bool" where
  "strdup_ok al s = (case s of None \<Rightarrow> True | Some t \<Rightarrow> al (length t + 1))"

definition ossl_slh_dsa_key_new :: "allocator \<Rightarrow> evp_lib \<Rightarrow> string option \<Rightarrow> string option \<Rightarrow> slh_dsa_key option" where
  "ossl_slh_dsa_key_new al libctx propq alg =
     (case ossl_slh_dsa_params_get alg of
        None \<Rightarrow> None
      | Some params \<Rightarrow>
          if \<not> al sizeof_slh_dsa_key then None
          else if \<not> strdup_ok al propq then None
          else slh_dsa_key_hash_init ((zeroed libctx params)\<lparr>key_propq := propq\<rparr>))"

text \<open>What is in the memory that is given back.\<close>

definition ossl_slh_dsa_key_free :: "slh_dsa_key option \<Rightarrow> slh_dsa_key option" where
  "ossl_slh_dsa_key_free key =
     map_option (\<lambda>k. k\<lparr>key_propq := None, key_md_big := None, key_md := None,
                       key_priv := store_at (key_priv k) 0 (replicate (4 * SLH_DSA_MAX_N div 2) 0)\<rparr>) key"

definition ossl_slh_dsa_key_get0_libctx :: "slh_dsa_key option \<Rightarrow> evp_lib option" where
  "ossl_slh_dsa_key_get0_libctx key = map_option key_libctx key"

definition ossl_slh_dsa_key_dup :: "allocator \<Rightarrow> slh_dsa_key option \<Rightarrow> u32 \<Rightarrow> slh_dsa_key option" where
  "ossl_slh_dsa_key_dup al src selection =
     (case src of
        None \<Rightarrow> None
      | Some s \<Rightarrow>
          if \<not> al sizeof_slh_dsa_key then None
          else if \<not> strdup_ok al (key_propq s) then None
          else
            let ret = s\<lparr>key_pub := False, key_has_priv := False\<rparr>
            in Some (if selection AND OSSL_KEYMGMT_SELECT_KEYPAIR \<noteq> 0 then
                       let ret1 = ret\<lparr>key_pub := key_pub s\<rparr>
                       in if selection AND OSSL_KEYMGMT_SELECT_PRIVATE_KEY \<noteq> 0
                          then ret1\<lparr>key_has_priv := key_has_priv s\<rparr> else ret1
                     else ret))"

definition ossl_slh_dsa_key_equal :: "slh_dsa_key \<Rightarrow> slh_dsa_key \<Rightarrow> u32 \<Rightarrow> bool" where
  "ossl_slh_dsa_key_equal key1 key2 selection =
     (let pk_len = sp_pk_len (key_params key1)
      in if key_params key1 \<noteq> key_params key2 then False
         else if selection AND OSSL_KEYMGMT_SELECT_KEYPAIR \<noteq> 0 then
           if selection AND OSSL_KEYMGMT_SELECT_PUBLIC_KEY \<noteq> 0 \<and> key_pub key1 \<and> key_pub key2 then
             take pk_len (SLH_DSA_PUB key1) = take pk_len (SLH_DSA_PUB key2)
           else if selection AND OSSL_KEYMGMT_SELECT_PRIVATE_KEY \<noteq> 0 \<and> key_has_priv key1 \<and> key_has_priv key2 then
             take pk_len (key_priv key1) = take pk_len (key_priv key2)
           else False
         else True)"

definition ossl_slh_dsa_key_has :: "slh_dsa_key \<Rightarrow> u32 \<Rightarrow> bool" where
  "ossl_slh_dsa_key_has key selection =
     (if selection AND OSSL_KEYMGMT_SELECT_KEYPAIR \<noteq> 0 then
        if \<not> key_pub key then False
        else \<not> (selection AND OSSL_KEYMGMT_SELECT_PRIVATE_KEY \<noteq> 0 \<and> \<not> key_has_priv key)
      else False)"

section \<open>Contexts\<close>

definition ossl_slh_dsa_hash_ctx_new :: "allocator \<Rightarrow> slh_dsa_key \<Rightarrow> slh_dsa_hash_ctx option" where
  "ossl_slh_dsa_hash_ctx_new al key =
     (let lib = key_libctx key;
          env = (\<lambda>md big hmac. \<lparr>he_params = key_params key, he_md = md, he_md_big = big,
                   he_key_md_big = key_md_big key, he_hmac = hmac, he_hmac_md = None,
                   he_hmac_digest_used = False\<rparr>)
      in if \<not> al sizeof_slh_dsa_hash_ctx then None
         else if \<not> lib_md_ctx_new lib then None
         else
           (case key_md key of
              None \<Rightarrow> None
            | Some md \<Rightarrow>
                if \<not> lib_digest_init lib md then None
                else
                  (case key_md_big key of
                     None \<Rightarrow> Some \<lparr>sc_key = key, sc_env = env md None None\<rparr>
                   | Some big \<Rightarrow>
                       if \<not> key_md_shared key \<and> \<not> lib_md_ctx_new lib then None
                       else if \<not> key_md_shared key \<and> \<not> lib_digest_init lib big then None
                       else
                         (case key_hmac key of
                            None \<Rightarrow> Some \<lparr>sc_key = key, sc_env = env md (Some big) None\<rparr>
                          | Some hmac \<Rightarrow>
                              if \<not> lib_mac_ctx_new lib then None
                              else Some \<lparr>sc_key = key, sc_env = env md (Some big) (Some hmac)\<rparr>))))"

definition ossl_slh_dsa_hash_ctx_dup :: "allocator \<Rightarrow> slh_dsa_hash_ctx \<Rightarrow> slh_dsa_hash_ctx option" where
  "ossl_slh_dsa_hash_ctx_dup al src =
     (let lib = key_libctx (sc_key src)
      in if \<not> al sizeof_slh_dsa_hash_ctx then None
         else if \<not> lib_md_ctx_dup lib then None
         else if he_md_big (sc_env src) \<noteq> None \<and> \<not> key_md_shared (sc_key src) \<and> \<not> lib_md_ctx_dup lib then None
         else if he_hmac (sc_env src) \<noteq> None \<and> \<not> lib_mac_ctx_dup lib then None
         else Some \<lparr>sc_key = sc_key src, sc_env = sc_env src\<rparr>)"

section \<open>Key data\<close>

definition ossl_slh_dsa_key_get_pub :: "slh_dsa_key \<Rightarrow> bytes option" where
  "ossl_slh_dsa_key_get_pub key = (if key_pub key then Some (SLH_DSA_PUB key) else None)"

definition ossl_slh_dsa_key_get_pub_len :: "slh_dsa_key \<Rightarrow> nat" where
  "ossl_slh_dsa_key_get_pub_len key = 2 * sp_n (key_params key)"

definition ossl_slh_dsa_key_get_priv :: "slh_dsa_key \<Rightarrow> bytes option" where
  "ossl_slh_dsa_key_get_priv key = (if key_has_priv key then Some (key_priv key) else None)"

definition ossl_slh_dsa_key_get_priv_len :: "slh_dsa_key \<Rightarrow> nat" where
  "ossl_slh_dsa_key_get_priv_len key = 4 * sp_n (key_params key)"

definition ossl_slh_dsa_key_get_n :: "slh_dsa_key \<Rightarrow> nat" where
  "ossl_slh_dsa_key_get_n key = sp_n (key_params key)"

definition ossl_slh_dsa_key_get_sig_len :: "slh_dsa_key \<Rightarrow> nat" where
  "ossl_slh_dsa_key_get_sig_len key = sp_sig_len (key_params key)"

definition ossl_slh_dsa_key_get_name :: "slh_dsa_key \<Rightarrow> string" where
  "ossl_slh_dsa_key_get_name key = sp_alg (key_params key)"

definition ossl_slh_dsa_key_get_type :: "slh_dsa_key \<Rightarrow> nat" where
  "ossl_slh_dsa_key_get_type key = sp_type (key_params key)"

definition ossl_slh_dsa_key_type_matches :: "slh_dsa_key \<Rightarrow> string \<Rightarrow> bool" where
  "ossl_slh_dsa_key_type_matches key alg \<longleftrightarrow> OPENSSL_strcasecmp (sp_alg (key_params key)) alg = 0"

definition ossl_slh_dsa_set_priv :: "slh_dsa_key \<Rightarrow> bytes \<Rightarrow> nat \<Rightarrow> slh_dsa_key option" where
  "ossl_slh_dsa_set_priv key priv priv_len =
     (if ossl_slh_dsa_key_get_priv_len key \<noteq> priv_len then None
      else Some (key\<lparr>key_priv := store_at (key_priv key) 0 (take priv_len priv), key_has_priv := True, key_pub := True\<rparr>))"

definition ossl_slh_dsa_set_pub :: "slh_dsa_key \<Rightarrow> bytes \<Rightarrow> nat \<Rightarrow> slh_dsa_key option" where
  "ossl_slh_dsa_set_pub key pub pub_len =
     (if ossl_slh_dsa_key_get_pub_len key \<noteq> pub_len then None
      else Some (key\<lparr>key_pub := True,
                     key_priv := store_at (key_priv key) (2 * sp_n (key_params key)) (take pub_len pub),
                     key_has_priv := False\<rparr>))"

definition ossl_slh_dsa_key_reset :: "slh_dsa_key \<Rightarrow> slh_dsa_key" where
  "ossl_slh_dsa_key_reset key =
     (if key_has_priv key
      then key\<lparr>key_pub := False, key_has_priv := False, key_priv := replicate (4 * SLH_DSA_MAX_N) 0\<rparr>
      else key\<lparr>key_pub := False\<rparr>)"

definition OSSL_PKEY_PARAM_PUB_KEY :: string where "OSSL_PKEY_PARAM_PUB_KEY = ''pub''"
definition OSSL_PKEY_PARAM_PRIV_KEY :: string where "OSSL_PKEY_PARAM_PRIV_KEY = ''priv''"

text \<open>The buffer a string getter has written to.\<close>

definition out_buf :: "str_out \<Rightarrow> bytes" where
  "out_buf out = (case so_val out of Some (Some b) \<Rightarrow> b | _ \<Rightarrow> [])"

text \<open>The second half of \<open>ossl_slh_dsa_key_fromdata\<close>, which looks for the public key.\<close>

definition fromdata_pub :: "allocator \<Rightarrow> slh_dsa_key \<Rightarrow> ossl_param list \<Rightarrow> slh_dsa_key \<times> bool" where
  "fromdata_pub al key params =
     (let key_len = ossl_slh_dsa_key_get_priv_len key div 2
      in (case OSSL_PARAM_locate_const params OSSL_PKEY_PARAM_PUB_KEY of
            None \<Rightarrow> (ossl_slh_dsa_key_reset key, False)
          | Some (param_pub, _) \<Rightarrow>
              (case OSSL_PARAM_get_octet_string al (Some param_pub) (Some (Some (SLH_DSA_PUB key))) key_len (Some 0) of
                 (out, r) \<Rightarrow>
                   let key1 = key\<lparr>key_priv := take (2 * sp_n (key_params key)) (key_priv key) @ out_buf out\<rparr>
                   in if r \<noteq> Ok () \<or> so_used_len out \<noteq> Some key_len then (ossl_slh_dsa_key_reset key1, False)
                      else (key1\<lparr>key_pub := True\<rparr>, True))))"

definition ossl_slh_dsa_key_fromdata ::
    "allocator \<Rightarrow> slh_dsa_key option \<Rightarrow> ossl_param list \<Rightarrow> bool \<Rightarrow> slh_dsa_key option \<times> bool" where
  "ossl_slh_dsa_key_fromdata al key0 params include_private =
     (case key0 of
        None \<Rightarrow> (None, False)
      | Some key \<Rightarrow>
          let priv_len = ossl_slh_dsa_key_get_priv_len key; key_len = priv_len div 2
          in apfst Some
               (case (if include_private then OSSL_PARAM_locate_const params OSSL_PKEY_PARAM_PRIV_KEY else None) of
                  None \<Rightarrow> fromdata_pub al key params
                | Some (param_priv, _) \<Rightarrow>
                    (case OSSL_PARAM_get_octet_string al (Some param_priv) (Some (Some (key_priv key))) priv_len (Some 0) of
                       (out, r) \<Rightarrow>
                         if r \<noteq> Ok () then (key, False)
                         else
                           let key1 = key\<lparr>key_priv := out_buf out\<rparr>
                           in if so_used_len out = Some priv_len
                              then (key1\<lparr>key_has_priv := True, key_pub := True\<rparr>, True)
                              else if so_used_len out \<noteq> Some key_len then (ossl_slh_dsa_key_reset key1, False)
                              else fromdata_pub al (key1\<lparr>key_has_priv := True\<rparr>) params)))"

section \<open>Key generation\<close>

text \<open>
  Both callers pass the key of the context as \<open>out\<close>: the key is the one of the context here, and the
  result is the key as it is left behind.
\<close>

definition slh_dsa_compute_pk_root :: "allocator \<Rightarrow> slh_dsa_hash_ctx \<Rightarrow> bool \<Rightarrow> slh_dsa_key \<times> bool" where
  "slh_dsa_compute_pk_root al ctx validate =
     (let key = sc_key ctx; af = key_adrs_func key; params = key_params key; n = sp_n params;
          adrs = adrs_zero af SLH_ADRS_DECLARE;
          adrs1 = set_layer_address af adrs (of_nat (sp_d params - 1))
      in (case ossl_slh_xmss_node al ctx (SLH_DSA_SK_SEED key) 0 (sp_hm params) (SLH_DSA_PK_SEED key) adrs1 of
            None \<Rightarrow> (key, False)
          | Some (pk_root, _) \<Rightarrow>
              if validate then (key, pk_root = take n (SLH_DSA_PK_ROOT key))
              else (key\<lparr>key_priv := store_at (key_priv key) (3 * n) pk_root\<rparr>, True)))"

text \<open>The seeds: \<open>priv\<close> after they were written, and whether that succeeded.\<close>

definition generate_seeds :: "slh_dsa_key \<Rightarrow> evp_lib \<Rightarrow> bytes option \<Rightarrow> nat \<Rightarrow> bytes \<times> bool" where
  "generate_seeds out lib_ctx entropy entropy_len =
     (let n = sp_n (key_params out); secret_key_len = 2 * n; pk_seed_len = n;
          entropy_len_expected = secret_key_len + pk_seed_len; priv = key_priv out
      in (case (if entropy_len \<noteq> 0 then entropy else None) of
            Some e \<Rightarrow>
              if entropy_len \<noteq> entropy_len_expected then (priv, False)
              else (store_at priv 0 (take entropy_len_expected e), True)
          | None \<Rightarrow>
              (case lib_rand_priv lib_ctx secret_key_len of
                 None \<Rightarrow> (priv, False)
               | Some sk \<Rightarrow>
                   let priv1 = store_at priv 0 sk
                   in (case lib_rand lib_ctx pk_seed_len of
                         None \<Rightarrow> (priv1, False)
                       | Some pk \<Rightarrow> (store_at priv1 (2 * n) pk, True)))))"

definition ossl_slh_dsa_generate_key ::
    "allocator \<Rightarrow> slh_dsa_hash_ctx \<Rightarrow> evp_lib \<Rightarrow> bytes option \<Rightarrow> nat \<Rightarrow> slh_dsa_key \<times> bool" where
  "ossl_slh_dsa_generate_key al ctx lib_ctx entropy entropy_len =
     (let out = sc_key ctx; secret_key_len = 2 * sp_n (key_params out);
          failed = (\<lambda>k. (k\<lparr>key_pub := False, key_has_priv := False,
                           key_priv := store_at (key_priv k) 0 (replicate secret_key_len 0)\<rparr>, False))
      in (case generate_seeds out lib_ctx entropy entropy_len of
            (priv, ok) \<Rightarrow>
              let out1 = out\<lparr>key_priv := priv\<rparr>
              in if \<not> ok then failed out1
                 else
                   (case slh_dsa_compute_pk_root al (ctx\<lparr>sc_key := out1\<rparr>) False of
                      (out2, ok2) \<Rightarrow>
                        if \<not> ok2 then failed out2
                        else (out2\<lparr>key_pub := True, key_has_priv := True\<rparr>, True))))"

definition ossl_slh_dsa_key_pairwise_check :: "allocator \<Rightarrow> slh_dsa_key \<Rightarrow> bool" where
  "ossl_slh_dsa_key_pairwise_check al key =
     (if \<not> key_pub key \<or> \<not> key_has_priv key then False
      else
        (case ossl_slh_dsa_hash_ctx_new al key of
           None \<Rightarrow> False
         | Some ctx \<Rightarrow> snd (slh_dsa_compute_pk_root al ctx True)))"

section \<open>Seeds are read up to their length\<close>

context slh_scheme
begin

lemma seed_prims:
  assumes "ctx_ok ctx" and "take (ctx_n ctx) pk' = take (ctx_n ctx) pk" and "take (ctx_n ctx) sk' = take (ctx_n ctx) sk"
  shows "sF ctx pk' = sF ctx pk" and "sH ctx pk' = sH ctx pk" and "sT ctx pk' = sT ctx pk"
    and "sPRF ctx sk' pk' = sPRF ctx sk pk"
proof -
  have n: "sp_n (he_params (sc_env ctx)) = ctx_n ctx"
    using assms(1) by (simp add: ctx_ok_def)
  note F = F_seed [of "sc_env ctx", unfolded n] and H = H_seed [of "sc_env ctx", unfolded n]
    and T = T_seed [of "sc_env ctx", unfolded n] and P = PRF_seed [of "sc_env ctx", unfolded n]
  show "sF ctx pk' = sF ctx pk" "sH ctx pk' = sH ctx pk" "sT ctx pk' = sT ctx pk" "sPRF ctx sk' pk' = sPRF ctx sk pk"
    using F [of pk] F [of pk'] H [of pk] H [of pk'] T [of pk] T [of pk'] P [of pk sk] P [of pk' sk'] assms(2,3)
    by (simp_all add: sF_def sH_def sT_def sPRF_def fun_eq_iff)
qed

lemma seed_ht_root:
  assumes "ctx_ok ctx" and "take (ctx_n ctx) pk' = take (ctx_n ctx) pk" and "take (ctx_n ctx) sk' = take (ctx_n ctx) sk"
  shows "ht_root ctx sk' pk' = ht_root ctx sk pk"
proof -
  note p = seed_prims [OF assms]
  have "chain ctx pk' a x i n = chain ctx pk a x i n" for a x i n
    by (induction n) (simp_all add: p(1))
  then have "wots_pk ctx sk' pk' = wots_pk ctx sk pk"
    by (simp add: wots_pk_def chain_val_def fun_eq_iff p)
  then have "xh ctx pk' = xh ctx pk" "xleaf ctx sk' pk' = xleaf ctx sk pk"
    by (simp_all add: xh_def xleaf_def fun_eq_iff p)
  then show ?thesis
    by (intro ext) (simp add: ht_root_def)
qed

section \<open>The root\<close>

lemma compute_pk_root_eq:
  assumes ctx: "ctx_ok ctx" and al: "al sizeof_wpacket_sub"
  defines "key \<equiv> sc_key ctx"
  defines "rt \<equiv> ht_root ctx (SLH_DSA_SK_SEED key) (SLH_DSA_PK_SEED key) (ctx_d ctx - 1) 0"
  shows "slh_dsa_compute_pk_root al ctx validate =
    (if validate then (key, rt = take (ctx_n ctx) (SLH_DSA_PK_ROOT key))
     else (key\<lparr>key_priv := store_at (key_priv key) (3 * ctx_n ctx) rt\<rparr>, True))"
proof -
  have a: "set_layer_address af (adrs_zero af SLH_ADRS_DECLARE) (of_nat (ctx_d ctx - Suc 0)) = enc (ht_adr (ctx_d ctx - Suc 0) 0)"
    by (simp add: enc_simps adr_zero_def)
  obtain a' where "ossl_slh_xmss_node al ctx (SLH_DSA_SK_SEED key) 0 (ctx_hm ctx) (SLH_DSA_PK_SEED key)
      (enc (ht_adr (ctx_d ctx - 1) 0)) = Some (rt, enc a')"
    using xmss_node_eq [of ctx al, OF ctx al, where sk = "SLH_DSA_SK_SEED key" and pk = "SLH_DSA_PK_SEED key" and i = 0
        and h = "ctx_hm ctx" and a = "ht_adr (ctx_d ctx - 1) 0"]
    by (auto simp: rt_def ht_root_def)
  then show ?thesis
    by (simp add: slh_dsa_compute_pk_root_def ctx_okD(1) [OF ctx] Let_def key_def a)
qed

end

section \<open>Well-formed keys\<close>

text \<open>
  What every key holds: a parameter set of the table with its method tables, the digests that the
  library gives for it, the full buffer, and no private key without a public key.
\<close>

definition slh_key_ok :: "slh_dsa_key \<Rightarrow> bool" where
  "slh_key_ok key \<longleftrightarrow>
     (let p = key_params key; lib = key_libctx key; q = key_propq key
      in p \<in> set slh_dsa_params_table \<and> length (key_priv key) = 4 * SLH_DSA_MAX_N \<and>
         (key_has_priv key \<longrightarrow> key_pub key) \<and>
         key_adrs_func key = ossl_slh_get_adrs_fn (\<not> sp_is_shake p) \<and>
         key_hash_func key = ossl_slh_get_hash_fn (sp_is_shake p) \<and>
         key_md key \<noteq> None \<and>
         key_md key = lib_md_fetch lib (if sp_is_shake p then ''SHAKE-256'' else ''SHA2-256'') q \<and>
         (if sp_is_shake p then key_md_big key = None \<and> key_hmac key = None \<and> \<not> key_md_shared key
          else key_md_big key = (if sp_security_category p = 1 then key_md key else lib_md_fetch lib ''SHA2-512'' q) \<and>
               key_md_shared key = (sp_security_category p = 1) \<and>
               key_md_big key \<noteq> None \<and> key_hmac key \<noteq> None \<and> key_hmac key = lib_mac_fetch lib ''HMAC'' q))"

text \<open>The environment that the context of a key hands to the hash functions.\<close>

definition key_env :: "slh_dsa_key \<Rightarrow> hash_env" where
  "key_env key =
     \<lparr>he_params = key_params key, he_md = the (key_md key), he_md_big = key_md_big key,
      he_key_md_big = key_md_big key, he_hmac = key_hmac key, he_hmac_md = None, he_hmac_digest_used = False\<rparr>"

lemma params_get_table: "ossl_slh_dsa_params_get alg = Some p \<Longrightarrow> p \<in> set slh_dsa_params_table"
  by (auto simp: ossl_slh_dsa_params_get_def find_Some_iff split: option.splits)

lemma key_new_ok:
  assumes "ossl_slh_dsa_key_new al lib propq alg = Some key"
  shows "slh_key_ok key" and "ossl_slh_dsa_params_get alg = Some (key_params key)" and "key_libctx key = lib"
    and "key_propq key = propq" and "key_priv key = replicate (4 * SLH_DSA_MAX_N) 0"
    and "\<not> key_pub key" and "\<not> key_has_priv key"
proof -
  obtain p where p: "ossl_slh_dsa_params_get alg = Some p"
    and i: "slh_dsa_key_hash_init ((zeroed lib p)\<lparr>key_propq := propq\<rparr>) = Some key"
    using assms by (auto simp: ossl_slh_dsa_key_new_def split: option.splits if_splits)
  show "ossl_slh_dsa_params_get alg = Some (key_params key)" "key_libctx key = lib"
    "key_propq key = propq" "key_priv key = replicate (4 * SLH_DSA_MAX_N) 0" "\<not> key_pub key" "\<not> key_has_priv key"
    using i p by (auto simp: slh_dsa_key_hash_init_def zeroed_def Let_def split: option.splits if_splits)
  note t = params_get_table [OF p]
  show "slh_key_ok key"
  proof (cases "sp_is_shake p")
    case True
    with i t show ?thesis
      by (auto simp: slh_dsa_key_hash_init_def zeroed_def slh_key_ok_def Let_def split: option.splits)
  next
    case False
    note f = slh_dsa_key_hash_init_def zeroed_def slh_key_ok_def Let_def
    show ?thesis
    proof (cases "sp_security_category p = 1")
      case True
      with False i t show ?thesis
        by (auto simp: f split: option.splits)
    next
      case cat: False
      with False i t show ?thesis
        by (auto simp: f split: option.splits)
    qed
  qed
qed

section \<open>What the library promises\<close>

text \<open>
  Documented behaviour of \<open>EVP\<close> and \<open>RAND\<close>: the digests and the MAC exist under their names, have
  their output lengths and do not fail, and random generators fill what they are given.
\<close>

definition slh_lib_ok :: "evp_lib \<Rightarrow> string option \<Rightarrow> bool" where
  "slh_lib_ok lib propq \<longleftrightarrow>
     (\<exists>md. lib_md_fetch lib ''SHAKE-256'' propq = Some md \<and> md_total md) \<and>
     (\<exists>md md512 hmac. lib_md_fetch lib ''SHA2-256'' propq = Some md \<and> md_total md \<and> md_size md = 32 \<and>
        lib_md_fetch lib ''SHA2-512'' propq = Some md512 \<and> md_total md512 \<and> md_size md512 = 64 \<and>
        lib_mac_fetch lib ''HMAC'' propq = Some hmac \<and> mac_total hmac md \<and> mac_total hmac md512) \<and>
     lib_md_ctx_new lib \<and> (\<forall>md. lib_digest_init lib md) \<and> lib_mac_ctx_new lib \<and>
     (\<forall>n. \<exists>b. lib_rand_priv lib n = Some b \<and> length b = n) \<and>
     (\<forall>n. \<exists>b. lib_rand lib n = Some b \<and> length b = n)"

lemma key_new_Some:
  assumes "slh_lib_ok lib propq" and "ossl_slh_dsa_params_get alg = Some p" and "al sizeof_slh_dsa_key"
    and "strdup_ok al propq"
  shows "\<exists>key. ossl_slh_dsa_key_new al lib propq alg = Some key"
  using assms
  by (auto simp: ossl_slh_dsa_key_new_def slh_dsa_key_hash_init_def zeroed_def slh_lib_ok_def Let_def)

lemma hash_ctx_new_eq:
  assumes "slh_key_ok key" and "slh_lib_ok (key_libctx key) (key_propq key)" and "al sizeof_slh_dsa_hash_ctx"
  shows "ossl_slh_dsa_hash_ctx_new al key = Some \<lparr>sc_key = key, sc_env = key_env key\<rparr>"
  using assms
  by (auto simp: ossl_slh_dsa_hash_ctx_new_def slh_key_ok_def slh_lib_ok_def key_env_def Let_def split: if_splits)

lemma key_ctx_ok:
  assumes "slh_key_ok key" and "slh_lib_ok (key_libctx key) (key_propq key)"
  shows "slh_ctx_ok \<lparr>sc_key = key, sc_env = key_env key\<rparr>"
proof (cases "sp_is_shake (key_params key)")
  case True
  with assms show ?thesis
    by (auto simp: slh_ctx_ok_def slh_key_ok_def slh_lib_ok_def key_env_def shake_env_ok_def Let_def)
next
  case False
  have "sp_n (key_params key) \<le> 32"
    using assms(1) slh_params_n [OF slh_params_table_ok] by (simp add: slh_key_ok_def Let_def)
  with False assms show ?thesis
    by (auto simp: slh_ctx_ok_def slh_key_ok_def slh_lib_ok_def key_env_def sha2_env_ok_def Let_def SLH_MAX_N_def
        split: if_splits)
qed

section \<open>The message\<close>

lemma put_byte_static:
  assumes p: "wp_static p" and room: "0 < wp_room p" and v: "unat v < 256"
  shows "WPACKET_put_bytes al p v (Suc 0) = Some (wp_append p [ucast v])"
proof -
  have "snd (put_value_loop v (Suc 0) []) = 0"
    using v put_value_loop_fits [of v "Suc 0"] by (simp del: put_value_loop.simps)
  then have "drop_bit 8 v = 0"
    by simp
  then show ?thesis
    using store_allocated_static [OF p, of "[ucast v]" 1] room
    by (simp add: WPACKET_put_bytes_def allocate_static [OF p] put_value_def)
qed

lemma msg_encode_eq:
  assumes al: "al sizeof_wpacket_sub" and big: "1024 < 2 + cl + l \<longrightarrow> al (2 + cl + l)"
    and c: "cl \<le> length c" "cl \<le> 255" and m: "l \<le> length msg" and sz: "2 + cl + l \<le> SIZE_MAX"
  shows "\<exists>buf. msg_encode al msg l c cl True (replicate 1024 0) 1024 = Some (buf, 2 + cl + l) \<and>
    take (2 + cl + l) buf = [0, of_nat cl] @ take cl c @ take l msg"
proof -
  have len: "size_add (size_add (1 + 1) cl) l = 2 + cl + l"
    using c sz by (simp add: size_add_le SIZE_MAX_def)
  define buf where "buf = (if 2 + cl + l \<le> 1024 then replicate 1024 0 else replicate (2 + cl + l) (0 :: byte))"
  have lb: "2 + cl + l \<le> length buf"
    by (simp add: buf_def)
  have eb: "(if 2 + cl + l \<le> 1024 then Some (replicate 1024 0)
      else if al (2 + cl + l) then Some (replicate (2 + cl + l) 0) else None) = Some buf"
    using big by (simp add: buf_def)
  from init_static_ok [of al "2 + cl + l" buf, OF al _ lb sz] obtain p where
    p: "WPACKET_init_static_len al buf (2 + cl + l) 0 = Some p" "wp_static p" "wp_written p = 0"
    "wp_room p = 2 + cl + l" "wp_staticbuf p = Some buf" "wp_subs p = [new_sub]"
    by auto
  let ?p1 = "wp_append p [0]" and ?p2 = "wp_append p [0, of_nat cl]"
    and ?p3 = "wp_append p ([0, of_nat cl] @ take cl c)" and ?e = "[0, of_nat cl] @ take cl c @ take l msg"
  have st: "wp_static ?p1" "wp_static ?p2" "wp_static ?p3" "wp_static (wp_append p ?e)"
    using p(2,4) c m by (auto intro!: wp_append_static)
  have "(of_nat (cl mod 256) :: u64) = of_nat cl" "unat (of_nat cl :: u64) < 256" "(ucast (of_nat cl :: u64) :: byte) = of_nat cl"
    using c(2) by (simp_all add: unsigned_of_nat take_bit_nat_eq_self)
  then have 2: "WPACKET_put_bytes al ?p1 (of_nat (cl mod 256)) (Suc 0) = Some ?p2"
    using put_byte_static [OF st(1), of "of_nat cl" al] p(4) by simp
  have 1: "WPACKET_put_bytes al p 0 (Suc 0) = Some ?p1"
    using put_byte_static [OF p(2), of 0 al] p(4) by simp
  have 3: "WPACKET_memcpy al ?p2 c cl = Some ?p3"
    using memcpy_static [OF st(2) c(1), of al] p(4) by simp
  have 4: "WPACKET_memcpy al ?p3 msg l = Some (wp_append p ?e)"
    using memcpy_static [OF st(3) m, of al] p(4) c(1) by simp
  have 5: "WPACKET_finish al (wp_append p ?e) \<noteq> None"
    using finish_static [OF st(4), of new_sub] p(6) by (simp add: wp_append_def new_sub_def)
  have 6: "GETBUF (wp_append p ?e) = Some (store_at buf 0 ?e)"
    using p(3,5) by (simp add: GETBUF_def wp_append_def)
  have "msg_encode al msg l c cl True (replicate 1024 0) 1024 = Some (store_at buf 0 ?e, 2 + cl + l)"
    unfolding msg_encode_def len Let_def
    using c eb p(1) 1 2 3 4 5 6 by (simp add: SLH_DSA_MAX_CONTEXT_STRING_LEN_def)
  moreover have "take (2 + cl + l) (store_at buf 0 ?e) = ?e"
    using lb c(1) m by (simp add: take_store_at_end)
  ultimately show ?thesis
    by blast
qed

section \<open>Generated keys\<close>

lemma generate_seeds_length: "length (fst (generate_seeds out lib ent el)) = length (key_priv out)"
  by (auto simp: generate_seeds_def Let_def split: option.splits)

lemma generate_seeds_rest:
  assumes "generate_seeds out lib ent el = (priv, True)" and "length (key_priv out) = 4 * SLH_DSA_MAX_N"
    and "sp_n (key_params out) \<le> SLH_DSA_MAX_N"
    and "\<And>n b. lib_rand_priv lib n = Some b \<Longrightarrow> length b = n" and "\<And>n b. lib_rand lib n = Some b \<Longrightarrow> length b = n"
  shows "drop (3 * sp_n (key_params out)) priv = drop (3 * sp_n (key_params out)) (key_priv out)"
  using assms
  by (auto simp: generate_seeds_def Let_def buf_simps drop_store_at_after split: option.splits if_splits)

context slh_scheme
begin

text \<open>A generated key has the root that its seeds determine.\<close>

lemma generate_key_eq:
  assumes ctx: "ctx_ok ctx" and al: "al sizeof_wpacket_sub" and len: "length (key_priv (sc_key ctx)) = 4 * SLH_DSA_MAX_N"
    and seeds: "generate_seeds (sc_key ctx) lib ent el = (priv, True)"
  shows "\<exists>key. ossl_slh_dsa_generate_key al ctx lib ent el = (key, True) \<and>
    key = (sc_key ctx)\<lparr>key_priv := key_priv key, key_pub := True, key_has_priv := True\<rparr> \<and>
    length (key_priv key) = 4 * SLH_DSA_MAX_N \<and>
    take (3 * ctx_n ctx) (key_priv key) = take (3 * ctx_n ctx) priv \<and>
    drop (4 * ctx_n ctx) (key_priv key) = drop (4 * ctx_n ctx) priv \<and>
    take (ctx_n ctx) (SLH_DSA_PK_ROOT key) = ht_root ctx (SLH_DSA_SK_SEED key) (SLH_DSA_PK_SEED key) (ctx_d ctx - 1) 0"
proof -
  let ?n = "ctx_n ctx"
  define out1 where "out1 = (sc_key ctx)\<lparr>key_priv := priv\<rparr>"
  define ctx1 where "ctx1 = ctx\<lparr>sc_key := out1\<rparr>"
  have c1: "ctx_ok ctx1" and sim: "ctx_sim ctx ctx1"
    using ctx by (simp_all add: ctx_ok_def ctx_sim_def ctx1_def out1_def)
      (auto intro!: exI [of _ "he_hmac_md (sc_env ctx)"] exI [of _ "he_hmac_digest_used (sc_env ctx)"])
  define rt where "rt = ht_root ctx (SLH_DSA_SK_SEED out1) (SLH_DSA_PK_SEED out1) (ctx_d ctx - 1) 0"
  define key where "key = out1\<lparr>key_priv := store_at priv (3 * ?n) rt, key_pub := True, key_has_priv := True\<rparr>"
  have lp: "length priv = 4 * SLH_DSA_MAX_N"
    using generate_seeds_length [of "sc_key ctx" lib ent el] seeds len by simp
  have n: "?n \<le> SLH_DSA_MAX_N" "0 < ?n"
    using ctx_n_bounds [OF ctx] by (simp_all add: SLH_DSA_MAX_N_def)
  have lr: "length rt = ?n"
    using length_ht_root [OF ctx] by (simp add: rt_def)
  have pr: "key_params out1 = key_params (sc_key ctx)"
    by (simp add: out1_def)
  have "slh_dsa_compute_pk_root al ctx1 False = (out1\<lparr>key_priv := store_at priv (3 * ?n) rt\<rparr>, True)"
    using compute_pk_root_eq [of ctx1 al False, OF c1 al] sim_xmss(4) [OF sim]
    by (simp add: ctx1_def pr rt_def) (simp add: out1_def)
  then have "ossl_slh_dsa_generate_key al ctx lib ent el = (key, True)"
    by (simp add: ossl_slh_dsa_generate_key_def seeds Let_def key_def flip: out1_def ctx1_def)
  moreover have "take (3 * ?n) (key_priv key) = take (3 * ?n) priv" "drop (4 * ?n) (key_priv key) = drop (4 * ?n) priv"
    using lr by (simp_all add: key_def buf_simps)
  moreover have "take ?n (SLH_DSA_PK_ROOT key) = rt"
    using lr lp n by (simp add: SLH_DSA_PK_ROOT_def key_def pr buf_simps mult.commute)
  moreover have "ht_root ctx (SLH_DSA_SK_SEED key) (SLH_DSA_PK_SEED key) = ht_root ctx (SLH_DSA_SK_SEED out1) (SLH_DSA_PK_SEED out1)"
  proof (rule seed_ht_root [OF ctx])
    show "take ?n (SLH_DSA_PK_SEED key) = take ?n (SLH_DSA_PK_SEED out1)"
      by (simp add: SLH_DSA_PK_SEED_def key_def pr take_drop buf_simps) (simp add: out1_def)
    show "take ?n (SLH_DSA_SK_SEED key) = take ?n (SLH_DSA_SK_SEED out1)"
      by (simp add: SLH_DSA_SK_SEED_def key_def buf_simps) (simp add: out1_def)
  qed
  ultimately show ?thesis
    using lp by (intro exI [of _ key]) (simp add: rt_def key_def out1_def)
qed

end

section \<open>From key generation to verification\<close>

text \<open>The key that holds the public half of another one.\<close>

definition pub_copy :: "slh_dsa_key \<Rightarrow> slh_dsa_key \<Rightarrow> slh_dsa_key" where
  "pub_copy key0 key =
     key0\<lparr>key_pub := True,
          key_priv := store_at (key_priv key0) (2 * sp_n (key_params key0)) (take (2 * sp_n (key_params key0)) (SLH_DSA_PUB key)),
          key_has_priv := False\<rparr>"

lemma pub_copy_halves:
  assumes "length (key_priv key0) = 4 * SLH_DSA_MAX_N" and "length (key_priv key) = 4 * SLH_DSA_MAX_N"
    and "key_params key = key_params key0" and "sp_n (key_params key0) \<le> SLH_DSA_MAX_N"
    and "drop (4 * sp_n (key_params key0)) (key_priv key) = drop (4 * sp_n (key_params key0)) (key_priv key0)"
  shows "SLH_DSA_PK_SEED (pub_copy key0 key) = SLH_DSA_PK_SEED key"
    and "SLH_DSA_PK_ROOT (pub_copy key0 key) = SLH_DSA_PK_ROOT key"
proof -
  let ?n = "sp_n (key_params key0)"
  let ?s = "take (2 * ?n) (drop (2 * ?n) (key_priv key))"
  have "store_at (key_priv key0) (2 * ?n) ?s = take (2 * ?n) (key_priv key0) @ ?s @ drop (4 * ?n) (key_priv key0)"
    using assms(1,2,4) by (simp add: store_at_eq)
  moreover have "?s @ drop (4 * ?n) (key_priv key) = drop (2 * ?n) (key_priv key)"
    using append_take_drop_id [of "2 * ?n" "drop (2 * ?n) (key_priv key)"] by (simp add: add.commute)
  ultimately have e: "drop (2 * ?n) (key_priv (pub_copy key0 key)) = drop (2 * ?n) (key_priv key)"
    using assms by (simp add: pub_copy_def SLH_DSA_PUB_def SLH_DSA_PK_SEED_def mult.commute)
  have "drop (3 * ?n) (key_priv (pub_copy key0 key)) = drop (3 * ?n) (key_priv key)"
    using arg_cong [OF e, of "drop ?n"] by simp
  with e show "SLH_DSA_PK_SEED (pub_copy key0 key) = SLH_DSA_PK_SEED key"
    and "SLH_DSA_PK_ROOT (pub_copy key0 key) = SLH_DSA_PK_ROOT key"
    using assms(3) by (simp_all add: SLH_DSA_PK_SEED_def SLH_DSA_PK_ROOT_def pub_copy_def mult.commute)
qed

abbreviation key_ctx :: "slh_dsa_key \<Rightarrow> slh_dsa_hash_ctx" where
  "key_ctx key \<equiv> \<lparr>sc_key = key, sc_env = key_env key\<rparr>"

context slh_scheme
begin

lemma generated_verifies:
  assumes ctx: "ctx_ok (key_ctx key0)" and al: "al sizeof_wpacket_sub" and len: "length (key_priv key0) = 4 * SLH_DSA_MAX_N"
    and seeds: "generate_seeds key0 lib ent el = (priv, True)"
    and rest: "drop (3 * sp_n (key_params key0)) priv = drop (3 * sp_n (key_params key0)) (key_priv key0)"
    and buf: "sp_sig_len (key_params key0) \<le> length buf" and sz: "sp_sig_len (key_params key0) \<le> sz"
  shows "\<exists>key. ossl_slh_dsa_generate_key al (key_ctx key0) lib ent el = (key, True) \<and>
    key = key0\<lparr>key_priv := key_priv key, key_pub := True, key_has_priv := True\<rparr> \<and>
    length (key_priv key) = 4 * SLH_DSA_MAX_N \<and>
    (\<forall>msg l. \<exists>ctx' sig. slh_sign_internal al (key_ctx key) msg l (Some buf) sz rand =
         (ctx', Some (sp_sig_len (key_params key0), Some sig)) \<and>
       slh_verify_internal al (key_ctx (pub_copy key0 key)) msg l sig (sp_sig_len (key_params key0)))"
proof -
  let ?n = "sp_n (key_params key0)" and ?p = "key_params key0"
  have n: "?n \<le> SLH_DSA_MAX_N"
    using ctx_n_bounds [OF ctx] by (simp add: SLH_DSA_MAX_N_def)
  obtain key where g: "ossl_slh_dsa_generate_key al (key_ctx key0) lib ent el = (key, True)"
    and k: "key = key0\<lparr>key_priv := key_priv key, key_pub := True, key_has_priv := True\<rparr>"
    and l: "length (key_priv key) = 4 * SLH_DSA_MAX_N" and d: "drop (4 * ?n) (key_priv key) = drop (4 * ?n) priv"
    and rt: "take ?n (SLH_DSA_PK_ROOT key) =
      ht_root (key_ctx key0) (SLH_DSA_SK_SEED key) (SLH_DSA_PK_SEED key) (sp_d ?p - 1) 0"
    using generate_key_eq [of "key_ctx key0" al lib ent el priv, OF ctx al] len seeds by auto
  have k_eqs: "key_params key = ?p" "key_env key = key_env key0" "key_has_priv key" "key_adrs_func key = key_adrs_func key0"
    "key_hash_func key = key_hash_func key0"
    by (subst k, simp add: key_env_def)+
  have "drop ?n (drop (3 * ?n) priv) = drop ?n (drop (3 * ?n) (key_priv key0))"
    using rest by (rule arg_cong)
  then have "drop (4 * ?n) (key_priv key) = drop (4 * ?n) (key_priv key0)"
    using d by simp
  note h = pub_copy_halves [OF len l k_eqs(1) n this]
  let ?v = "pub_copy key0 key"
  have v: "key_params ?v = ?p" "key_env ?v = key_env key0" "key_pub ?v" "key_adrs_func ?v = key_adrs_func key0"
    "key_hash_func ?v = key_hash_func key0"
    by (simp_all add: pub_copy_def key_env_def)
  have c: "ctx_ok (key_ctx key)" "ctx_ok (key_ctx ?v)"
    using ctx by (simp_all add: ctx_ok_def k_eqs v)
  have idm: "\<exists>md used. env = env_mac env md used" for env
    by (rule exI [of _ "he_hmac_md env"], rule exI [of _ "he_hmac_digest_used env"]) simp
  have sim: "ctx_sim (key_ctx key0) (key_ctx key)" "ctx_sim (key_ctx key) (key_ctx ?v)"
    using idm [of "key_env key0"] by (simp_all add: ctx_sim_def k_eqs v)
  have "\<exists>ctx' sig. slh_sign_internal al (key_ctx key) msg l (Some buf) sz rand =
         (ctx', Some (sp_sig_len ?p, Some sig)) \<and> slh_verify_internal al (key_ctx ?v) msg l sig (sp_sig_len ?p)" for msg l
    using sign_verify_internal [of "key_ctx key" al buf sz "key_ctx ?v" msg l rand, OF c(1) al]
      buf sz c(2) sim(2) v(3) h k_eqs(1,3) rt sim_xmss(4) [OF sim(1)]
    by (simp add: k_eqs(1)) blast
  with g k l show ?thesis
    by blast
qed

end

lemma key_ok_cong:
  assumes "slh_key_ok key" and "key' = key\<lparr>key_priv := key_priv key', key_pub := key_pub key', key_has_priv := key_has_priv key'\<rparr>"
    and "length (key_priv key') = 4 * SLH_DSA_MAX_N" and "key_has_priv key' \<longrightarrow> key_pub key'"
  shows "slh_key_ok key'"
proof -
  have "key_params key' = key_params key" "key_libctx key' = key_libctx key" "key_propq key' = key_propq key"
    "key_adrs_func key' = key_adrs_func key" "key_hash_func key' = key_hash_func key" "key_md key' = key_md key"
    "key_md_big key' = key_md_big key" "key_hmac key' = key_hmac key" "key_md_shared key' = key_md_shared key"
    by (subst assms(2), simp)+
  with assms(1,3,4) show ?thesis
    unfolding slh_key_ok_def Let_def by metis
qed

lemma key_n_bound: "slh_key_ok key \<Longrightarrow> 0 < sp_n (key_params key) \<and> sp_n (key_params key) \<le> SLH_DSA_MAX_N"
  using slh_params_n [OF slh_params_table_ok, of "key_params key"] by (simp add: slh_key_ok_def Let_def SLH_DSA_MAX_N_def)

lemma generate_seeds_ok:
  assumes "slh_lib_ok lib propq" and "ent = None \<or> el = 0 \<or> el = 3 * sp_n (key_params key)"
  shows "\<exists>priv. generate_seeds key lib ent el = (priv, True)"
proof -
  obtain b1 b2 where "lib_rand_priv lib (2 * sp_n (key_params key)) = Some b1" "lib_rand lib (sp_n (key_params key)) = Some b2"
    using assms(1) unfolding slh_lib_ok_def by blast
  with assms(2) show ?thesis
    by (auto simp: generate_seeds_def Let_def split: option.splits)
qed

lemma lib_rand_length:
  assumes "slh_lib_ok lib propq"
  shows "lib_rand_priv lib n = Some b \<Longrightarrow> length b = n" and "lib_rand lib n = Some b \<Longrightarrow> length b = n"
  using assms unfolding slh_lib_ok_def by (metis option.inject)+

lemma msg_encode_Some:
  assumes "al sizeof_wpacket_sub" and "1024 < 2 + cl + l \<longrightarrow> al (2 + cl + l)"
    and "cl \<le> length c" "cl \<le> 255" and "l \<le> length msg" and "2 + cl + l \<le> SIZE_MAX"
  obtains m ml where "msg_encode al msg l c cl enc (replicate 1024 0) 1024 = Some (m, ml)"
  using msg_encode_eq [of al cl l c msg, OF assms]
  by (cases enc) (auto simp: msg_encode_def [of _ _ _ _ _ False])

lemma generated_verifies_all:
  assumes ok: "slh_key_ok key0" and lib: "slh_lib_ok (key_libctx key0) (key_propq key0)" and al: "al sizeof_wpacket_sub"
    and ent: "ent = None \<or> el = 0 \<or> el = 3 * sp_n (key_params key0)"
    and buf: "sp_sig_len (key_params key0) \<le> length buf" "sp_sig_len (key_params key0) \<le> sz"
  shows "\<exists>key. ossl_slh_dsa_generate_key al (key_ctx key0) (key_libctx key0) ent el = (key, True) \<and>
    key = key0\<lparr>key_priv := key_priv key, key_pub := True, key_has_priv := True\<rparr> \<and>
    length (key_priv key) = 4 * SLH_DSA_MAX_N \<and>
    (\<forall>msg l. \<exists>ctx' sig. slh_sign_internal al (key_ctx key) msg l (Some buf) sz rand =
         (ctx', Some (sp_sig_len (key_params key0), Some sig)) \<and>
       slh_verify_internal al (key_ctx (pub_copy key0 key)) msg l sig (sp_sig_len (key_params key0)))"
proof -
  have len: "length (key_priv key0) = 4 * SLH_DSA_MAX_N"
    using ok by (simp add: slh_key_ok_def Let_def)
  obtain priv where s: "generate_seeds key0 (key_libctx key0) ent el = (priv, True)"
    using generate_seeds_ok [OF lib ent] by blast
  note rest = generate_seeds_rest [OF s len _ lib_rand_length [OF lib]] and n = key_n_bound [OF ok]
  from key_ctx_ok [OF ok lib] show ?thesis
  proof (cases rule: slh_ctx_cases)
    case shake
    from slh_shake.generated_verifies [of key0 al, OF shake al len s rest buf] n show ?thesis
      by blast
  next
    case sha2
    from slh_sha2.generated_verifies [of key0 al, OF sha2 al len s rest buf] n show ?thesis
      by blast
  qed
qed

section \<open>Properties\<close>

text \<open>A library with toy digests, on which the properties are exercised.\<close>

definition md_ex :: "int \<Rightarrow> evp_md" where
  "md_ex n = \<lparr>md_size = n, md_digest = (\<lambda>x. Some (\<lambda>i. foldr (+) x (of_nat i)))\<rparr>"

definition lib_ex :: evp_lib where
  "lib_ex =
     \<lparr>lib_md_fetch = (\<lambda>name q. Some (if name = ''SHA2-512'' then md_ex 64 else md_ex 32)),
      lib_mac_fetch = (\<lambda>name q. Some (\<lambda>md k x. md_digest md (k @ x))),
      lib_md_ctx_new = True, lib_digest_init = (\<lambda>_. True), lib_md_ctx_dup = True,
      lib_mac_ctx_new = True, lib_mac_ctx_dup = True,
      lib_rand_priv = (\<lambda>n. Some (replicate n 7)), lib_rand = (\<lambda>n. Some (replicate n 9))\<rparr>"

lemma lib_ex_ok: "slh_lib_ok lib_ex propq"
  by (auto simp: slh_lib_ok_def lib_ex_def md_ex_def md_total_def mac_total_def)

text \<open>
  C1: For each of the twelve parameter sets, a signature made with a freshly generated key (from random
  bytes or from given entropy), over any message and context string, in either encoding and with or
  without additional randomness, is accepted under the exported public key.
\<close>

theorem slh_dsa_generate_sign_verify:
  assumes lib: "slh_lib_ok lib propq" and alg: "ossl_slh_dsa_params_get alg = Some p"
    and al: "al sizeof_slh_dsa_key" "strdup_ok al propq" "al sizeof_slh_dsa_hash_ctx" "al sizeof_wpacket_sub"
      "1024 < 2 + cl + l \<longrightarrow> al (2 + cl + l)"
    and ent: "ent = None \<or> el = 0 \<or> el = 3 * sp_n p"
    and c: "cl \<le> length c" "cl \<le> 255" and m: "l \<le> length msg" and len: "2 + cl + l \<le> SIZE_MAX"
    and buf: "sp_sig_len p \<le> length buf" "sp_sig_len p \<le> sz"
  shows "\<exists>key0 ctx0 key ctx ctx' sig pub vkey vctx.
    ossl_slh_dsa_key_new al lib propq alg = Some key0 \<and>
    ossl_slh_dsa_hash_ctx_new al key0 = Some ctx0 \<and>
    ossl_slh_dsa_generate_key al ctx0 lib ent el = (key, True) \<and>
    ossl_slh_dsa_hash_ctx_new al key = Some ctx \<and>
    ossl_slh_dsa_sign al ctx msg l c cl rand enc (Some buf) sz = (ctx', Some (sp_sig_len p, Some sig)) \<and>
    ossl_slh_dsa_key_get_pub key = Some pub \<and>
    ossl_slh_dsa_set_pub key0 pub (ossl_slh_dsa_key_get_pub_len key) = Some vkey \<and>
    ossl_slh_dsa_hash_ctx_new al vkey = Some vctx \<and>
    ossl_slh_dsa_verify al vctx msg l c cl enc sig (sp_sig_len p)"
proof -
  obtain key0 where k0: "ossl_slh_dsa_key_new al lib propq alg = Some key0"
    using key_new_Some [of lib propq alg p al, OF lib alg al(1,2)] by blast
  note k = key_new_ok [OF k0]
  have p: "key_params key0 = p" and lib0: "slh_lib_ok (key_libctx key0) (key_propq key0)"
    using k alg lib by simp_all
  obtain key where g: "ossl_slh_dsa_generate_key al (key_ctx key0) lib ent el = (key, True)"
    and e: "key = key0\<lparr>key_priv := key_priv key, key_pub := True, key_has_priv := True\<rparr>"
    and kl: "length (key_priv key) = 4 * SLH_DSA_MAX_N"
    and v: "\<forall>msg l. \<exists>ctx' sig. slh_sign_internal al (key_ctx key) msg l (Some buf) sz rand =
         (ctx', Some (sp_sig_len p, Some sig)) \<and>
       slh_verify_internal al (key_ctx (pub_copy key0 key)) msg l sig (sp_sig_len p)"
    using generated_verifies_all [of key0 al, OF k(1) lib0 al(4), unfolded p k(3), OF ent buf, of rand] by blast
  have f: "key_libctx key = lib" "key_propq key = propq" "key_pub key" "key_has_priv key" "key_params key = p"
    by (subst e, simp add: k p)+
  have ok: "slh_key_ok key" "slh_key_ok (pub_copy key0 key)"
    using key_ok_cong [OF k(1) _ kl] e f key_ok_cong [OF k(1), of "pub_copy key0 key"] k(5)
    by (simp_all add: pub_copy_def)
  obtain mm ml where enc: "msg_encode al msg l c cl enc (replicate 1024 0) 1024 = Some (mm, ml)"
    by (rule msg_encode_Some [of al cl l c msg enc, OF al(4,5) c m len])
  obtain ctx' sig where s: "slh_sign_internal al (key_ctx key) mm ml (Some buf) sz rand = (ctx', Some (sp_sig_len p, Some sig))"
    "slh_verify_internal al (key_ctx (pub_copy key0 key)) mm ml sig (sp_sig_len p)"
    using v by blast
  have "ossl_slh_dsa_set_pub key0 (SLH_DSA_PUB key) (ossl_slh_dsa_key_get_pub_len key) = Some (pub_copy key0 key)"
    by (simp add: ossl_slh_dsa_set_pub_def ossl_slh_dsa_key_get_pub_len_def pub_copy_def f p)
  moreover have "ossl_slh_dsa_hash_ctx_new al key0 = Some (key_ctx key0)" "ossl_slh_dsa_hash_ctx_new al key = Some (key_ctx key)"
    "ossl_slh_dsa_hash_ctx_new al (pub_copy key0 key) = Some (key_ctx (pub_copy key0 key))"
    using hash_ctx_new_eq [of key0 al] hash_ctx_new_eq [of key al] hash_ctx_new_eq [of "pub_copy key0 key" al]
      k(1) ok lib lib0 f al(3) by (simp_all add: pub_copy_def)
  moreover have "ossl_slh_dsa_sign al (key_ctx key) msg l c cl rand enc (Some buf) sz = (ctx', Some (sp_sig_len p, Some sig))"
    "ossl_slh_dsa_verify al (key_ctx (pub_copy key0 key)) msg l c cl enc sig (sp_sig_len p)"
    using enc s by (simp_all add: ossl_slh_dsa_sign_def ossl_slh_dsa_verify_def)
  moreover have "ossl_slh_dsa_key_get_pub key = Some (SLH_DSA_PUB key)"
    by (simp add: ossl_slh_dsa_key_get_pub_def f)
  ultimately show ?thesis
    using k0 g by blast
qed

theorem slh_dsa_generate_sign_verify_witness:
  "\<exists>key0 ctx0 key ctx ctx' sig pub vkey vctx.
    ossl_slh_dsa_key_new (\<lambda>_. True) lib_ex None (Some ''SLH-DSA-SHA2-128f'') = Some key0 \<and>
    ossl_slh_dsa_hash_ctx_new (\<lambda>_. True) key0 = Some ctx0 \<and>
    ossl_slh_dsa_generate_key (\<lambda>_. True) ctx0 lib_ex None 0 = (key, True) \<and>
    ossl_slh_dsa_hash_ctx_new (\<lambda>_. True) key = Some ctx \<and>
    ossl_slh_dsa_sign (\<lambda>_. True) ctx [1, 2, 3] 3 [5] 1 None True (Some (replicate 17088 0)) 17088 =
      (ctx', Some (17088, Some sig)) \<and>
    ossl_slh_dsa_key_get_pub key = Some pub \<and>
    ossl_slh_dsa_set_pub key0 pub (ossl_slh_dsa_key_get_pub_len key) = Some vkey \<and>
    ossl_slh_dsa_hash_ctx_new (\<lambda>_. True) vkey = Some vctx \<and>
    ossl_slh_dsa_verify (\<lambda>_. True) vctx [1, 2, 3] 3 [5] 1 True sig 17088"
  using slh_dsa_generate_sign_verify [OF lib_ex_ok, where alg = "Some ''SLH-DSA-SHA2-128f''" and propq = None
      and p = "OSSL_SLH_PARAMS_128F ''SLH-DSA-SHA2-128f'' 1461 False OSSL_SLH_DSA_SHA2_NUM_ZEROS_H_AND_T_BOUND1"
      and al = "\<lambda>_. True" and ent = None and el = 0 and cl = 1 and l = 3 and c = "[5]" and msg = "[1, 2, 3]"
      and buf = "replicate 17088 0" and sz = 17088 and rand = None and enc = True]
  by (simp add: ossl_slh_dsa_params_get_def slh_dsa_params_table_def slh_params_defs strdup_ok_def SIZE_MAX_def)

section \<open>The life of a key\<close>

text \<open>Every key that the interface can produce, whatever succeeds and fails on the way.\<close>

inductive slh_key_reach :: "slh_dsa_key \<Rightarrow> bool" where
  new: "ossl_slh_dsa_key_new al lib propq alg = Some key \<Longrightarrow> slh_key_reach key"
| dup: "slh_key_reach src \<Longrightarrow> ossl_slh_dsa_key_dup al (Some src) selection = Some key \<Longrightarrow> slh_key_reach key"
| set_priv: "slh_key_reach key \<Longrightarrow> ossl_slh_dsa_set_priv key priv l = Some key' \<Longrightarrow> slh_key_reach key'"
| set_pub: "slh_key_reach key \<Longrightarrow> ossl_slh_dsa_set_pub key pub l = Some key' \<Longrightarrow> slh_key_reach key'"
| fromdata: "slh_key_reach key \<Longrightarrow> ossl_slh_dsa_key_fromdata al (Some key) params incl = (Some key', ok) \<Longrightarrow>
     slh_key_reach key'"
| reset: "slh_key_reach key \<Longrightarrow> slh_key_reach (ossl_slh_dsa_key_reset key)"
| generate: "slh_key_reach key \<Longrightarrow> ossl_slh_dsa_hash_ctx_new al key = Some ctx \<Longrightarrow>
     ossl_slh_dsa_generate_key al' ctx lib ent el = (key', ok) \<Longrightarrow> slh_key_reach key'"

text \<open>What an operation may change of a key, and the invariant it needs to keep.\<close>

definition key_step :: "slh_dsa_key \<Rightarrow> slh_dsa_key \<Rightarrow> bool" where
  "key_step key key' \<longleftrightarrow>
     key' = key\<lparr>key_priv := key_priv key', key_pub := key_pub key', key_has_priv := key_has_priv key'\<rparr> \<and>
     length (key_priv key') = length (key_priv key) \<and> (key_has_priv key' \<longrightarrow> key_pub key')"

lemma key_okD:
  assumes "slh_key_ok key"
  shows "length (key_priv key) = 4 * SLH_DSA_MAX_N" and "key_has_priv key \<longrightarrow> key_pub key"
    and "key_params key \<in> set slh_dsa_params_table"
  using assms unfolding slh_key_ok_def Let_def by blast+

lemma key_step_ok: "key_step key key' \<Longrightarrow> slh_key_ok key \<Longrightarrow> slh_key_ok key'"
  by (rule key_ok_cong [of key]) (auto simp: key_step_def key_okD)

lemma get_octet_into:
  assumes "OSSL_PARAM_get_octet_string al (Some p) (Some (Some buf)) n u = (out, r)"
  shows "length (out_buf out) = length buf"
  using assms
  by (auto simp: OSSL_PARAM_get_octet_string_def get_string_internal_def out_buf_def Let_def split: option.splits if_splits)

lemma reset_step: "length (key_priv key) = 4 * SLH_DSA_MAX_N \<Longrightarrow> key_step key (ossl_slh_dsa_key_reset key)"
  by (simp add: key_step_def ossl_slh_dsa_key_reset_def)

lemma key_step_via:
  "key_step (key\<lparr>key_priv := ds, key_has_priv := hp\<rparr>) k \<Longrightarrow> length ds = length (key_priv key) \<Longrightarrow> key_step key k"
  by (cases key, cases k) (auto simp: key_step_def)

lemma key_n2_bound: "slh_key_ok key \<Longrightarrow> 2 * sp_n (key_params key) \<le> length (key_priv key)"
  using key_n_bound [of key] key_okD(1) [of key] by simp

lemma fromdata_pub_step:
  assumes "length (key_priv key) = 4 * SLH_DSA_MAX_N" and "2 * sp_n (key_params key) \<le> length (key_priv key)"
    and "fromdata_pub al key params = (key', ok)"
  shows "key_step key key'"
proof (cases "OSSL_PARAM_locate_const params OSSL_PKEY_PARAM_PUB_KEY")
  case None
  then show ?thesis
    using assms(3) reset_step [OF assms(1)] by (auto simp: fromdata_pub_def)
next
  case (Some pr)
  obtain p rest out r where p: "pr = (p, rest)" and g: "OSSL_PARAM_get_octet_string al (Some p) (Some (Some (SLH_DSA_PUB key)))
      (ossl_slh_dsa_key_get_priv_len key div 2) (Some 0) = (out, r)"
    by (metis surj_pair)
  have l: "length (out_buf out) = length (key_priv key) - 2 * sp_n (key_params key)"
    using get_octet_into [OF g] by (simp add: SLH_DSA_PUB_def SLH_DSA_PK_SEED_def mult.commute)
  then show ?thesis
    using assms p g Some
    by (auto simp: fromdata_pub_def Let_def key_step_def ossl_slh_dsa_key_reset_def split: if_splits)
qed

lemma fromdata_step:
  assumes "slh_key_ok key" and "ossl_slh_dsa_key_fromdata al (Some key) params incl = (Some key', ok)"
  shows "slh_key_ok key'"
proof -
  have len: "length (key_priv key) = 4 * SLH_DSA_MAX_N" and id: "key_step key key"
    using key_okD [OF assms(1)] by (simp_all add: key_step_def)
  note n2 = key_n2_bound [OF assms(1)]
  let ?pl = "ossl_slh_dsa_key_get_priv_len key"
  show ?thesis
  proof (cases "if incl then OSSL_PARAM_locate_const params OSSL_PKEY_PARAM_PRIV_KEY else None")
    case None
    then show ?thesis
      using assms(2) fromdata_pub_step [OF len n2, of al params] key_step_ok [OF _ assms(1)]
      by (cases "fromdata_pub al key params") (auto simp: ossl_slh_dsa_key_fromdata_def)
  next
    case (Some pr)
    obtain p rest out r where p: "pr = (p, rest)"
      and g: "OSSL_PARAM_get_octet_string al (Some p) (Some (Some (key_priv key))) ?pl (Some 0) = (out, r)"
      by (metis surj_pair)
    define key1 where "key1 = key\<lparr>key_priv := out_buf out\<rparr>"
    have l: "length (key_priv key1) = 4 * SLH_DSA_MAX_N" "key_params key1 = key_params key"
      using get_octet_into [OF g] len by (simp_all add: key1_def)
    have r: "key_step key (key1\<lparr>key_has_priv := True, key_pub := True\<rparr>)" "key_step key (ossl_slh_dsa_key_reset key1)"
      using l len by (auto simp: key_step_def key1_def ossl_slh_dsa_key_reset_def)
    have f: "key_step key k" if "fromdata_pub al (key1\<lparr>key_has_priv := True\<rparr>) params = (k, ok)" for k ok
      using fromdata_pub_step [OF _ _ that] l n2 len by (intro key_step_via [where key = key and ds = "out_buf out" and hp = True]) (simp_all add: key1_def)
    have "key' \<in> {key, key1\<lparr>key_has_priv := True, key_pub := True\<rparr>, ossl_slh_dsa_key_reset key1} \<or>
        fromdata_pub al (key1\<lparr>key_has_priv := True\<rparr>) params = (key', ok)"
      using assms(2) Some p g
      by (cases "fromdata_pub al (key1\<lparr>key_has_priv := True\<rparr>) params")
        (auto simp: ossl_slh_dsa_key_fromdata_def Let_def key1_def split: if_splits)
    then have "key_step key key'"
      using r id f by blast
    then show ?thesis
      using key_step_ok assms(1) by blast
  qed
qed

lemma generate_step:
  assumes "slh_key_ok key" and "ossl_slh_dsa_hash_ctx_new al key = Some ctx"
    and "ossl_slh_dsa_generate_key al' ctx lib ent el = (key', ok)"
  shows "key_step key key'"
proof -
  have k: "sc_key ctx = key"
    using assms(2) by (auto simp: ossl_slh_dsa_hash_ctx_new_def Let_def split: option.splits if_splits)
  obtain priv ok1 where s: "generate_seeds key lib ent el = (priv, ok1)"
    by (metis surj_pair)
  have l: "length priv = length (key_priv key)"
    using generate_seeds_length [of key lib ent el] s by simp
  define out1 where "out1 = key\<lparr>key_priv := priv\<rparr>"
  obtain out2 ok2 where c: "slh_dsa_compute_pk_root al' (ctx\<lparr>sc_key := out1\<rparr>) False = (out2, ok2)"
    by (metis surj_pair)
  then have "out2 = out1\<lparr>key_priv := key_priv out2\<rparr> \<and> length (key_priv out2) = length priv"
    by (auto simp: slh_dsa_compute_pk_root_def Let_def out1_def split: option.splits)
  then have o: "out2 = key\<lparr>key_priv := key_priv out2\<rparr>" "length (key_priv out2) = length (key_priv key)"
    by (cases out2, simp_all add: out1_def l)
  from assms(3) s c k have "key' = out1\<lparr>key_pub := False, key_has_priv := False, key_priv := key_priv key'\<rparr> \<and> length (key_priv key') = length priv
      \<or> key' = out2\<lparr>key_pub := False, key_has_priv := False, key_priv := key_priv key'\<rparr> \<and> length (key_priv key') = length (key_priv out2)
      \<or> key' = out2\<lparr>key_pub := True, key_has_priv := True\<rparr>"
    by (auto simp: ossl_slh_dsa_generate_key_def Let_def out1_def split: if_splits)
  then show ?thesis
    using o l by (cases key, cases key', cases out2) (auto simp: key_step_def out1_def)
qed

lemma slh_key_reach_key_ok: "slh_key_reach key \<Longrightarrow> slh_key_ok key"
proof (induction rule: slh_key_reach.induct)
  case (dup src al selection key)
  then have "key_step src key"
    using key_okD(2) [of src] 
    by (auto simp: ossl_slh_dsa_key_dup_def key_step_def Let_def split: if_splits)
  then show ?case
    using dup key_step_ok by blast
next
  case (set_priv key priv l key')
  then have "key_step key key'"
    by (auto simp: ossl_slh_dsa_set_priv_def key_step_def split: if_splits)
  then show ?case
    using set_priv key_step_ok by blast
next
  case (set_pub key pub l key')
  then have "key_step key key'"
    by (auto simp: ossl_slh_dsa_set_pub_def key_step_def split: if_splits)
  then show ?case
    using set_pub key_step_ok by blast
qed (blast intro: key_new_ok fromdata_step key_step_ok reset_step key_okD generate_step)+

lemma generate_own_seeds:
  assumes "sp_n (key_params key) \<le> SLH_DSA_MAX_N" "length (key_priv key) = 4 * SLH_DSA_MAX_N" and "0 < sp_n (key_params key)"
  shows "generate_seeds key lib (Some (key_priv key)) (3 * sp_n (key_params key)) = (key_priv key, True)"
  using assms by (simp add: generate_seeds_def Let_def store_at_eq)

context slh_scheme
begin

lemma pairwise_eq:
  assumes ctx: "ctx_ok (key_ctx key)" and al: "al sizeof_wpacket_sub" and len: "length (key_priv key) = 4 * SLH_DSA_MAX_N"
  shows "\<exists>key'. ossl_slh_dsa_generate_key al (key_ctx key) lib (Some (key_priv key)) (3 * sp_n (key_params key)) = (key', True) \<and>
    snd (slh_dsa_compute_pk_root al (key_ctx key) True) =
      (take (sp_n (key_params key)) (SLH_DSA_PK_ROOT key') = take (sp_n (key_params key)) (SLH_DSA_PK_ROOT key))"
proof -
  let ?n = "sp_n (key_params key)"
  have n: "?n \<le> SLH_DSA_MAX_N" "0 < ?n"
    using ctx_n_bounds [OF ctx] by (simp_all add: SLH_DSA_MAX_N_def)
  obtain key' where g: "ossl_slh_dsa_generate_key al (key_ctx key) lib (Some (key_priv key)) (3 * ?n) = (key', True)"
    and k: "key' = key\<lparr>key_priv := key_priv key', key_pub := True, key_has_priv := True\<rparr>"
    and t: "take (3 * ?n) (key_priv key') = take (3 * ?n) (key_priv key)"
    and rt: "take ?n (SLH_DSA_PK_ROOT key') =
      ht_root (key_ctx key) (SLH_DSA_SK_SEED key') (SLH_DSA_PK_SEED key') (sp_d (key_params key) - 1) 0"
    using generate_key_eq [of "key_ctx key" al lib "Some (key_priv key)" "3 * ?n" "key_priv key", OF ctx al]
      generate_own_seeds [OF n(1) len n(2), of lib] len by auto
  have kp: "key_params key' = key_params key"
    by (subst k) simp
  have "take ?n (take (3 * ?n) (key_priv key')) = take ?n (take (3 * ?n) (key_priv key))"
    "take ?n (drop (2 * ?n) (take (3 * ?n) (key_priv key'))) = take ?n (drop (2 * ?n) (take (3 * ?n) (key_priv key)))"
    by (simp_all only: t)
  then have "take ?n (SLH_DSA_PK_SEED key') = take ?n (SLH_DSA_PK_SEED key)" "take ?n (SLH_DSA_SK_SEED key') = take ?n (SLH_DSA_SK_SEED key)"
    by (simp_all add: SLH_DSA_PK_SEED_def SLH_DSA_SK_SEED_def kp drop_take mult.commute)
  then have "ht_root (key_ctx key) (SLH_DSA_SK_SEED key') (SLH_DSA_PK_SEED key') =
      ht_root (key_ctx key) (SLH_DSA_SK_SEED key) (SLH_DSA_PK_SEED key)"
    by (intro seed_ht_root [OF ctx]) simp_all
  with g rt show ?thesis
    using compute_pk_root_eq [of "key_ctx key" al True, OF ctx al] by simp
qed

end

lemma pairwise_all:
  assumes "slh_key_ok key" and "slh_lib_ok (key_libctx key) (key_propq key)" and al: "al sizeof_wpacket_sub"
  shows "\<exists>key'. ossl_slh_dsa_generate_key al (key_ctx key) lib (Some (key_priv key)) (3 * sp_n (key_params key)) = (key', True) \<and>
    snd (slh_dsa_compute_pk_root al (key_ctx key) True) =
      (take (sp_n (key_params key)) (SLH_DSA_PK_ROOT key') = take (sp_n (key_params key)) (SLH_DSA_PK_ROOT key))"
  using key_ctx_ok [OF assms(1,2)]
proof (cases rule: slh_ctx_cases)
  case shake
  then show ?thesis
    using slh_shake.pairwise_eq [of key al lib, OF _ al key_okD(1) [OF assms(1)]] by blast
next
  case sha2
  then show ?thesis
    using slh_sha2.pairwise_eq [of key al lib, OF _ al key_okD(1) [OF assms(1)]] by blast
qed

lemma generate_failed:
  assumes "ossl_slh_dsa_generate_key al ctx lib ent el = (key', False)"
    and "2 * sp_n (key_params (sc_key ctx)) \<le> length (key_priv (sc_key ctx))"
  shows "take (2 * sp_n (key_params (sc_key ctx))) (key_priv key') = replicate (2 * sp_n (key_params (sc_key ctx))) 0
    \<and> \<not> key_pub key' \<and> \<not> key_has_priv key'"
proof -
  obtain priv ok1 where s: "generate_seeds (sc_key ctx) lib ent el = (priv, ok1)"
    by (metis surj_pair)
  have l: "length priv = length (key_priv (sc_key ctx))"
    using generate_seeds_length [of "sc_key ctx" lib ent el] s by simp
  define c1 where "c1 = ctx\<lparr>sc_key := (sc_key ctx)\<lparr>key_priv := priv\<rparr>\<rparr>"
  obtain out2 ok2 where c: "slh_dsa_compute_pk_root al c1 False = (out2, ok2)"
    by (metis surj_pair)
  then have "length (key_priv out2) = length priv"
    by (auto simp: slh_dsa_compute_pk_root_def Let_def c1_def split: option.splits)
  with assms l s c show ?thesis
    by (auto simp: ossl_slh_dsa_generate_key_def Let_def buf_simps c1_def split: if_splits)
qed

text \<open>Letters are folded to lower case; only the terminator folds to 0.\<close>

lemma tolower_zero: "ossl_tolower c = 0 \<longleftrightarrow> c = 0"
proof -
  have "c XOR 0x20 = 0 \<longleftrightarrow> c = 0x20"
    by (metis xor_self_eq xor.assoc xor.right_neutral xor.left_neutral)
  then show ?thesis
    by (auto simp: ossl_tolower_def)
qed

lemma char_int_zero: "char_int c = 0 \<longleftrightarrow> c = CHR 0x00"
proof -
  have "(of_char c :: int) < 256"
    by (cases c) (simp add: of_char_def)
  then show ?thesis
    using of_char_eq_iff [of c "CHR 0x00"] by (auto simp: char_int_def Let_def)
qed

abbreviation fold_case :: "string \<Rightarrow> int list" where
  "fold_case s \<equiv> map (\<lambda>c. ossl_tolower (char_int c)) s"

lemma strcasecmp_eq:
  "CHR 0x00 \<notin> set s \<Longrightarrow> CHR 0x00 \<notin> set t \<Longrightarrow> OPENSSL_strcasecmp s t = 0 \<longleftrightarrow> fold_case s = fold_case t"
proof (induction s t rule: OPENSSL_strcasecmp.induct)
  case (4 c cs d ds)
  then show ?case
    by (cases "ossl_tolower (char_int c) = ossl_tolower (char_int d)") (auto simp: Let_def)
qed (auto simp: tolower_zero char_int_zero)

lemma msg_encode_SomeD:
  assumes "msg_encode al msg l c cl True (replicate 1024 0) 1024 = Some (buf, n)" and "l \<le> SIZE_MAX"
  shows "al sizeof_wpacket_sub" and "1024 < 2 + cl + l \<longrightarrow> al (2 + cl + l)" and "cl \<le> 255" and "2 + cl + l \<le> SIZE_MAX"
proof -
  have cl: "cl \<le> 255"
    using assms(1) by (auto simp: msg_encode_def SLH_DSA_MAX_CONTEXT_STRING_LEN_def split: if_splits)
  have e: "size_add (size_add (1 + 1) cl) l = size_add (2 + cl) l" "\<not> size_add (2 + cl) l < l"
    using assms(1) cl by (auto simp: msg_encode_def size_add_le SIZE_MAX_def Let_def split: if_splits)
  show sz: "2 + cl + l \<le> SIZE_MAX"
  proof (rule ccontr)
    assume big: "\<not> 2 + cl + l \<le> SIZE_MAX"
    then have "size_add (2 + cl) l = 2 + cl + l - 2 ^ 64"
      using cl assms(2) by (simp add: size_add_def SIZE_MAX_def mod_if)
    with e(2) cl big show False
      by (auto simp: SIZE_MAX_def)
  qed
  then have e': "size_add (size_add (1 + 1) cl) l = 2 + cl + l"
    using e(1) by (simp add: size_add_le)
  show "al sizeof_wpacket_sub" "1024 < 2 + cl + l \<longrightarrow> al (2 + cl + l)" "cl \<le> 255"
    using assms(1) cl unfolding msg_encode_def e' Let_def
    by (auto simp: WPACKET_init_static_len_def wpacket_intern_init_len_def Let_def split: option.splits if_splits)
qed

section \<open>Further properties\<close>

text \<open>
  C17: The message that is signed is a zero byte, the length of the context string, the context string
  and the message (FIPS 205, Algorithm 22), in the caller's buffer or in an allocated one.
\<close>

theorem msg_encode_bytes:
  assumes "al sizeof_wpacket_sub" and "1024 < 2 + cl + l \<longrightarrow> al (2 + cl + l)"
    and "cl \<le> length c" and "cl \<le> 255" and "l \<le> length msg" and "2 + cl + l \<le> SIZE_MAX"
  shows "\<exists>buf. msg_encode al msg l c cl True (replicate 1024 0) 1024 = Some (buf, 2 + cl + l) \<and>
    take (2 + cl + l) buf = [0, of_nat cl] @ take cl c @ take l msg"
  by (rule msg_encode_eq [of al cl l c msg, OF assms])

theorem msg_encode_bytes_witness:
  "\<exists>buf. msg_encode (\<lambda>_. True) [1, 2] 2 [7] 1 True (replicate 1024 0) 1024 = Some (buf, 5) \<and>
    take 5 buf = [0, 1, 7, 1, 2]"
  using msg_encode_bytes [of "\<lambda>_. True" 1 2 "[7]" "[1, 2]"] by (simp add: SIZE_MAX_def)

text \<open>
  C9: Two pairs of a context string and a message that are signed as the same bytes are the same pair: no
  signature on one pair is a signature on another by the encoding alone.
\<close>

theorem msg_encode_injective:
  assumes 1: "msg_encode al msg l c cl True (replicate 1024 0) 1024 = Some (buf, n)"
    and 2: "msg_encode al' msg' l' c' cl' True (replicate 1024 0) 1024 = Some (buf', n')"
    and len: "cl \<le> length c" "l \<le> length msg" "l \<le> SIZE_MAX" "cl' \<le> length c'" "l' \<le> length msg'" "l' \<le> SIZE_MAX"
    and eq: "take n buf = take n' buf'"
  shows "take cl c = take cl' c' \<and> take l msg = take l' msg'"
proof -
  note d = msg_encode_SomeD [OF 1 len(3)] and d' = msg_encode_SomeD [OF 2 len(6)]
  have "take n buf = [0, of_nat cl] @ take cl c @ take l msg"
    using msg_encode_eq [of al cl l c msg, OF d(1,2) len(1) d(3) len(2) d(4)] 1 by auto
  moreover have "take n' buf' = [0, of_nat cl'] @ take cl' c' @ take l' msg'"
    using msg_encode_eq [of al' cl' l' c' msg', OF d'(1,2) len(4) d'(3) len(5) d'(4)] 2 by auto
  ultimately have e: "(of_nat cl :: byte) = of_nat cl'" "take cl c @ take l msg = take cl' c' @ take l' msg'"
    using eq by simp_all
  have "unat (of_nat cl :: byte) = cl" "unat (of_nat cl' :: byte) = cl'"
    using d(3) d'(3) by (simp_all add: unsigned_of_nat take_bit_nat_eq_self)
  with e have "cl = cl'"
    by metis
  with e(2) len show ?thesis
    by simp
qed

theorem msg_encode_injective_witness:
  "\<exists>buf. msg_encode (\<lambda>_. True) [2] 1 [7] 1 True (replicate 1024 0) 1024 = Some (buf, 4) \<and>
     take 1 [7 :: byte] = take 1 [7] \<and> take 1 [2 :: byte] = take 1 [2]"
proof -
  obtain buf where b: "msg_encode (\<lambda>_. True) [2] 1 [7] 1 True (replicate 1024 0) 1024 = Some (buf, 4)"
    using msg_encode_eq [of "\<lambda>_. True" 1 1 "[7]" "[2]"] by (auto simp: SIZE_MAX_def)
  then show ?thesis
    using msg_encode_injective [OF b b] by (simp add: SIZE_MAX_def)
qed

lemma key_new_ex:
  assumes "ossl_slh_dsa_params_get alg = Some p"
  obtains key where "ossl_slh_dsa_key_new (\<lambda>_. True) lib_ex None alg = Some key" and "key_params key = p"
    and "slh_key_ok key" and "\<not> key_has_priv key" and "slh_lib_ok (key_libctx key) (key_propq key)"
proof -
  obtain key where k: "ossl_slh_dsa_key_new (\<lambda>_. True) lib_ex None alg = Some key"
    using key_new_Some [OF lib_ex_ok assms, of "\<lambda>_. True" None] by (auto simp: strdup_ok_def)
  with assms key_new_ok [OF k] show ?thesis
    by (intro that [OF k]) (simp_all add: lib_ex_ok)
qed

lemma params_ex: "ossl_slh_dsa_params_get (Some ''SLH-DSA-SHAKE-128s'') = Some (OSSL_SLH_PARAMS_128S ''SLH-DSA-SHAKE-128s'' 1466 True 0)"
  by (simp add: ossl_slh_dsa_params_get_def slh_dsa_params_table_def slh_params_defs)

text \<open>
  C6: Every key that creation, duplication, import, export, reset and generation can produce, in any order
  and with any failure on the way, is well-formed: one of the twelve parameter sets with its own method
  tables and digests, a full buffer, and no private key without its public key.
\<close>

theorem slh_key_reach_ok: "slh_key_reach key \<Longrightarrow> slh_key_ok key"
  by (rule slh_key_reach_key_ok)

theorem slh_key_reach_ok_witness:
  "\<exists>key. ossl_slh_dsa_key_new (\<lambda>_. True) lib_ex None (Some ''SLH-DSA-SHAKE-128s'') = Some key \<and>
     slh_key_ok (ossl_slh_dsa_key_reset key)"
proof -
  obtain key where k: "ossl_slh_dsa_key_new (\<lambda>_. True) lib_ex None (Some ''SLH-DSA-SHAKE-128s'') = Some key"
    by (rule key_new_ex [OF params_ex])
  with slh_key_reach_ok [OF slh_key_reach.reset [OF slh_key_reach.new [OF k]]] show ?thesis
    by blast
qed

text \<open>
  C7: The pairwise check accepts exactly the keys with both halves whose root is the one that key
  generation computes from the same seeds.
\<close>

theorem pairwise_check_generated:
  assumes "slh_key_ok key" and "slh_lib_ok (key_libctx key) (key_propq key)"
    and "al sizeof_slh_dsa_hash_ctx" and "al sizeof_wpacket_sub"
  shows "\<exists>key'. ossl_slh_dsa_generate_key al (key_ctx key) lib (Some (key_priv key)) (3 * sp_n (key_params key)) = (key', True) \<and>
    (ossl_slh_dsa_key_pairwise_check al key \<longleftrightarrow> key_pub key \<and> key_has_priv key \<and>
       take (sp_n (key_params key)) (SLH_DSA_PK_ROOT key') = take (sp_n (key_params key)) (SLH_DSA_PK_ROOT key))"
  using pairwise_all [of key al lib, OF assms(1,2,4)] hash_ctx_new_eq [of key al, OF assms(1-3)]
  by (auto simp: ossl_slh_dsa_key_pairwise_check_def)

theorem pairwise_check_generated_witness:
  "\<exists>key key'. ossl_slh_dsa_key_new (\<lambda>_. True) lib_ex None (Some ''SLH-DSA-SHAKE-128s'') = Some key \<and>
     ossl_slh_dsa_generate_key (\<lambda>_. True) (key_ctx key) lib_ex (Some (key_priv key)) (3 * sp_n (key_params key)) = (key', True) \<and>
     \<not> ossl_slh_dsa_key_pairwise_check (\<lambda>_. True) key"
proof -
  obtain key where k: "ossl_slh_dsa_key_new (\<lambda>_. True) lib_ex None (Some ''SLH-DSA-SHAKE-128s'') = Some key"
    and ok: "slh_key_ok key" "\<not> key_has_priv key" "slh_lib_ok (key_libctx key) (key_propq key)"
    by (rule key_new_ex [OF params_ex])
  with pairwise_check_generated [of key "\<lambda>_. True" lib_ex] show ?thesis
    by auto
qed



text \<open>
  C18: Raw keys survive import and export: what \<open>ossl_slh_dsa_set_priv\<close> and \<open>ossl_slh_dsa_set_pub\<close> store is what the
  getters return, the public key is the second half of the private key, and any other length is refused.
\<close>

theorem slh_dsa_set_get:
  assumes "slh_key_ok key" and "length priv = 4 * sp_n (key_params key)" and "length pub = 2 * sp_n (key_params key)"
  shows "(\<exists>k. ossl_slh_dsa_set_priv key priv (length priv) = Some k \<and>
       map_option (take (ossl_slh_dsa_key_get_priv_len k)) (ossl_slh_dsa_key_get_priv k) = Some priv \<and>
       map_option (take (ossl_slh_dsa_key_get_pub_len k)) (ossl_slh_dsa_key_get_pub k) =
         Some (drop (2 * sp_n (key_params key)) priv)) \<and>
    (\<exists>k. ossl_slh_dsa_set_pub key pub (length pub) = Some k \<and> ossl_slh_dsa_key_get_priv k = None \<and>
       map_option (take (ossl_slh_dsa_key_get_pub_len k)) (ossl_slh_dsa_key_get_pub k) = Some pub) \<and>
    (n \<noteq> length priv \<longrightarrow> ossl_slh_dsa_set_priv key priv n = None) \<and>
    (n \<noteq> length pub \<longrightarrow> ossl_slh_dsa_set_pub key pub n = None)"
proof -
  note l = key_okD(1) [OF assms(1)] and n = key_n_bound [OF assms(1)]
  let ?n = "sp_n (key_params key)"
  have "store_at (key_priv key) 0 priv = priv @ drop (4 * ?n) (key_priv key)"
    using assms(2) l n by (simp add: store_at_eq)
  moreover have "store_at (key_priv key) (2 * ?n) pub = take (2 * ?n) (key_priv key) @ pub @ drop (4 * ?n) (key_priv key)"
    using assms(3) l n by (simp add: store_at_eq)
  ultimately show ?thesis
    using assms(2,3) l n
    by (auto simp: ossl_slh_dsa_set_priv_def ossl_slh_dsa_set_pub_def ossl_slh_dsa_key_get_priv_len_def
        ossl_slh_dsa_key_get_pub_len_def ossl_slh_dsa_key_get_priv_def ossl_slh_dsa_key_get_pub_def
        SLH_DSA_PUB_def SLH_DSA_PK_SEED_def mult.commute)
qed

theorem slh_dsa_set_get_witness:
  "\<exists>key k. ossl_slh_dsa_key_new (\<lambda>_. True) lib_ex None (Some ''SLH-DSA-SHAKE-128s'') = Some key \<and>
     ossl_slh_dsa_set_pub key (replicate 32 3) 32 = Some k \<and>
     map_option (take (ossl_slh_dsa_key_get_pub_len k)) (ossl_slh_dsa_key_get_pub k) = Some (replicate 32 3)"
proof -
  obtain key where k: "ossl_slh_dsa_key_new (\<lambda>_. True) lib_ex None (Some ''SLH-DSA-SHAKE-128s'') = Some key"
    and ok: "slh_key_ok key" and p: "key_params key = OSSL_SLH_PARAMS_128S ''SLH-DSA-SHAKE-128s'' 1466 True 0"
    by (rule key_new_ex [OF params_ex])
  have "sp_n (key_params key) = 16"
    by (simp add: p slh_params_defs)
  with k slh_dsa_set_get [OF ok, of "replicate 64 0" "replicate 32 3" 0] show ?thesis
    by auto
qed

text \<open>
  C19: Signing fails without a private key, with a buffer shorter than the signature or with a context string
  of more than 255 bytes, and verifying rejects a key without public half, a signature of any other length and
  such a context string; asked without a buffer, signing reports the length of the signature.
\<close>

theorem slh_dsa_refuses:
  "(enc \<and> 255 < cl \<or> \<not> key_has_priv (sc_key ctx) \<or> sz < sp_sig_len (key_params (sc_key ctx)) \<longrightarrow>
      snd (ossl_slh_dsa_sign al ctx msg l c cl rand enc (Some buf) sz) = None) \<and>
   (enc \<and> 255 < cl \<or> \<not> key_pub (sc_key ctx) \<or> sl \<noteq> sp_sig_len (key_params (sc_key ctx)) \<longrightarrow>
      \<not> ossl_slh_dsa_verify al ctx msg l c cl enc sig sl) \<and>
   ossl_slh_dsa_sign al ctx msg l c cl rand enc None sz = (ctx, Some (sp_sig_len (key_params (sc_key ctx)), None))"
proof -
  have "msg_encode al msg l c cl enc (replicate 1024 0) 1024 = None" if "enc \<and> 255 < cl"
    using that by (simp add: msg_encode_def SLH_DSA_MAX_CONTEXT_STRING_LEN_def)
  moreover have "snd (slh_sign_internal al ctx m n (Some buf) sz rand) = None"
    if "\<not> key_has_priv (sc_key ctx) \<or> sz < sp_sig_len (key_params (sc_key ctx))" for m n
    using that by (auto simp: slh_sign_internal_def Let_def)
  moreover have "\<not> slh_verify_internal al ctx m n sig sl"
    if "\<not> key_pub (sc_key ctx) \<or> sl \<noteq> sp_sig_len (key_params (sc_key ctx))" for m n
    using that by (auto simp: slh_verify_internal_def Let_def)
  moreover have "slh_sign_internal al ctx m n None sz rand = (ctx, Some (sp_sig_len (key_params (sc_key ctx)), None))" for m n
    by (simp add: slh_sign_internal_def Let_def)
  ultimately show ?thesis
    by (auto simp: ossl_slh_dsa_sign_def ossl_slh_dsa_verify_def split: option.splits)
qed

theorem slh_dsa_refuses_witness:
  "\<exists>key. ossl_slh_dsa_key_new (\<lambda>_. True) lib_ex None (Some ''SLH-DSA-SHAKE-128s'') = Some key \<and>
     snd (ossl_slh_dsa_sign (\<lambda>_. True) (key_ctx key) [1] 1 [] 0 None True (Some (replicate 7856 0)) 7856) = None"
proof -
  obtain key where k: "ossl_slh_dsa_key_new (\<lambda>_. True) lib_ex None (Some ''SLH-DSA-SHAKE-128s'') = Some key"
    and ok: "\<not> key_has_priv key"
    by (rule key_new_ex [OF params_ex])
  then show ?thesis
    using slh_dsa_refuses [of True 0 "key_ctx key"] by auto
qed

text \<open>C29: Entropy of any other length than three times \<open>n\<close> is refused, more than that included.\<close>

theorem generate_key_entropy_length:
  assumes "el \<noteq> 0" and "el \<noteq> 3 * sp_n (key_params (sc_key ctx))"
  shows "snd (ossl_slh_dsa_generate_key al ctx lib (Some e) el) = False"
  using assms by (simp add: ossl_slh_dsa_generate_key_def generate_seeds_def Let_def)

theorem generate_key_entropy_length_witness:
  "\<exists>key. ossl_slh_dsa_key_new (\<lambda>_. True) lib_ex None (Some ''SLH-DSA-SHAKE-128s'') = Some key \<and>
     snd (ossl_slh_dsa_generate_key (\<lambda>_. True) (key_ctx key) lib_ex (Some (replicate 100 1)) 100) = False"
proof -
  obtain key where k: "ossl_slh_dsa_key_new (\<lambda>_. True) lib_ex None (Some ''SLH-DSA-SHAKE-128s'') = Some key"
    and p: "key_params key = OSSL_SLH_PARAMS_128S ''SLH-DSA-SHAKE-128s'' 1466 True 0"
    by (rule key_new_ex [OF params_ex])
  have "sp_n (key_params key) = 16"
    by (simp add: p slh_params_defs)
  then show ?thesis
    using k generate_key_entropy_length [of 100 "key_ctx key" "\<lambda>_. True" lib_ex "replicate 100 1"] by simp
qed



end
