(* ===== verification/Slh_Properties.thy ===== *)
theory Slh_Properties
  imports Slh_Key
begin

text \<open>
  What the layers of SLH-DSA promise one by one, stated for contexts of every parameter set: the mask
  generation function against its definition in RFC 8017, the checksum and the public key recovery of
  WOTS+, the bit groups of FORS, and the range of the tree and leaf indices.
\<close>

section \<open>Mask generation\<close>

text \<open>\<open>T = Hash (seed || C (0)) || Hash (seed || C (1)) || ...\<close>, of which MGF1 is the first bytes.\<close>

definition mgf1_block :: "evp_md \<Rightarrow> bytes \<Rightarrow> nat \<Rightarrow> bytes" where
  "mgf1_block md seed i =
     map (the (md_digest md (seed @ map (\<lambda>k. ucast (drop_bit (8 * k) (of_nat i :: u64))) [3, 2, 1, 0])))
       [0..<nat (md_size md)]"

definition mgf1 :: "evp_md \<Rightarrow> bytes \<Rightarrow> nat \<Rightarrow> nat \<Rightarrow> bytes" where
  "mgf1 md seed blocks len = take len (concat (map (mgf1_block md seed) [0..<blocks]))"

lemma mgf1_count: "(ucast (c AND 255) :: byte) = ucast c" for c :: u64
  by (rule bit_word_eqI) (auto simp: bit_simps bit_numeral_rec)

lemma length_mgf1_block [simp]: "length (mgf1_block md seed i) = nat (md_size md)"
  by (simp add: mgf1_block_def)

lemma length_mgf1_blocks: "length (concat (map (mgf1_block md seed) is)) = length is * nat (md_size md)"
  by (induction "is") simp_all

lemma mgf1_enough:
  assumes "len \<le> b * nat (md_size md)" and "b \<le> b'"
  shows "mgf1 md seed b' len = mgf1 md seed b len"
proof -
  have "[0..<b'] = [0..<b] @ [b..<b']"
    using assms(2) by (metis le_add_diff_inverse upt_add_eq_append zero_le)
  then show ?thesis
    using assms(1) length_mgf1_blocks [of md seed "[0..<b]"] by (simp add: mgf1_def)
qed

lemma MGF1_loop_eq:
  assumes md: "md_total md" "0 < md_size md"
  shows "msk = mgf1 md seed i len \<Longrightarrow> MGF1_loop md (nat (md_size md)) seed len i msk = Some (mgf1 md seed (i + len) len)"
proof (induction "len - length msk" arbitrary: i msk rule: less_induct)
  case less
  let ?n = "nat (md_size md)"
  have l: "length msk = min (i * ?n) len"
    using less.prems length_mgf1_blocks [of md seed "[0..<i]"] by (simp add: mgf1_def min.commute)
  show ?case
  proof (cases "length msk < len")
    case False
    then have "len \<le> i * ?n"
      using l by simp
    then show ?thesis
      using False less.prems mgf1_enough [of len i md "i + len" seed] by (subst MGF1_loop.simps) simp
  next
    case True
    let ?m = "msk @ take (len - length msk) (mgf1_block md seed i)"
    have m: "?m = mgf1 md seed (Suc i) len"
      using less.prems True l length_mgf1_blocks [of md seed "[0..<i]"] by (simp add: mgf1_def min_def split: if_splits)
    have "len - length ?m < len - length msk"
      using True md(2) by auto
    from less.hyps [OF this m] have "MGF1_loop md ?n seed len (Suc i) ?m = Some (mgf1 md seed (Suc i + len) len)" .
    moreover have "mgf1 md seed (Suc i + len) len = mgf1 md seed (i + len) len"
    proof (rule mgf1_enough)
      have "len * 1 \<le> (i + len) * ?n"
        using md(2) by (intro mult_le_mono) auto
      then show "len \<le> (i + len) * ?n"
        by simp
    qed simp
    moreover obtain s where s: "md_digest md (seed @ map (\<lambda>k. ucast (drop_bit (8 * k) (of_nat i :: u64))) [3, 2, 1, 0]) = Some s"
      using md_totalD [OF md(1)] by blast
    then have b: "map s [0..<?n] = mgf1_block md seed i"
      by (simp add: mgf1_block_def)
    ultimately show ?thesis
      using True md(2) s b
      by (subst MGF1_loop.simps, cases "length msk + ?n \<le> len") (simp_all add: Let_def mgf1_count)
  qed
qed

section \<open>Properties\<close>

text \<open>
  C13: The mask generation loop ends and yields exactly the first \<open>len\<close> bytes of the concatenated digests of
  seed and counter (RFC 8017, B.2.1), for every length and every digest of positive size that does not fail.
\<close>

theorem PKCS1_MGF1_rfc8017:
  assumes "md_total md" and "0 < md_size md"
  shows "PKCS1_MGF1 len seed l md = Some (mgf1 md (take l seed) len len)"
  using MGF1_loop_eq [OF assms, of "[]" "take l seed" 0 len] assms(2) by (simp add: PKCS1_MGF1_def mgf1_def)

theorem PKCS1_MGF1_rfc8017_witness: "PKCS1_MGF1 3 [1, 2] 2 (md_ex 2) = Some (mgf1 (md_ex 2) [1, 2] 3 3)"
  using PKCS1_MGF1_rfc8017 [of "md_ex 2" 3 "[1, 2]" 2] by (simp add: md_ex_def md_total_def)

text \<open>
  C3: The checksum of WOTS+ does its work: for two different messages, some chain of the second one ends before
  the chain of the first, so that no signature of the first turns into one of the second by hashing on.
\<close>

theorem wots_checksum:
  assumes "length m = n" and "length m' = n" and "n \<le> 32" and "m \<noteq> m'"
  shows "\<exists>i < SLH_WOTS_LEN n. unat (msg_and_csum_nibbles m' n ! i) < unat (msg_and_csum_nibbles m n ! i)"
  by (rule nibbles_incomparable [OF assms])

theorem wots_checksum_witness:
  "\<exists>i < SLH_WOTS_LEN 1. unat (msg_and_csum_nibbles [0x34] 1 ! i) < unat (msg_and_csum_nibbles [0x12] 1 ! i)"
  using wots_checksum [of "[0x12]" 1 "[0x34]"] by simp

text \<open>
  C8: The bit buffer of \<open>slh_base_2b\<close> reads its input as one number, most significant bit first, and cuts it into
  groups of \<open>b\<close> bits: with 24 bits or less per group nothing is lost in the 32 bits of the buffer, and each
  group is an index below \<open>2 ^ b\<close>.
\<close>

theorem slh_base_2b_groups:
  assumes "0 < b" and "b \<le> 24" and "b * out_len \<le> 8 * length inp"
  shows "slh_base_2b inp b out_len =
      Some (map (\<lambda>j. of_nat (be_value inp div 2 ^ (8 * length inp - b * (j + 1)) mod 2 ^ b)) [0..<out_len])"
  using slh_base_2b_eq [OF assms] by (simp add: bit_group_def)

theorem slh_base_2b_groups_witness: "slh_base_2b [0xab, 0xcd, 0xef] 12 2 = Some [0xabc, 0xdef]"
  using slh_base_2b_groups [of 12 2 "[0xab, 0xcd, 0xef]"] by (simp add: upt_rec be_value_def)

text \<open>
  C15: The tree and leaf that a digest selects are in range: the tree has \<open>h - h'\<close> bits and the leaf \<open>h'\<close>, so that
  every layer of the hypertree finds its tree and its leaf.
\<close>

theorem get_tree_ids_range:
  assumes "slh_params_ok prms" and "get_tree_ids r prms = Some (tree, leaf, r')"
  shows "drop_bit (sp_h prms - sp_hm prms) tree = 0 \<and> drop_bit (sp_hm prms) leaf = 0"
proof -
  have h: "sp_h prms - sp_hm prms \<le> 64"
    by (rule digest_split(4) [OF assms(1)])
  obtain tb lb where "tree = bytes_to_u64_be tb (drop_bit 3 (sp_h prms - sp_hm prms + 7)) AND drop_bit (64 - (sp_h prms - sp_hm prms)) (NOT 0)"
    and "leaf = ucast (bytes_to_u64_be lb (drop_bit 3 (sp_hm prms + 7)) AND (2 ^ sp_hm prms - 1))"
    using assms(2) by (auto simp: get_tree_ids_def Let_def split: option.splits)
  then have "tree = take_bit (sp_h prms - sp_hm prms) (bytes_to_u64_be tb (drop_bit 3 (sp_h prms - sp_hm prms + 7)))"
    and "leaf = ucast (take_bit (sp_hm prms) (bytes_to_u64_be lb (drop_bit 3 (sp_hm prms + 7))))"
    unfolding tree_mask [OF h] leaf_mask64 .
  then show ?thesis
    by (auto simp: drop_bit_leaf intro: bit_word_eqI simp: bit_simps)
qed

theorem get_tree_ids_range_witness:
  "\<exists>tree leaf r'. get_tree_ids \<lparr>pkt_curr = replicate 49 255, pkt_remaining = 49\<rparr> (OSSL_SLH_PARAMS_128S ''SLH-DSA-SHAKE-128s'' 1466 True 0) =
     Some (tree, leaf, r') \<and> drop_bit 54 tree = 0 \<and> drop_bit 9 leaf = 0"
proof -
  let ?p = "OSSL_SLH_PARAMS_128S ''SLH-DSA-SHAKE-128s'' 1466 True 0" and ?r = "\<lparr>pkt_curr = replicate 49 255, pkt_remaining = 49\<rparr> :: packet"
  have ok: "slh_params_ok ?p"
    by (intro slh_params_table_ok) (simp add: slh_dsa_params_table_def)
  have "\<exists>tree leaf r'. get_tree_ids ?r ?p = Some (tree, leaf, r')"
    by (simp add: get_tree_ids_def slh_params_defs PACKET_get_bytes_def PACKET_peek_bytes_def packet_forward_def
        PACKET_remaining_def size_sub_def drop_bit_eq_div Let_def)
  with get_tree_ids_range [OF ok, of ?r] show ?thesis
    by (fastforce simp: slh_params_defs)
qed

section \<open>One-time signatures\<close>

definition slh_adrs_enc :: "slh_dsa_hash_ctx \<Rightarrow> adr \<Rightarrow> bytes" where
  "slh_adrs_enc ctx = (if sp_is_shake (key_params (sc_key ctx)) then adrs_enc else adrsc_enc)"

lemma slh_ctx_shake: "slh_ctx_ok ctx \<Longrightarrow> sp_is_shake (key_params (sc_key ctx)) \<Longrightarrow> slh_shake.ctx_ok ctx"
  using slh_params_table_ok unfolding slh_shake.ctx_ok_def slh_ctx_ok_def Let_def by simp

lemma slh_ctx_sha2: "slh_ctx_ok ctx \<Longrightarrow> \<not> sp_is_shake (key_params (sc_key ctx)) \<Longrightarrow> slh_sha2.ctx_ok ctx"
  using slh_params_table_ok unfolding slh_sha2.ctx_ok_def slh_ctx_ok_def Let_def by simp

text \<open>What signing, recovery and key generation have to do with each other.\<close>

definition wots_recovers ::
    "allocator \<Rightarrow> slh_dsa_hash_ctx \<Rightarrow> bytes \<Rightarrow> bytes \<Rightarrow> bytes \<Rightarrow> bytes \<Rightarrow> wpacket \<Rightarrow> bool" where
  "wots_recovers al ctx msg sk pk adrs p \<longleftrightarrow>
     (\<exists>wots_pk a1 a2 sig. ossl_slh_wots_pk_gen al ctx sk pk adrs = Some (wots_pk, a1) \<and>
        ossl_slh_wots_sign al ctx msg sk pk adrs p = Some (a2, wp_append p sig) \<and>
        length sig = SLH_WOTS_LEN (ctx_n ctx) * ctx_n ctx \<and>
        (\<forall>r rest. pkt_ok r \<and> pkt_bytes r = sig @ rest \<longrightarrow>
           (\<exists>r' a3. ossl_slh_wots_pk_from_sig al ctx r msg pk adrs = Some (wots_pk, r', a3) \<and>
              pkt_ok r' \<and> pkt_bytes r' = rest)))"

context slh_scheme
begin

lemma wots_recovers_own:
  assumes ctx: "ctx_ok ctx" and al: "al sizeof_wpacket_sub" and p: "wp_static p" "SLH_WOTS_LEN (ctx_n ctx) * ctx_n ctx \<le> wp_room p"
    and m: "ctx_n ctx \<le> length msg"
  shows "wots_recovers al ctx msg sk pk (enc a) p"
proof -
  let ?s = "wots_sig ctx sk pk a msg"
  obtain c h c' h' where "ossl_slh_wots_pk_gen al ctx sk pk (enc a) = Some (wots_pk ctx sk pk a, enc (a\<lparr>adr_chain := c, adr_hash := h\<rparr>))"
    "ossl_slh_wots_sign al ctx msg sk pk (enc a) p = Some (enc (a\<lparr>adr_chain := c', adr_hash := h'\<rparr>), wp_append p (concat ?s))"
    using wots_pk_gen_eq [of ctx al, OF ctx al] wots_sign_eq [OF ctx p] by metis
  moreover have "\<exists>r' a3. ossl_slh_wots_pk_from_sig al ctx r msg pk (enc a) = Some (wots_pk ctx sk pk a, r', a3) \<and>
      pkt_ok r' \<and> pkt_bytes r' = rest" if "pkt_ok r" "pkt_bytes r = concat ?s @ rest" for r rest
    using wots_pk_from_sig_eq [of ctx al, OF ctx al that length_wots_sig, where msg = msg and pk = pk and a = a]
      length_wots_sig_chunk [OF ctx] wots_pk_cand_sig [OF m] by auto
  ultimately show ?thesis
    unfolding wots_recovers_def using length_wots_sig_concat [OF ctx] by blast
qed

end

text \<open>
  C2: For every parameter set, what \<open>ossl_slh_wots_sign\<close> writes lets \<open>ossl_slh_wots_pk_from_sig\<close> recover the public
  key that \<open>ossl_slh_wots_pk_gen\<close> computes from the secret seed, reading exactly the bytes of the signature.
\<close>

theorem wots_sign_recovers_pk:
  assumes "slh_ctx_ok ctx" and "al sizeof_wpacket_sub" and "wp_static p"
    and "SLH_WOTS_LEN (ctx_n ctx) * ctx_n ctx \<le> wp_room p" and "ctx_n ctx \<le> length msg"
  shows "wots_recovers al ctx msg sk pk (slh_adrs_enc ctx a) p"
  using slh_shake.wots_recovers_own [of ctx al p msg sk pk a] slh_sha2.wots_recovers_own [of ctx al p msg sk pk a]
    slh_ctx_shake [OF assms(1)] slh_ctx_sha2 [OF assms(1)] assms(2-) by (simp add: slh_adrs_enc_def)

theorem wots_sign_recovers_pk_witness:
  "\<exists>key p. ossl_slh_dsa_key_new (\<lambda>_. True) lib_ex None (Some ''SLH-DSA-SHAKE-128s'') = Some key \<and>
     WPACKET_init_static_len (\<lambda>_. True) (replicate 560 0) 560 0 = Some p \<and>
     wots_recovers (\<lambda>_. True) (key_ctx key) (replicate 16 1) [2] [3] (slh_adrs_enc (key_ctx key) adr_zero) p"
proof -
  obtain key where k: "ossl_slh_dsa_key_new (\<lambda>_. True) lib_ex None (Some ''SLH-DSA-SHAKE-128s'') = Some key"
    and ok: "slh_key_ok key" "slh_lib_ok (key_libctx key) (key_propq key)"
    and prm: "key_params key = OSSL_SLH_PARAMS_128S ''SLH-DSA-SHAKE-128s'' 1466 True 0"
    by (rule key_new_ex [OF params_ex])
  obtain p where "WPACKET_init_static_len (\<lambda>_. True) (replicate 560 0) 560 0 = Some p" "wp_static p" "wp_room p = 560"
    using init_static_ok [of "\<lambda>_. True" 560 "replicate 560 0"] by (auto simp: SIZE_MAX_def)
  moreover have "sp_n (key_params key) = 16"
    by (simp add: prm slh_params_defs)
  ultimately show ?thesis
    using k wots_sign_recovers_pk [OF key_ctx_ok [OF ok], of "\<lambda>_. True" p "replicate 16 1"] by (auto simp: SLH_WOTS_LEN_def)
qed

end
