(* ===== verification/Ossl_Time.thy ===== *)
theory Ossl_Time
  imports Prelude
begin

text \<open>
  Times and their saturating arithmetic, \<open>include/internal/time.h\<close>, over the overflow-checked
  operations that \<open>OSSL_SAFE_MATH_UNSIGNED\<close> of \<open>include/internal/safe_math.h\<close> generates for
  \<open>uint64_t\<close>; and the RTT statistics manager \<open>ssl/quic/quic_statm.c\<close>, which is written with them.
  \<open>OSSL_TIME\<close>, a structure around one 64-bit tick count, is that count. A \<open>safe_\<close> operation returns
  its value and whether it sets \<open>*err\<close>.
\<close>

section \<open>Checked arithmetic\<close>

definition safe_add_time :: "u64 \<Rightarrow> u64 \<Rightarrow> u64 \<times> bool" where
  "safe_add_time a b = (a + b, b > - 1 - a)"

definition safe_sub_time :: "u64 \<Rightarrow> u64 \<Rightarrow> u64 \<times> bool" where
  "safe_sub_time a b = (a - b, b > a)"

definition safe_mul_time :: "u64 \<Rightarrow> u64 \<Rightarrow> u64 \<times> bool" where
  "safe_mul_time a b = (a * b, b \<noteq> 0 \<and> a > - 1 div b)"

definition safe_div_time :: "u64 \<Rightarrow> u64 \<Rightarrow> u64 \<times> bool" where
  "safe_div_time a b = (if b \<noteq> 0 then (a div b, False) else (- 1, True))"

definition safe_muldiv_time :: "u64 \<Rightarrow> u64 \<Rightarrow> u64 \<Rightarrow> u64 \<times> bool" where
  "safe_muldiv_time a b c =
     (if c = 0 then (if a = 0 \<or> b = 0 then 0 else - 1, True)
      else
        let (x, e2) = safe_mul_time a b
        in if \<not> e2 then (x div c, False)
           else
             let (a, b) = (if b > a then (b, a) else (a, b));
                 (x, ex) = safe_mul_time (a mod c) b;
                 (y, ey) = safe_mul_time (a div c) b;
                 (z, ez) = safe_add_time y (x div c)
             in (z, ex \<or> ey \<or> ez))"

section \<open>Times\<close>

type_synonym OSSL_TIME = u64

definition OSSL_TIME_SECOND :: u64 where "OSSL_TIME_SECOND = 1000000000"
definition OSSL_TIME_MS :: u64 where "OSSL_TIME_MS = OSSL_TIME_SECOND div 1000"
definition OSSL_TIME_US :: u64 where "OSSL_TIME_US = OSSL_TIME_MS div 1000"

definition ossl_ticks2time :: "u64 \<Rightarrow> OSSL_TIME" where "ossl_ticks2time ticks = ticks"
definition ossl_ms2time :: "u64 \<Rightarrow> OSSL_TIME" where "ossl_ms2time ms = ossl_ticks2time (ms * OSSL_TIME_MS)"
definition ossl_time_zero :: OSSL_TIME where "ossl_time_zero = ossl_ticks2time 0"
definition ossl_time_infinite :: OSSL_TIME where "ossl_time_infinite = ossl_ticks2time (NOT 0)"

text \<open>\<open>struct timeval\<close>, with the signed \<open>time_t\<close> and \<open>suseconds_t\<close> as integers.\<close>

record timeval =
  tv_sec :: int
  tv_usec :: int

definition ossl_time_to_timeval :: "OSSL_TIME \<Rightarrow> timeval" where
  "ossl_time_to_timeval t =
     (let (s, err) = safe_add_time t (OSSL_TIME_US - 1);
          t = (if err then ossl_time_infinite else s)
      in \<lparr>tv_sec = uint (t div OSSL_TIME_SECOND),
          tv_usec = uint ((t mod OSSL_TIME_SECOND) div OSSL_TIME_US)\<rparr>)"

definition ossl_time_from_timeval :: "timeval \<Rightarrow> OSSL_TIME" where
  "ossl_time_from_timeval tv =
     (if tv_sec tv < 0 then ossl_time_zero
      else word_of_int (tv_sec tv) * OSSL_TIME_SECOND + word_of_int (tv_usec tv) * OSSL_TIME_US)"

definition ossl_time_to_time_t :: "OSSL_TIME \<Rightarrow> int" where
  "ossl_time_to_time_t t = uint (t div OSSL_TIME_SECOND)"

definition ossl_time_from_time_t :: "int \<Rightarrow> OSSL_TIME" where
  "ossl_time_from_time_t t = word_of_int t * OSSL_TIME_SECOND"

definition ossl_time_compare :: "OSSL_TIME \<Rightarrow> OSSL_TIME \<Rightarrow> int" where
  "ossl_time_compare a b = (if a > b then 1 else if a < b then - 1 else 0)"

definition ossl_time_is_zero :: "OSSL_TIME \<Rightarrow> bool" where
  "ossl_time_is_zero t \<longleftrightarrow> ossl_time_compare t ossl_time_zero = 0"

definition ossl_time_is_infinite :: "OSSL_TIME \<Rightarrow> bool" where
  "ossl_time_is_infinite t \<longleftrightarrow> ossl_time_compare t ossl_time_infinite = 0"

definition ossl_time_add :: "OSSL_TIME \<Rightarrow> OSSL_TIME \<Rightarrow> OSSL_TIME" where
  "ossl_time_add a b = (let (r, err) = safe_add_time a b in if err then ossl_time_infinite else r)"

definition ossl_time_subtract :: "OSSL_TIME \<Rightarrow> OSSL_TIME \<Rightarrow> OSSL_TIME" where
  "ossl_time_subtract a b = (let (r, err) = safe_sub_time a b in if err then ossl_time_zero else r)"

definition ossl_time_abs_difference :: "OSSL_TIME \<Rightarrow> OSSL_TIME \<Rightarrow> OSSL_TIME" where
  "ossl_time_abs_difference a b =
     (if a > b then ossl_time_subtract a b else ossl_time_subtract b a)"

definition ossl_time_multiply :: "OSSL_TIME \<Rightarrow> u64 \<Rightarrow> OSSL_TIME" where
  "ossl_time_multiply a b = (let (r, err) = safe_mul_time a b in if err then ossl_time_infinite else r)"

definition ossl_time_divide :: "OSSL_TIME \<Rightarrow> u64 \<Rightarrow> OSSL_TIME" where
  "ossl_time_divide a b = (let (r, err) = safe_div_time a b in if err then ossl_time_zero else r)"

definition ossl_time_muldiv :: "OSSL_TIME \<Rightarrow> u64 \<Rightarrow> u64 \<Rightarrow> OSSL_TIME" where
  "ossl_time_muldiv a b c = (let (r, err) = safe_muldiv_time a b c in if err then ossl_time_zero else r)"

definition ossl_time_max :: "OSSL_TIME \<Rightarrow> OSSL_TIME \<Rightarrow> OSSL_TIME" where
  "ossl_time_max a b = (if a > b then a else b)"

definition ossl_time_min :: "OSSL_TIME \<Rightarrow> OSSL_TIME \<Rightarrow> OSSL_TIME" where
  "ossl_time_min a b = (if a < b then a else b)"

section \<open>RTT statistics\<close>

record ossl_statm =
  smoothed_rtt :: OSSL_TIME
  latest_rtt :: OSSL_TIME
  min_rtt :: OSSL_TIME
  rtt_variance :: OSSL_TIME
  have_first_sample :: bool

definition K_INITIAL_RTT :: OSSL_TIME where
  "K_INITIAL_RTT = ossl_ms2time 333"

definition ossl_statm_init :: ossl_statm where
  "ossl_statm_init =
     \<lparr>smoothed_rtt = K_INITIAL_RTT, latest_rtt = ossl_time_zero, min_rtt = ossl_time_infinite,
      rtt_variance = ossl_time_divide K_INITIAL_RTT 2, have_first_sample = False\<rparr>"

definition ossl_statm_update_rtt :: "ossl_statm \<Rightarrow> OSSL_TIME \<Rightarrow> OSSL_TIME \<Rightarrow> ossl_statm" where
  "ossl_statm_update_rtt st ack_delay override_latest_rtt =
     (let latest = (if ossl_time_is_zero override_latest_rtt then latest_rtt st else override_latest_rtt);
          st = st\<lparr>latest_rtt := latest\<rparr>
      in if \<not> have_first_sample st then
           st\<lparr>min_rtt := latest, smoothed_rtt := latest, rtt_variance := ossl_time_divide latest 2,
              have_first_sample := True\<rparr>
         else
           let st = (if ossl_time_compare latest (min_rtt st) < 0 then st\<lparr>min_rtt := latest\<rparr> else st);
               adjusted = (if ossl_time_compare latest (ossl_time_add (min_rtt st) ack_delay) \<ge> 0
                           then ossl_time_subtract latest ack_delay else latest);
               st = st\<lparr>rtt_variance :=
                        ossl_time_divide
                          (ossl_time_add (ossl_time_multiply (rtt_variance st) 3)
                            (ossl_time_abs_difference (smoothed_rtt st) adjusted)) 4\<rparr>
           in st\<lparr>smoothed_rtt :=
                   ossl_time_divide (ossl_time_add (ossl_time_multiply (smoothed_rtt st) 7) adjusted) 8\<rparr>)"

section \<open>Values\<close>

abbreviation TMAX :: nat where "TMAX \<equiv> 2 ^ 64 - 1"

lemma unat_max64: "unat (- 1 :: u64) = TMAX"
  by (simp add: unsigned_minus_1_eq_mask mask_eq_exp_minus_1)

lemma unat_lt2p_64: "unat (x :: u64) < 2 ^ 64"
  by (rule order_less_le_trans [OF unsigned_less]) simp

lemma unat_le_TMAX: "unat (x :: u64) \<le> TMAX"
  using unat_lt2p_64 [of x] by simp

lemma safe_add_time_eq:
  "safe_add_time a b = (a + b, TMAX < unat a + unat b)"
proof -
  have "unat (- 1 - a) = TMAX - unat a"
    by (subst unat_sub) (simp_all add: unat_max64 del: unat_minus_one)
  then show ?thesis
    using unat_le_TMAX [of a] by (auto simp: safe_add_time_def word_less_nat_alt)
qed

lemma safe_mul_time_eq:
  "safe_mul_time a b = (a * b, TMAX < unat a * unat b)"
proof (cases "b = 0")
  case False
  then have "0 < unat b"
    by (simp add: unat_gt_0)
  then have "TMAX div unat b < unat a \<longleftrightarrow> TMAX < unat a * unat b"
    by (simp add: div_less_iff_less_mult)
  moreover have "unat (- 1 div b) = TMAX div unat b"
    by (simp add: unat_div_distrib unat_max64)
  ultimately show ?thesis
    using False by (simp add: safe_mul_time_def word_less_nat_alt)
qed (simp add: safe_mul_time_def)

lemma unat_add64: "unat a + unat b \<le> TMAX \<Longrightarrow> unat (a + b :: u64) = unat a + unat b"
  by (subst unat_add_lem [THEN iffD1]) simp_all

lemma unat_mul64: "unat a * unat b \<le> TMAX \<Longrightarrow> unat (a * b :: u64) = unat a * unat b"
  by (subst unat_mult_lem [THEN iffD1]) simp_all

lemma unat_infinite: "unat ossl_time_infinite = TMAX"
  by (simp add: ossl_time_infinite_def ossl_ticks2time_def unat_max64)

lemma unat_time_zero [simp]: "unat ossl_time_zero = 0"
  by (simp add: ossl_time_zero_def ossl_ticks2time_def)

lemma unat_time_add: "unat (ossl_time_add a b) = min (unat a + unat b) TMAX"
  by (simp add: ossl_time_add_def safe_add_time_eq unat_infinite unat_add64)

lemma unat_time_subtract: "unat (ossl_time_subtract a b) = unat a - unat b"
  by (auto simp: ossl_time_subtract_def safe_sub_time_def word_less_nat_alt unat_sub_if')

lemma unat_time_multiply: "unat (ossl_time_multiply a b) = min (unat a * unat b) TMAX"
  by (simp add: ossl_time_multiply_def safe_mul_time_eq unat_infinite unat_mul64)

lemma unat_time_divide: "unat (ossl_time_divide a b) = unat a div unat b"
  by (simp add: ossl_time_divide_def safe_div_time_def unat_div_distrib)

lemma muldiv_split: "c \<noteq> 0 \<Longrightarrow> (a :: nat) * b div c = a div c * b + a mod c * b div c"
proof -
  assume "c \<noteq> 0"
  have "a * b = (a div c * b) * c + a mod c * b"
    by (metis add_mult_distrib div_mult_mod_eq mult.assoc mult.commute)
  then show ?thesis
    using \<open>c \<noteq> 0\<close> by simp
qed

lemma safe_muldiv_time_exact:
  assumes "safe_muldiv_time a b c = (r, False)"
  shows "c \<noteq> 0 \<and> unat r = unat a * unat b div unat c"
proof -
  have c: "c \<noteq> 0"
    using assms by (auto simp: safe_muldiv_time_def split: if_splits)
  have slow: "unat (y * z + w) = unat a' * unat b' div unat c"
    if "\<not> TMAX < unat (a' mod c) * unat b'" "\<not> TMAX < unat (a' div c) * unat b'"
      "\<not> TMAX < unat (a' div c * b') + unat (a' mod c * b' div c)"
      "y = a' div c" "z = b'" "w = a' mod c * b' div c" for a' b' y z w
    using that c muldiv_split [of "unat c" "unat a'" "unat b'"]
    by (simp add: unat_add64 unat_mul64 unat_div_distrib unat_mod_distrib not_less unat_eq_0)
  show ?thesis
    using assms c slow [of a b] slow [of b a]
    by (auto simp: safe_muldiv_time_def safe_mul_time_eq safe_add_time_eq Let_def not_less unat_mul64
        unat_div_distrib mult.commute split: if_splits)
qed

lemma time_compare_simps [simp]:
  "ossl_time_compare a b = 0 \<longleftrightarrow> a = b"
  "ossl_time_compare a b < 0 \<longleftrightarrow> a < b"
  "ossl_time_compare a b \<ge> 0 \<longleftrightarrow> a \<ge> b"
  "ossl_time_compare a b > 0 \<longleftrightarrow> a > b"
  "ossl_time_compare a b \<le> 0 \<longleftrightarrow> a \<le> b"
  "ossl_time_compare a b = - 1 \<longleftrightarrow> a < b"
  by (auto simp: ossl_time_compare_def)

lemma time_is_simps [simp]:
  "ossl_time_is_zero t \<longleftrightarrow> t = ossl_time_zero"
  "ossl_time_is_infinite t \<longleftrightarrow> t = ossl_time_infinite"
  by (simp_all add: ossl_time_is_zero_def ossl_time_is_infinite_def)

lemma unat_time_diff: "unat (ossl_time_abs_difference a b) = (unat a - unat b) + (unat b - unat a)"
  by (auto simp: ossl_time_abs_difference_def unat_time_subtract word_less_nat_alt)

lemma muldiv_overflow: "ossl_time_muldiv ossl_time_infinite 2 1 = ossl_time_zero"
  by (simp add: ossl_time_muldiv_def safe_muldiv_time_def safe_mul_time_def safe_add_time_def ossl_time_infinite_def
      ossl_ticks2time_def)

lemma unat_muldiv:
  "ossl_time_muldiv a b c = ossl_time_zero \<or>
   unat (ossl_time_muldiv a b c) = unat a * unat b div unat c"
  using safe_muldiv_time_exact [of a b c] by (auto simp: ossl_time_muldiv_def split: prod.split)

section \<open>RTT statistics stay within the samples\<close>

text \<open>
  The state after a first sample: the minimum is the least of the samples \<open>S\<close> seen so far, and the
  smoothed value lies between the least and the greatest of them.
\<close>

definition statm_ok :: "nat set \<Rightarrow> ossl_statm \<Rightarrow> bool" where
  "statm_ok S st \<longleftrightarrow> finite S \<and> S \<noteq> {} \<and> have_first_sample st \<and> unat (min_rtt st) = Min S \<and>
     unat (latest_rtt st) \<in> S \<and> Min S \<le> unat (smoothed_rtt st) \<and> unat (smoothed_rtt st) \<le> Max S"

lemma statm_first:
  "\<lbrakk>\<not> have_first_sample st; s \<noteq> ossl_time_zero\<rbrakk> \<Longrightarrow> statm_ok {unat s} (ossl_statm_update_rtt st d s)"
  by (simp add: statm_ok_def ossl_statm_update_rtt_def Let_def)

lemma smoothing_bounds:
  fixes s a m M :: nat
  assumes "m \<le> s" "m \<le> a" "s \<le> M" "a \<le> M" "8 * M \<le> TMAX"
  shows "m \<le> min (min (s * 7) TMAX + a) TMAX div 8" "min (min (s * 7) TMAX + a) TMAX div 8 \<le> M"
  using assms by auto

lemma adjusted_bounds:
  assumes "unat m \<le> unat s" "8 * unat s \<le> TMAX"
  shows "unat m \<le> unat (if ossl_time_add m d \<le> s then ossl_time_subtract s d else s)"
    "unat (if ossl_time_add m d \<le> s then ossl_time_subtract s d else s) \<le> unat s"
  using assms by (auto simp add: word_le_nat_alt unat_time_add unat_time_subtract min_def split: if_splits)

lemma statm_step:
  assumes "statm_ok S st" "s \<noteq> ossl_time_zero" "8 * unat s \<le> TMAX" "\<forall>x \<in> S. 8 * x \<le> TMAX"
  shows "statm_ok (insert (unat s) S) (ossl_statm_update_rtt st d s)"
proof -
  let ?S = "insert (unat s) S"
  define m where "m = (if s < min_rtt st then s else min_rtt st)"
  define a where "a = (if ossl_time_add m d \<le> s then ossl_time_subtract s d else s)"
  have S: "finite S" "S \<noteq> {}" "have_first_sample st" "unat (min_rtt st) = Min S"
    "Min S \<le> unat (smoothed_rtt st)" "unat (smoothed_rtt st) \<le> Max S"
    using assms(1) by (auto simp: statm_ok_def)
  have m: "unat m = Min ?S" "unat m \<le> unat s"
    using S(4) by (auto simp add: m_def word_less_nat_alt Min_insert [OF S(1,2)] min_def
      simp del: Min_gr_iff Min_less_iff Min_le_iff Min_ge_iff)
  have a: "Min ?S \<le> unat a" "unat a \<le> unat s"
    using adjusted_bounds [OF m(2) assms(3), of d] m(1) by (simp_all only: a_def)
  have M: "unat s \<le> Max ?S" "Max S \<le> Max ?S" "Max ?S \<in> ?S" "Min ?S \<le> Min S"
    using S(1,2) Max_in [of ?S] by (simp_all add: Min_insert)
  have "\<forall>x \<in> ?S. 8 * x \<le> TMAX"
    using assms(3,4) by simp
  then have "8 * Max ?S \<le> TMAX"
    using M(3) by blast
  then have "Min ?S \<le> min (min (unat (smoothed_rtt st) * 7) TMAX + unat a) TMAX div 8"
    "min (min (unat (smoothed_rtt st) * 7) TMAX + unat a) TMAX div 8 \<le> Max ?S"
    using S(5,6) M a
    by (intro smoothing_bounds [of "Min ?S" "unat (smoothed_rtt st)" "unat a" "Max ?S"]; linarith)+
  moreover have "smoothed_rtt (ossl_statm_update_rtt st d s)
      = ossl_time_divide (ossl_time_add (ossl_time_multiply (smoothed_rtt st) 7) a) 8"
    "min_rtt (ossl_statm_update_rtt st d s) = m" "latest_rtt (ossl_statm_update_rtt st d s) = s"
    "have_first_sample (ossl_statm_update_rtt st d s)"
    using assms(2) S(3) by (simp_all add: ossl_statm_update_rtt_def Let_def m_def a_def)
  ultimately show ?thesis
    unfolding statm_ok_def using S(1) m(1)
    by (simp only: unat_time_divide unat_time_add unat_time_multiply) simp
qed

lemma statm_samples:
  assumes "xs \<noteq> []" "\<forall>(d, s) \<in> set xs. s \<noteq> ossl_time_zero \<and> 8 * unat s \<le> TMAX"
  shows "statm_ok ((unat \<circ> snd) ` set xs) (foldl (\<lambda>st (d, s). ossl_statm_update_rtt st d s) ossl_statm_init xs)"
  using assms
proof (induction xs rule: rev_nonempty_induct)
  case (single x)
  then show ?case
    by (cases x) (auto intro: statm_first simp: ossl_statm_init_def)
next
  case (snoc x xs)
  obtain d s where x: "x = (d, s)"
    by (cases x)
  have "statm_ok ((unat \<circ> snd) ` set xs) (foldl (\<lambda>st (d, s). ossl_statm_update_rtt st d s) ossl_statm_init xs)"
    using snoc by auto
  from statm_step [OF this, of s d] show ?case
    using snoc.prems by (force simp: x)
qed

section \<open>Conversion to \<open>struct timeval\<close>\<close>

lemma div_mod_micro: "(w :: nat) div 1000000000 * 1000000000 + w mod 1000000000 div 1000 * 1000 = w div 1000 * 1000"
proof -
  have "w div 1000000000 = w div 1000 div 1000000" "w mod 1000000000 div 1000 = w div 1000 mod 1000000"
    using div_mult2_eq [of w 1000 1000000] mod_mult2_eq [of w 1000 1000000] by simp_all
  then show ?thesis
    using arg_cong [where f = "\<lambda>x. x * 1000", OF div_mult_mod_eq [of "w div 1000" 1000000]]
    by (simp only: add_mult_distrib mult.assoc)
qed

lemma micro_word:
  "unat (w div 1000000000 * 1000000000 + w mod 1000000000 div 1000 * 1000 :: u64) = unat w div 1000 * 1000"
proof -
  let ?x = "w div 1000000000 * 1000000000" and ?y = "w mod 1000000000 div 1000 * 1000"
  have x: "unat ?x = unat w div 1000000000 * 1000000000"
    using unat_le_TMAX [of w] by (subst unat_mul64) (simp_all add: unat_div_distrib)
  have y: "unat ?y = unat w mod 1000000000 div 1000 * 1000"
    using unat_le_TMAX [of w] by (subst unat_mul64) (simp_all add: unat_div_distrib unat_mod_distrib)
  have "unat ?x + unat ?y = unat w div 1000 * 1000"
    unfolding x y div_mod_micro ..
  moreover have "unat w div 1000 * 1000 \<le> TMAX"
    using unat_le_TMAX [of w] by linarith
  ultimately show ?thesis
    using unat_add64 [of ?x ?y] by simp
qed

lemma timeval_round: "unat (ossl_time_from_timeval (ossl_time_to_timeval a)) = min (unat a + 999) TMAX div 1000 * 1000"
proof -
  define w where "w = (if TMAX < unat a + 999 then ossl_time_infinite else a + 999)"
  have "unat w = min (unat a + 999) TMAX"
    using unat_add64 [of a 999] by (simp add: w_def unat_infinite)
  moreover have "ossl_time_from_timeval (ossl_time_to_timeval a) =
      w div 1000000000 * 1000000000 + w mod 1000000000 div 1000 * 1000"
    by (simp add: ossl_time_from_timeval_def ossl_time_to_timeval_def safe_add_time_eq
      OSSL_TIME_SECOND_def OSSL_TIME_US_def OSSL_TIME_MS_def w_def Let_def not_less)
  ultimately show ?thesis
    using micro_word [of w] by simp
qed

section \<open>Properties\<close>

text \<open>
  C26: time arithmetic saturates. Sum, difference and product are the exact values clipped to the
  range of a time, a quotient is rounded down and is zero for a zero divisor, and a time converted
  to a \<open>struct timeval\<close> and back is rounded up to the microsecond, so that no pending time becomes zero.
  \<open>ossl_time_muldiv\<close> is exact when it does not overflow, but an overflow gives the smallest time and
  not the largest.
\<close>

theorem ossl_time_saturating:
  "unat (ossl_time_add a b) = min (unat a + unat b) TMAX \<and>
   unat (ossl_time_subtract a b) = unat a - unat b \<and>
   unat (ossl_time_multiply a b) = min (unat a * unat b) TMAX \<and>
   unat (ossl_time_divide a b) = unat a div unat b \<and>
   unat (ossl_time_abs_difference a b) = (unat a - unat b) + (unat b - unat a) \<and>
   (ossl_time_muldiv a b c = ossl_time_zero \<or>
      unat (ossl_time_muldiv a b c) = unat a * unat b div unat c) \<and>
   ossl_time_muldiv ossl_time_infinite 2 1 = ossl_time_zero \<and>
   unat (ossl_time_from_timeval (ossl_time_to_timeval a)) = min (unat a + 999) TMAX div 1000 * 1000"
  by (intro conjI unat_time_add unat_time_subtract unat_time_multiply unat_time_divide unat_time_diff
      unat_muldiv muldiv_overflow timeval_round)

text \<open>
  C27: the round-trip estimate stays within the samples. After any non-empty sequence of RTT
  samples, each below an eighth of the range of a time, the minimum is the least sample and the
  smoothed estimate lies between the least and the greatest, whatever acknowledgement delays the
  peer reports.
\<close>

theorem statm_within_samples:
  assumes "xs \<noteq> []" "\<forall>(d, s) \<in> set xs. s \<noteq> ossl_time_zero \<and> 8 * unat s \<le> TMAX"
  defines "st \<equiv> foldl (\<lambda>st (d, s). ossl_statm_update_rtt st d s) ossl_statm_init xs"
  defines "samples \<equiv> unat ` snd ` set xs"
  shows "unat (min_rtt st) = Min samples \<and> Min samples \<le> unat (smoothed_rtt st) \<and>
    unat (smoothed_rtt st) \<le> Max samples \<and> unat (latest_rtt st) \<in> samples"
  using statm_samples [OF assms(1,2)] by (simp add: statm_ok_def st_def samples_def image_comp)

theorem statm_within_samples_witness:
  "unat (min_rtt (foldl (\<lambda>st (d, s). ossl_statm_update_rtt st d s) ossl_statm_init [(5, 100), (50, 60)])) = 60 \<and>
   60 \<le> unat (smoothed_rtt (foldl (\<lambda>st (d, s). ossl_statm_update_rtt st d s) ossl_statm_init [(5, 100), (50, 60)]))"
  using statm_within_samples [of "[(5, 100), (50, 60)]"]
  by (simp add: ossl_time_zero_def ossl_ticks2time_def)

end
