(* ===== verification/Uint_Set.thy ===== *)
theory Uint_Set
  imports Prelude
begin

text \<open>
  Sets of unsigned 64-bit integers kept as a list of ranges: \<open>ssl/quic/uint_set.c\<close> and
  \<open>include/internal/uint_set.h\<close>. The doubly linked list of the source is the list of its ranges
  from head to tail. A walk from the tail to the head keeps the part it has not seen yet in
  reverse, the item under the cursor first, and the part behind the cursor in order.
\<close>

section \<open>Data\<close>

record uint_range =
  ur_start :: u64
  ur_end :: u64

type_synonym uint_set = "uint_range list"

text \<open>\<open>UINT_SET_ITEM\<close>: the two links of the list member and the range.\<close>

definition sizeof_uint_set_item :: nat where
  "sizeof_uint_set_item = 32"

section \<open>Operations\<close>

definition ossl_uint_set_init :: uint_set where
  "ossl_uint_set_init = []"

text \<open>
  \<open>uint_set_merge_adjacent\<close>: \<open>prevs\<close> are the items before \<open>x\<close>, the nearest first, and \<open>nexts\<close> those
  after it.
\<close>

definition uint_set_merge_adjacent ::
    "uint_range list \<Rightarrow> uint_range \<Rightarrow> uint_range list \<Rightarrow> uint_set" where
  "uint_set_merge_adjacent prevs x nexts =
     (case prevs of
        [] \<Rightarrow> x # nexts
      | xprev # ps \<Rightarrow>
          if ur_start x - 1 \<noteq> ur_end xprev then rev prevs @ x # nexts
          else rev ps @ x\<lparr>ur_start := ur_start xprev\<rparr> # nexts)"

definition u64_min :: "u64 \<Rightarrow> u64 \<Rightarrow> u64" where
  "u64_min x y = (if x < y then x else y)"

definition u64_max :: "u64 \<Rightarrow> u64 \<Rightarrow> u64" where
  "u64_max x y = (if x > y then x else y)"

definition uint_range_overlaps :: "uint_range \<Rightarrow> uint_range \<Rightarrow> bool" where
  "uint_range_overlaps a b \<longleftrightarrow>
     u64_min (ur_end a) (ur_end b) \<ge> u64_max (ur_start a) (ur_start b)"

definition create_set_item :: "allocator \<Rightarrow> u64 \<Rightarrow> u64 \<Rightarrow> uint_range option" where
  "create_set_item al s e =
     (if al sizeof_uint_set_item then Some \<lparr>ur_start = s, ur_end = e\<rparr> else None)"

text \<open>
  The inner loop of the overlapping case: the earliest item that overlaps the range, and what is
  before it.
\<close>

fun overlap_run :: "uint_range \<Rightarrow> uint_range \<Rightarrow> uint_range list \<Rightarrow> uint_range \<times> uint_range list" where
  "overlap_run rg z [] = (z, [])"
| "overlap_run rg z (zprev # prevs) =
     (if uint_range_overlaps zprev rg then overlap_run rg zprev prevs
      else (z, zprev # prevs))"

text \<open>
  The backward walk of \<open>ossl_uint_set_insert\<close>. The first list is the cursor \<open>z\<close> and the items
  before it; the result is the value returned and the set left behind.
\<close>

fun insert_walk ::
    "allocator \<Rightarrow> uint_range \<Rightarrow> uint_range list \<Rightarrow> uint_range list \<Rightarrow> bool \<times> uint_set" where
  "insert_walk al rg [] nexts = (True, nexts)"
| "insert_walk al rg (z # prevs) nexts =
     (if ur_start z \<le> ur_start rg \<and> ur_end z \<ge> ur_end rg then
        (True, rev (z # prevs) @ nexts)
      else if uint_range_overlaps z rg then
        (let ovend_end = u64_max (ur_end rg) (ur_end z);
             (first, before) = overlap_run rg z prevs
         in (True, rev before @
               \<lparr>ur_start = u64_min (ur_start rg) (ur_start first), ur_end = ovend_end\<rparr> # nexts))
      else if ur_end rg < ur_start z \<and>
              (case prevs of [] \<Rightarrow> True | zprev # _ \<Rightarrow> ur_start rg > ur_end zprev) then
        (if ur_start z = ur_end rg + 1 then
           (True, uint_set_merge_adjacent prevs (z\<lparr>ur_start := ur_start rg\<rparr>) nexts)
         else if (case prevs of [] \<Rightarrow> False | zprev # _ \<Rightarrow> ur_end zprev + 1 = ur_start rg) then
           (True, uint_set_merge_adjacent ((hd prevs)\<lparr>ur_end := ur_end rg\<rparr> # tl prevs) z nexts)
         else
           (case create_set_item al (ur_start rg) (ur_end rg) of
              None \<Rightarrow> (False, rev (z # prevs) @ nexts)
            | Some x \<Rightarrow> (True, rev prevs @ x # z # nexts)))
      else insert_walk al rg prevs (z # nexts))"

definition ossl_uint_set_insert :: "allocator \<Rightarrow> uint_set \<Rightarrow> uint_range \<Rightarrow> bool \<times> uint_set" where
  "ossl_uint_set_insert al s rg =
     (if \<not> ur_start rg \<le> ur_end rg then (False, s)
      else if s = [] then
        (case create_set_item al (ur_start rg) (ur_end rg) of
           None \<Rightarrow> (False, s) | Some x \<Rightarrow> (True, [x]))
      else if ur_start rg > ur_end (last s) then
        (if ur_end (last s) + 1 = ur_start rg then
           (True, butlast s @ [(last s)\<lparr>ur_end := ur_end rg\<rparr>])
         else
           (case create_set_item al (ur_start rg) (ur_end rg) of
              None \<Rightarrow> (False, s) | Some x \<Rightarrow> (True, s @ [x])))
      else if ur_start rg \<le> ur_start (hd s) \<and> ur_end rg \<ge> ur_end (last s) then
        (True, [\<lparr>ur_start = ur_start rg, ur_end = ur_end rg\<rparr>])
      else if ur_end rg < ur_start (hd s) then insert_walk al rg [hd s] (tl s)
      else insert_walk al rg (rev s) [])"

text \<open>The backward walk of \<open>ossl_uint_set_remove\<close>.\<close>

fun remove_walk ::
    "allocator \<Rightarrow> uint_range \<Rightarrow> uint_range list \<Rightarrow> uint_range list \<Rightarrow> bool \<times> uint_set" where
  "remove_walk al rg [] nexts = (True, nexts)"
| "remove_walk al rg (z # prevs) nexts =
     (if ur_start rg > ur_end z then (True, rev (z # prevs) @ nexts)
      else if ur_start rg \<le> ur_start z \<and> ur_end rg \<ge> ur_end z then
        remove_walk al rg prevs nexts
      else if ur_start rg \<le> ur_start z \<and> ur_end rg \<ge> ur_start z then
        remove_walk al rg prevs (z\<lparr>ur_start := ur_end rg + 1\<rparr> # nexts)
      else if ur_end rg \<ge> ur_end z then
        (True, rev prevs @ z\<lparr>ur_end := ur_start rg - 1\<rparr> # nexts)
      else if ur_start rg > ur_start z \<and> ur_end rg < ur_end z then
        (case create_set_item al (ur_end rg + 1) (ur_end z) of
           None \<Rightarrow> (False, rev (z # prevs) @ nexts)
         | Some y \<Rightarrow> (True, rev prevs @ z\<lparr>ur_end := ur_start rg - 1\<rparr> # y # nexts))
      else remove_walk al rg prevs (z # nexts))"

definition ossl_uint_set_remove :: "allocator \<Rightarrow> uint_set \<Rightarrow> uint_range \<Rightarrow> bool \<times> uint_set" where
  "ossl_uint_set_remove al s rg =
     (if \<not> ur_start rg \<le> ur_end rg then (False, s)
      else remove_walk al rg (rev s) [])"

fun query_walk :: "uint_range list \<Rightarrow> u64 \<Rightarrow> bool" where
  "query_walk [] v = False"
| "query_walk (x # prevs) v =
     (if ur_start x \<le> v \<and> ur_end x \<ge> v then True
      else if ur_end x < v then False
      else query_walk prevs v)"

definition ossl_uint_set_query :: "uint_set \<Rightarrow> u64 \<Rightarrow> bool" where
  "ossl_uint_set_query s v = (if s = [] then False else query_walk (rev s) v)"

section \<open>Specification\<close>

definition range_set :: "uint_range \<Rightarrow> u64 set" where
  "range_set r = {ur_start r..ur_end r}"

definition uint_set_abs :: "uint_set \<Rightarrow> u64 set" where
  "uint_set_abs s = \<Union> (range_set ` set s)"

text \<open>
  The invariants the source states and keeps: no range is empty, and the ranges are in ascending
  order and do not overlap.
\<close>

definition uint_set_ok :: "uint_set \<Rightarrow> bool" where
  "uint_set_ok s \<longleftrightarrow>
     (\<forall>r \<in> set s. ur_start r \<le> ur_end r) \<and> sorted_wrt (\<lambda>a b. ur_end a < ur_start b) s"

text \<open>
  The further invariant the source states: no two adjacent ranges border one another.
\<close>

definition uint_set_gaps :: "uint_set \<Rightarrow> bool" where
  "uint_set_gaps s \<longleftrightarrow> sorted_wrt (\<lambda>a b. unat (ur_end a) + 1 < unat (ur_start b)) s"

section \<open>Orders on words\<close>

lemma word_inc: "(a :: u64) < b \<Longrightarrow> unat (a + 1) = unat a + 1"
proof -
  assume "a < b"
  then have "a \<noteq> - 1"
    using word_n1_ge [of b] by auto
  then have "1 + a \<noteq> 0"
    by (metis add_eq_0_iff)
  then show ?thesis
    using unatSuc [of a] by (simp add: add.commute)
qed

lemma word_dec: "(a :: u64) < b \<Longrightarrow> unat (b - 1) = unat b - 1"
  by (simp add: word_less_nat_alt unat_sub_if')

lemma word_inc_le: "(a :: u64) < b \<Longrightarrow> a + 1 \<le> x \<longleftrightarrow> a < x"
  by (simp add: word_inc word_le_nat_alt word_less_nat_alt Suc_le_eq)

lemma word_le_dec: "(a :: u64) < b \<Longrightarrow> x \<le> b - 1 \<longleftrightarrow> x < b"
  by (auto simp: word_dec word_le_nat_alt word_less_nat_alt)

lemma word_dec_eq: "(a :: u64) < b \<Longrightarrow> b - 1 = a \<longleftrightarrow> a + 1 = b"
  by auto

lemma word_less_inc: "(a :: u64) < b \<Longrightarrow> x < a + 1 \<longleftrightarrow> x \<le> a"
  by (simp add: word_inc word_le_nat_alt word_less_nat_alt less_Suc_eq_le)

lemma word_dec_less: "(a :: u64) < b \<Longrightarrow> b - 1 < x \<longleftrightarrow> b \<le> x"
  by (auto simp: word_dec word_le_nat_alt word_less_nat_alt)

lemma word_le_inc: "\<lbrakk>(a :: u64) < b; x \<le> a\<rbrakk> \<Longrightarrow> x \<le> a + 1"
  by (metis less_imp_le word_less_inc)

lemma word_dec_le: "\<lbrakk>(a :: u64) < b; b \<le> x\<rbrakk> \<Longrightarrow> b - 1 \<le> x"
  by (metis less_imp_le word_dec_less)

lemmas word_steps = word_inc_le word_le_dec word_dec_eq word_less_inc word_dec_less word_le_inc
  word_dec_le

section \<open>Order and membership\<close>

lemma uint_set_abs_simps [simp]:
  "uint_set_abs [] = {}"
  "uint_set_abs (r # s) = range_set r \<union> uint_set_abs s"
  "uint_set_abs (s @ t) = uint_set_abs s \<union> uint_set_abs t"
  "uint_set_abs (rev s) = uint_set_abs s"
  by (auto simp: uint_set_abs_def)

lemma range_set_iff [simp]: "v \<in> range_set r \<longleftrightarrow> ur_start r \<le> v \<and> v \<le> ur_end r"
  by (simp add: range_set_def)

lemma uint_set_ok_Nil [simp]: "uint_set_ok []"
  by (simp add: uint_set_ok_def)

lemma uint_set_ok_Cons:
  "uint_set_ok (r # s) \<longleftrightarrow>
     ur_start r \<le> ur_end r \<and> (\<forall>b \<in> set s. ur_end r < ur_start b) \<and> uint_set_ok s"
  by (auto simp: uint_set_ok_def)

lemma uint_set_ok_append:
  "uint_set_ok (s @ t) \<longleftrightarrow>
     uint_set_ok s \<and> uint_set_ok t \<and> (\<forall>a \<in> set s. \<forall>b \<in> set t. ur_end a < ur_start b)"
  by (auto simp: uint_set_ok_def sorted_wrt_append)

lemmas uint_set_ok_simps = uint_set_ok_Cons uint_set_ok_append

lemma overlaps_iff:
  "\<lbrakk>ur_start a \<le> ur_end a; ur_start b \<le> ur_end b\<rbrakk> \<Longrightarrow>
     uint_range_overlaps a b \<longleftrightarrow> ur_start a \<le> ur_end b \<and> ur_start b \<le> ur_end a"
  by (auto simp: uint_range_overlaps_def u64_min_def u64_max_def)

lemma query_walk_eq:
  "uint_set_ok (rev zs) \<Longrightarrow> query_walk zs v \<longleftrightarrow> v \<in> uint_set_abs zs"
proof (induction zs)
  case (Cons z zs)
  have "v \<notin> uint_set_abs zs" if "ur_end z < v"
    using Cons.prems that by (fastforce simp: uint_set_abs_def uint_set_ok_simps)
  with Cons show ?case
    by (auto simp: uint_set_ok_simps)
qed simp

text \<open>What the list order says about the cursor and the two parts of the walk.\<close>

lemma cursor_ok:
  assumes "uint_set_ok (rev (z # zs) @ nexts)"
  shows "ur_start z \<le> ur_end z" "uint_set_ok (rev zs @ nexts)" "uint_set_ok (rev zs)" "uint_set_ok nexts"
    "\<And>a. a \<in> set zs \<Longrightarrow> ur_end a < ur_start z" "\<And>b. b \<in> set nexts \<Longrightarrow> ur_end z < ur_start b"
    "\<And>v. v \<in> uint_set_abs zs \<Longrightarrow> v < ur_start z" "\<And>v. v \<in> uint_set_abs nexts \<Longrightarrow> ur_end z < v"
    "\<And>a b. \<lbrakk>a \<in> set zs; b \<in> set nexts\<rbrakk> \<Longrightarrow> ur_end a < ur_start b"
  using assms by (fastforce simp: uint_set_ok_simps uint_set_abs_def)+

lemma replace_ok:
  assumes "uint_set_ok (rev (z # zs) @ nexts)" "\<forall>a \<in> set mid. ur_start z \<le> ur_start a \<and> ur_end a \<le> ur_end z"
    "uint_set_ok mid"
  shows "uint_set_ok (rev zs @ mid @ nexts)"
  using assms(2,3) cursor_ok [OF assms(1)]
  by (fastforce simp: uint_set_ok_simps)

lemma remove_walk_covers:
  "\<forall>a \<in> set zs. ur_end a \<le> ur_end r \<Longrightarrow> fst (remove_walk al r zs nexts)"
  by (induction zs arbitrary: nexts) auto

lemma remove_walk_spec:
  assumes "remove_walk al r zs nexts = (ok, s)" "uint_set_ok (rev zs @ nexts)" "ur_start r \<le> ur_end r"
    "\<forall>b \<in> set nexts. ur_end r < ur_start b"
  shows "uint_set_ok s \<and>
    (if ok then uint_set_abs s = (uint_set_abs zs \<union> uint_set_abs nexts) - range_set r
     else s = rev zs @ nexts)"
  using assms
proof (induction zs arbitrary: nexts)
  case Nil
  then show ?case
    by (fastforce simp: uint_set_abs_def)
next
  case (Cons z zs)
  note c = cursor_ok [OF Cons.prems(2)]
  have nexts: "\<And>v. v \<in> uint_set_abs nexts \<Longrightarrow> ur_end r < v"
    using Cons.prems(4) by (fastforce simp: uint_set_abs_def)
  then have behind_r: "uint_set_abs nexts \<inter> range_set r = {}"
    by fastforce
  have behind: "fst (remove_walk al r zs nexts')" if "ur_start z \<le> ur_end r" for nexts'
    using that by (intro remove_walk_covers) (fastforce dest: c(5))
  consider "ur_start r > ur_end z"
    | "ur_start r \<le> ur_start z" "ur_end r \<ge> ur_end z"
    | "ur_start r \<le> ur_start z" "ur_end r \<ge> ur_start z" "ur_end r < ur_end z"
    | "ur_start r > ur_start z" "ur_start r \<le> ur_end z" "ur_end r \<ge> ur_end z"
    | "ur_start r > ur_start z" "ur_end r < ur_end z"
    | "ur_end r < ur_start z"
    by fastforce
  then show ?case
  proof cases
    case 1
    then have "s = rev (z # zs) @ nexts" ok
      using Cons.prems(1) by auto
    moreover have "\<And>v. v \<in> uint_set_abs zs \<Longrightarrow> v < ur_start r"
      using 1 c(1) by (fastforce dest: c(7))
    ultimately show ?thesis
      using Cons.prems(2) nexts 1 by fastforce
  next
    case 2
    then have e: "remove_walk al r zs nexts = (ok, s)"
      using Cons.prems(1) c(1) by (auto split: if_splits)
    then have ok
      using behind [of nexts] 2 c(1) by auto
    moreover have "range_set z - range_set r = {}"
      using 2 by auto
    ultimately show ?thesis
      using Cons.IH [OF e c(2) Cons.prems(3,4)] by (simp add: Un_Diff) blast
  next
    case 3
    let ?z = "z\<lparr>ur_start := ur_end r + 1\<rparr>"
    have e: "remove_walk al r zs (?z # nexts) = (ok, s)"
      using Cons.prems(1) 3 c(1) by (auto split: if_splits)
    then have ok
      using behind [of "?z # nexts"] 3 by auto
    moreover have "uint_set_ok (rev zs @ ?z # nexts)"
      using replace_ok [OF Cons.prems(2), of "[?z]"] 3 
      by (auto simp: uint_set_ok_simps word_steps)
    moreover have "range_set ?z = range_set z - range_set r"
      using 3 by (auto simp: word_steps)
    moreover have "range_set ?z \<inter> range_set r = {}"
      using 3 by (auto simp: word_steps)
    moreover have "ur_end r < ur_start ?z"
      using 3 by (simp add: word_steps)
    ultimately show ?thesis
      using Cons.IH [OF e _ Cons.prems(3)] Cons.prems(4) by (simp add: Un_Diff Diff_triv Un_ac)
  next
    case 4
    let ?z = "z\<lparr>ur_end := ur_start r - 1\<rparr>"
    have "s = rev zs @ ?z # nexts" ok
      using Cons.prems(1) 4 by (auto split: if_splits)
    moreover have "uint_set_ok (rev zs @ ?z # nexts)"
      using replace_ok [OF Cons.prems(2), of "[?z]"] 4
      by (auto simp: uint_set_ok_simps word_steps)
    moreover have "range_set ?z = range_set z - range_set r"
      using 4 by (auto simp: word_steps)
    moreover have "uint_set_abs zs \<inter> range_set r = {}"
      using 4 by (fastforce dest: c(7))
    ultimately show ?thesis
      using behind_r by (simp add: Un_Diff Diff_triv Un_ac)
  next
    case 5
    let ?z = "z\<lparr>ur_end := ur_start r - 1\<rparr>" and ?y = "\<lparr>ur_start = ur_end r + 1, ur_end = ur_end z\<rparr>"
    have e: "(ok, s) = (if al sizeof_uint_set_item then (True, rev zs @ ?z # ?y # nexts)
                     else (False, rev (z # zs) @ nexts))"
      using Cons.prems(1,3) 5 by (auto simp: create_set_item_def split: if_splits)
    have order: "ur_start r - 1 < ur_end r + 1"
      using Cons.prems(3) by (simp add: word_dec_less [OF 5(1)] word_le_inc [OF 5(2)])
    have "uint_set_ok (rev zs @ ?z # ?y # nexts)"
      using replace_ok [OF Cons.prems(2), of "[?z, ?y]"] 5 Cons.prems(3) order
      by (auto simp: uint_set_ok_simps word_steps)
    moreover have "range_set ?z \<union> range_set ?y = range_set z - range_set r"
      using 5 Cons.prems(3) by (auto simp: word_steps)
    moreover have "uint_set_abs zs \<inter> range_set r = {}"
      using 5 by (fastforce dest: c(7))
    ultimately show ?thesis
      using behind_r e Cons.prems(2) by (auto simp add: Un_Diff Diff_triv Un_ac split: if_splits)
  next
    case 6
    then have e: "remove_walk al r zs (z # nexts) = (ok, s)"
      using Cons.prems(1,3) c(1) by (auto split: if_splits)
    show ?thesis
      using 6 Cons.IH [OF e] Cons.prems c(1) by (simp add: Un_ac)
  qed
qed

lemma overlap_run_spec:
  assumes "overlap_run r z zs = (f, before)" "uint_set_ok (rev (z # zs))" "ur_start r \<le> ur_end r"
    "uint_range_overlaps z r"
  shows "uint_set_ok (rev before) \<and> ur_start f \<le> ur_start z \<and>
    (\<forall>a \<in> set before. a \<in> set zs \<and> ur_end a < u64_min (ur_start r) (ur_start f)) \<and>
    uint_set_abs (z # zs) \<union> range_set r =
       uint_set_abs before \<union> {u64_min (ur_start r) (ur_start f)..u64_max (ur_end r) (ur_end z)}"
  using assms
proof (induction zs arbitrary: z)
  case Nil
  then show ?case
    by (auto simp: uint_set_ok_simps overlaps_iff u64_min_def u64_max_def)
next
  case (Cons p zs)
  have z: "ur_start z \<le> ur_end z" "ur_start z \<le> ur_end r" "ur_start r \<le> ur_end z"
    and p: "ur_start p \<le> ur_end p" "ur_end p < ur_start z" "uint_set_ok (rev (p # zs))"
    using Cons.prems by (auto simp: uint_set_ok_simps overlaps_iff)
  show ?case
  proof (cases "uint_range_overlaps p r")
    case True
    let ?m = "u64_min (ur_start r) (ur_start f)"
    have IH: "uint_set_ok (rev before) \<and> ur_start f \<le> ur_start p \<and>
        (\<forall>a \<in> set before. a \<in> set zs \<and> ur_end a < ?m) \<and>
        uint_set_abs (p # zs) \<union> range_set r = uint_set_abs before \<union> {?m..u64_max (ur_end r) (ur_end p)}"
      by (rule Cons.IH) (use Cons.prems True p in simp_all)
    have "u64_max (ur_end r) (ur_end p) = ur_end r" "ur_start f \<le> ur_start z"
      using z p IH by (auto simp: u64_max_def)
    moreover have "range_set z \<union> {?m..ur_end r} = {?m..u64_max (ur_end r) (ur_end z)}"
      using z calculation(2) by (auto simp: u64_max_def u64_min_def)
    ultimately show ?thesis
      using IH by (simp add: Un_ac) blast
  next
    case False
    then have [simp]: "f = z" "before = p # zs"
      using Cons.prems(1) by auto
    have "ur_end p < ur_start r"
      using False z p Cons.prems(3) by (auto simp: overlaps_iff)
    moreover have "\<forall>a \<in> set zs. ur_end a < ur_start p"
      using p(3) by (auto simp: uint_set_ok_simps)
    moreover have "range_set z \<union> range_set r = {u64_min (ur_start r) (ur_start z)..u64_max (ur_end r) (ur_end z)}"
      using z Cons.prems(3) by (auto simp: u64_max_def u64_min_def)
    ultimately show ?thesis
      using p by (fastforce simp: u64_min_def Un_ac)
  qed
qed

lemma range_join:
  fixes a b c d :: u64
  assumes "a \<le> b" "b < c" "b + 1 = c" "c \<le> d"
  shows "{a..b} \<union> {c..d} = {a..d}"
proof (rule set_eqI)
  fix v
  have "c \<le> v \<longleftrightarrow> b < v"
    using word_inc_le [OF assms(2), of v] assms(3) by simp
  moreover have "b \<le> d" "a \<le> c"
    using assms by auto
  ultimately show "v \<in> {a..b} \<union> {c..d} \<longleftrightarrow> v \<in> {a..d}"
    using assms(1) by (cases "b < v") auto
qed

lemma merge_adjacent_spec:
  assumes "uint_set_ok (rev (x # prevs) @ nexts)"
  shows "uint_set_ok (uint_set_merge_adjacent prevs x nexts) \<and>
    uint_set_abs (uint_set_merge_adjacent prevs x nexts) =
      uint_set_abs prevs \<union> range_set x \<union> uint_set_abs nexts"
proof (cases prevs)
  case (Cons p ps)
  note c = cursor_ok [OF assms]
  show ?thesis
  proof (cases "ur_start x - 1 = ur_end p")
    case True
    have lt: "ur_end p < ur_start x" "ur_start p \<le> ur_end p"
      using assms Cons by (auto simp: uint_set_ok_simps)
    then have adj: "ur_end p + 1 = ur_start x"
      using True by (simp add: word_dec_eq)
    have "range_set (x\<lparr>ur_start := ur_start p\<rparr>) = range_set p \<union> range_set x"
      using range_join [OF lt(2,1) adj c(1)] by (simp add: range_set_def)
    moreover have "uint_set_ok (rev ps @ x\<lparr>ur_start := ur_start p\<rparr> # nexts)"
      using assms Cons lt c(1) by (auto simp: uint_set_ok_simps)
    ultimately show ?thesis
      using True by (simp add: uint_set_merge_adjacent_def Cons Un_ac)
  next
    case False
    then show ?thesis
      using assms by (simp add: uint_set_merge_adjacent_def Cons Un_ac)
  qed
qed (use assms in \<open>simp add: uint_set_merge_adjacent_def\<close>)

lemma range_eta [simp]: "\<lparr>ur_start = ur_start r, ur_end = ur_end r\<rparr> = (r :: uint_range)"
  by (cases r) simp

lemma insert_gap_spec:
  assumes e: "insert_walk al r (z # zs) nexts = (ok, s)" and w: "uint_set_ok (rev (z # zs) @ nexts)"
    and r: "ur_start r \<le> ur_end r" "ur_end r < ur_start z" "\<forall>p \<in> set zs. ur_end p < ur_start r"
  shows "uint_set_ok s \<and>
    (if ok then uint_set_abs s = uint_set_abs (z # zs) \<union> uint_set_abs nexts \<union> range_set r
     else s = rev (z # zs) @ nexts)"
proof -
  note c = cursor_ok [OF w]
  have gap: "\<not> (ur_start z \<le> ur_start r \<and> ur_end r \<le> ur_end z)" "\<not> uint_range_overlaps z r"
    "case zs of [] \<Rightarrow> True | zprev # _ \<Rightarrow> ur_start r > ur_end zprev"
    using r c(1) by (auto simp: overlaps_iff split: list.split)
  show ?thesis
  proof (cases "ur_start z = ur_end r + 1")
    case True
    let ?z = "z\<lparr>ur_start := ur_start r\<rparr>"
    have "uint_set_ok (rev (?z # zs) @ nexts)"
      using w r c(1) by (auto simp: uint_set_ok_simps)
    moreover have "range_set ?z = range_set z \<union> range_set r"
      using range_join [OF r(1,2) True [symmetric] c(1)] by (simp add: range_set_def Un_commute)
    ultimately show ?thesis
      using merge_adjacent_spec [of ?z zs nexts] e gap r(2) True by (auto simp: Un_ac)
  next
    case False
    show ?thesis
    proof (cases "case zs of [] \<Rightarrow> False | zprev # _ \<Rightarrow> ur_end zprev + 1 = ur_start r")
      case True
      then obtain p ps where zs: "zs = p # ps" and adj: "ur_end p + 1 = ur_start r"
        by (auto split: list.splits)
      let ?p = "p\<lparr>ur_end := ur_end r\<rparr>"
      have p: "ur_end p < ur_start r" "ur_start p \<le> ur_end p"
        using r w zs by (auto simp: uint_set_ok_simps)
      have "uint_set_ok (rev (z # ?p # ps) @ nexts)"
        using w r p by (auto simp: uint_set_ok_simps zs)
      moreover have "range_set ?p = range_set p \<union> range_set r"
        using range_join [OF p(2,1) adj r(1)] by (simp add: range_set_def)
      ultimately show ?thesis
        using merge_adjacent_spec [of z "?p # ps" nexts] e gap r(2) adj False by (simp add: zs Un_ac)
    next
      case no: False
      have "ur_end r < ur_start b" if "b \<in> set nexts" for b
        using r(2) c(1) c(6) [OF that] by auto
      then have "uint_set_ok (rev zs @ r # z # nexts)"
        using w r by (auto simp: uint_set_ok_simps)
      moreover have "(ok, s) = (if al sizeof_uint_set_item then (True, rev zs @ r # z # nexts)
                       else (False, rev (z # zs) @ nexts))"
        using e gap r(2) False no by (auto simp add: create_set_item_def split: if_splits)
      ultimately show ?thesis
        using w by (simp add: Un_ac split: if_splits)
    qed
  qed
qed

lemma insert_walk_spec:
  assumes "insert_walk al r zs nexts = (ok, s)" "uint_set_ok (rev zs @ nexts)" "ur_start r \<le> ur_end r"
    "\<forall>b \<in> set nexts. ur_end r < ur_start b" "zs \<noteq> []" "ur_start r \<le> ur_end (hd zs)"
  shows "uint_set_ok s \<and>
    (if ok then uint_set_abs s = uint_set_abs zs \<union> uint_set_abs nexts \<union> range_set r
     else s = rev zs @ nexts)"
  using assms
proof (induction zs arbitrary: nexts)
  case (Cons z zs)
  note c = cursor_ok [OF Cons.prems(2)]
  show ?case
  proof (cases "ur_start z \<le> ur_start r \<and> ur_end r \<le> ur_end z")
    case True
    then have "range_set r \<subseteq> range_set z"
      by auto
    then have "uint_set_abs (z # zs) \<union> uint_set_abs nexts \<union> range_set r
        = uint_set_abs (z # zs) \<union> uint_set_abs nexts"
      unfolding uint_set_abs_simps by blast
    moreover have "s = rev (z # zs) @ nexts" ok
      using Cons.prems(1) True by auto
    ultimately show ?thesis
      using Cons.prems(2) by (simp add: Un_ac)
  next
    case dwarf: False
    show ?thesis
    proof (cases "uint_range_overlaps z r")
      case True
      obtain f before where o: "overlap_run r z zs = (f, before)"
        by (cases "overlap_run r z zs")
      have "uint_set_ok (rev (z # zs))"
        using Cons.prems(2) by (simp add: uint_set_ok_simps)
      note run = overlap_run_spec [OF o this Cons.prems(3) True]
      let ?x = "\<lparr>ur_start = u64_min (ur_start r) (ur_start f), ur_end = u64_max (ur_end r) (ur_end z)\<rparr>"
      have s: "ok" "s = rev before @ ?x # nexts"
        using Cons.prems(1) dwarf True o by (auto simp: Let_def)
      have "u64_min (ur_start r) (ur_start f) \<le> u64_max (ur_end r) (ur_end z)"
        using run c(1) by (auto simp: u64_min_def u64_max_def)
      moreover have "u64_max (ur_end r) (ur_end z) < ur_start b" if "b \<in> set nexts" for b
        using Cons.prems(4) c(6) that by (simp add: u64_max_def)
      ultimately have "uint_set_ok s"
        using run c(4,9) by (auto simp: s uint_set_ok_simps)
      then show ?thesis
        using run s by (simp add: Un_ac range_set_def)
    next
      case no: False
      then have lt: "ur_end r < ur_start z"
        using Cons.prems(3,6) c(1) by (auto simp: overlaps_iff)
      show ?thesis
      proof (cases "case zs of [] \<Rightarrow> True | zprev # _ \<Rightarrow> ur_start r > ur_end zprev")
        case True
        have "\<forall>p \<in> set zs. ur_end p < ur_start r"
          using True c(3) by (cases zs) (fastforce simp: uint_set_ok_simps)+
        then show ?thesis
          by (rule insert_gap_spec [OF Cons.prems(1-3) lt])
      next
        case False
        have e: "insert_walk al r zs (z # nexts) = (ok, s)"
          using Cons.prems(1) dwarf no False by auto
        have "zs \<noteq> []" "ur_start r \<le> ur_end (hd zs)"
          using False by (auto split: list.splits)
        then show ?thesis
          using Cons.IH [OF e] Cons.prems(2-4) lt by (simp add: Un_ac)
      qed
    qed
  qed
qed simp

lemma last_cursor: "s \<noteq> [] \<Longrightarrow> rev s = last s # rev (butlast s)"
  by (cases s rule: rev_cases) simp_all

lemma ossl_uint_set_insert_spec:
  assumes "ossl_uint_set_insert al s r = (ok, s')" "uint_set_ok s" "ur_start r \<le> ur_end r"
  shows "uint_set_ok s' \<and> (if ok then uint_set_abs s' = uint_set_abs s \<union> range_set r else s' = s)"
proof (cases s rule: rev_cases)
  case Nil
  then show ?thesis
    using assms by (auto simp: ossl_uint_set_insert_def create_set_item_def uint_set_ok_Cons split: if_splits)
next
  case (snoc bs z)
  have z: "ur_start z \<le> ur_end z" "\<forall>a \<in> set bs. ur_end a < ur_start z" "uint_set_ok bs"
    using assms(2) snoc by (auto simp: uint_set_ok_simps)
  consider "ur_end z < ur_start r" "ur_end z + 1 = ur_start r"
    | "ur_end z < ur_start r" "ur_end z + 1 \<noteq> ur_start r"
    | "ur_start r \<le> ur_end z" "ur_start r \<le> ur_start (hd s)" "ur_end z \<le> ur_end r"
    | "ur_start r \<le> ur_end z" "\<not> (ur_start r \<le> ur_start (hd s) \<and> ur_end z \<le> ur_end r)"
      "ur_end r < ur_start (hd s)"
    | "ur_start r \<le> ur_end z" "\<not> (ur_start r \<le> ur_start (hd s) \<and> ur_end z \<le> ur_end r)"
      "\<not> ur_end r < ur_start (hd s)"
    by fastforce
  then show ?thesis
  proof cases
    case 1
    let ?z = "z\<lparr>ur_end := ur_end r\<rparr>"
    have "s' = bs @ [?z]" ok
      using 1 assms snoc by (auto simp: ossl_uint_set_insert_def)
    moreover have "range_set ?z = range_set z \<union> range_set r"
      using range_join [OF z(1) 1 assms(3)] by (simp add: range_set_def)
    moreover have "uint_set_ok (bs @ [?z])"
      using z 1 assms(3) by (auto simp: uint_set_ok_simps)
    ultimately show ?thesis
      by (simp add: snoc Un_ac)
  next
    case 2
    then have "(ok, s') = (if al sizeof_uint_set_item then (True, s @ [r]) else (False, s))"
      using assms snoc by (auto simp: ossl_uint_set_insert_def create_set_item_def split: if_splits)
    moreover have "uint_set_ok (s @ [r])"
      using 2 z assms(2,3) by (fastforce simp: uint_set_ok_simps snoc)
    ultimately show ?thesis
      using assms(2) by (simp split: if_splits)
  next
    case 3
    have s: "s = hd s # tl s"
      using snoc by simp
    have "ur_start (hd s) \<le> ur_end (hd s)" "\<forall>b \<in> set (tl s). ur_end (hd s) < ur_start b"
      using assms(2) by (subst (asm) s, simp add: uint_set_ok_Cons)+
    then have "ur_start (hd s) \<le> ur_start a" if "a \<in> set s" for a
      using that by (subst (asm) s) fastforce
    moreover have "ur_end a \<le> ur_end z" if "a \<in> set s" for a
      using that snoc z by fastforce
    ultimately have "uint_set_abs s \<subseteq> range_set r"
      using 3 by (fastforce simp: uint_set_abs_def)
    then have "uint_set_abs s \<union> range_set r = range_set r"
      by blast
    moreover have "s' = [r]" ok
      using 3 assms snoc by (auto simp: ossl_uint_set_insert_def split: if_splits)
    ultimately show ?thesis
      using assms(3) by (simp add: uint_set_ok_Cons)
  next
    case 4
    then have e: "insert_walk al r [hd s] (tl s) = (ok, s')"
      using assms snoc by (auto simp: ossl_uint_set_insert_def split: if_splits)
    have s: "s = hd s # tl s"
      using snoc by simp
    have hd: "ur_start (hd s) \<le> ur_end (hd s)" "\<forall>b \<in> set (tl s). ur_end (hd s) < ur_start b"
      using assms(2) by (subst (asm) s, simp add: uint_set_ok_Cons)+
    have "uint_set_ok s' \<and> (if ok then uint_set_abs s' = uint_set_abs [hd s] \<union> uint_set_abs (tl s) \<union> range_set r
        else s' = rev [hd s] @ tl s)"
      using assms(2,3) s 4 hd by (intro insert_walk_spec [OF e]) fastforce+
    then show ?thesis
      by (metis append_Cons append_Nil rev_singleton_conv s uint_set_abs_simps(3))
  next
    case 5
    then have e: "insert_walk al r (rev s) [] = (ok, s')"
      using assms snoc by (auto simp: ossl_uint_set_insert_def split: if_splits)
    show ?thesis
      using insert_walk_spec [OF e] assms 5 snoc by (simp add: Un_ac)
  qed
qed

lemma ossl_uint_set_remove_spec:
  assumes "ossl_uint_set_remove al s r = (ok, s')" "uint_set_ok s" "ur_start r \<le> ur_end r"
  shows "uint_set_ok s' \<and> (if ok then uint_set_abs s' = uint_set_abs s - range_set r else s' = s)"
  using remove_walk_spec [of al r "rev s" "[]" ok s'] assms by (simp add: ossl_uint_set_remove_def)

lemma ossl_uint_set_query_spec: "uint_set_ok s \<Longrightarrow> ossl_uint_set_query s v \<longleftrightarrow> v \<in> uint_set_abs s"
  using query_walk_eq [of "rev s" v] by (simp add: ossl_uint_set_query_def)

section \<open>Gaps between the ranges\<close>

lemma uint_set_gaps_simps:
  "uint_set_gaps []"
  "uint_set_gaps (r # s) \<longleftrightarrow> (\<forall>b \<in> set s. unat (ur_end r) + 1 < unat (ur_start b)) \<and> uint_set_gaps s"
  "uint_set_gaps (s @ t) \<longleftrightarrow> uint_set_gaps s \<and> uint_set_gaps t \<and>
     (\<forall>a \<in> set s. \<forall>b \<in> set t. unat (ur_end a) + 1 < unat (ur_start b))"
  by (auto simp: uint_set_gaps_def sorted_wrt_append)

lemma remove_walk_gaps:
  assumes "uint_set_gaps (rev zs @ nexts)" "ur_start r \<le> ur_end r"
  shows "uint_set_gaps (snd (remove_walk al r zs nexts))"
  using assms(1)
proof (induction zs arbitrary: nexts)
  case (Cons z zs)
  have "uint_set_gaps (rev zs @ z\<lparr>ur_end := ur_start r - 1\<rparr> # nexts)" if "ur_start z < ur_start r" "ur_start r \<le> ur_end z"
    using Cons.prems that by (fastforce simp: uint_set_gaps_simps word_dec word_le_nat_alt)
  moreover have "uint_set_gaps (rev zs @ z\<lparr>ur_start := ur_end r + 1\<rparr> # nexts)" if "ur_start z \<le> ur_end r" "ur_end r < ur_end z"
    using Cons.prems that by (fastforce simp: uint_set_gaps_simps word_inc word_le_nat_alt)
  moreover have "uint_set_gaps (rev zs @ z\<lparr>ur_end := ur_start r - 1\<rparr> #
      \<lparr>ur_start = ur_end r + 1, ur_end = ur_end z\<rparr> # nexts)" if "ur_start z < ur_start r" "ur_end r < ur_end z"
    using Cons.prems that assms(2)
    by (fastforce simp: uint_set_gaps_simps word_inc word_dec word_le_nat_alt word_less_nat_alt)
  moreover have "uint_set_gaps (rev zs @ nexts)"
    using Cons.prems by (auto simp: uint_set_gaps_simps)
  ultimately show ?case
    using Cons assms(2) by (auto simp: create_set_item_def not_less not_le)
qed simp

lemma insert_gap_gaps:
  assumes "uint_set_gaps (rev (z # zs) @ nexts)" "uint_set_ok (rev (z # zs) @ nexts)" "ur_start r = ur_end r"
    "ur_end r < ur_start z" "case zs of [] \<Rightarrow> True | p # _ \<Rightarrow> ur_end p < ur_start r"
  shows "uint_set_gaps (snd (insert_walk al r (z # zs) nexts))"
proof -
  have z: "ur_start z \<le> ur_end z" and nexts: "\<forall>b \<in> set nexts. unat (ur_end z) + 1 < unat (ur_start b)"
    using assms(1,2) by (auto simp: uint_set_ok_simps uint_set_gaps_simps)
  have no: "\<not> (ur_start z \<le> ur_start r \<and> ur_end r \<le> ur_end z)" "\<not> uint_range_overlaps z r"
    using assms(3,4) z by (auto simp: overlaps_iff)
  have inc: "unat (ur_end r + 1) = unat (ur_end r) + 1"
    by (rule word_inc [OF assms(4)])
  show ?thesis
  proof (cases zs)
    case Nil
    show ?thesis
      using assms no z nexts inc
      by (auto simp: Nil uint_set_merge_adjacent_def create_set_item_def uint_set_gaps_simps
          word_le_nat_alt word_less_nat_alt word_unat_eq_iff)
  next
    case (Cons p ps)
    have p: "ur_end p < ur_start r" "ur_start p \<le> ur_end p"
      using assms(2,5) by (auto simp: Cons uint_set_ok_simps)
    have ps: "\<forall>a \<in> set ps. unat (ur_end a) + 1 < unat (ur_start p)"
      using assms(1) by (auto simp: Cons uint_set_gaps_simps)
    have dec: "unat (ur_start r - 1) = unat (ur_start r) - 1" "unat (ur_end p + 1) = unat (ur_end p) + 1"
      "unat (ur_start z - 1) = unat (ur_start z) - 1"
      using word_dec [OF p(1)] word_inc [OF p(1)] word_dec [OF assms(4)] by auto
    note steps = word_dec_eq [OF p(1)] word_dec_eq [OF assms(4)]
    note facts = assms(1,3) no z nexts p ps inc dec
    consider "ur_start z = ur_end r + 1" "ur_end p + 1 = ur_start r"
      | "ur_start z = ur_end r + 1" "ur_end p + 1 \<noteq> ur_start r"
      | "ur_start z \<noteq> ur_end r + 1" "ur_end p + 1 = ur_start r"
      | "ur_start z \<noteq> ur_end r + 1" "ur_end p + 1 \<noteq> ur_start r"
      by blast
    then show ?thesis
    proof cases
      case 1
      then have "snd (insert_walk al r (z # zs) nexts) = rev ps @ z\<lparr>ur_start := ur_start p\<rparr> # nexts"
        using no p assms(4) by (auto simp: Cons uint_set_merge_adjacent_def steps)
      then show ?thesis
        using facts by (auto simp: Cons uint_set_gaps_simps)
    next
      case 2
      then have "snd (insert_walk al r (z # zs) nexts) = rev zs @ z\<lparr>ur_start := ur_start r\<rparr> # nexts"
        using no p assms(4) by (auto simp: Cons uint_set_merge_adjacent_def steps)
      moreover have "unat (ur_end p) + 1 < unat (ur_start r)"
        using p(1) 2(2) dec(2) by (metis Suc_eq_plus1 Suc_lessI word_less_nat_alt word_unat_eq_iff)
      ultimately show ?thesis
        using facts by (fastforce simp: Cons uint_set_gaps_simps word_le_nat_alt)
    next
      case 3
      then have "snd (insert_walk al r (z # zs) nexts) = rev ps @ p\<lparr>ur_end := ur_end r\<rparr> # z # nexts"
        using no p assms(4) by (auto simp: Cons uint_set_merge_adjacent_def steps)
      moreover have "unat (ur_end r) + 1 < unat (ur_start z)"
        using assms(4) 3(1) inc by (metis Suc_eq_plus1 Suc_lessI word_less_nat_alt word_unat_eq_iff)
      ultimately show ?thesis
        using facts by (fastforce simp: Cons uint_set_gaps_simps word_le_nat_alt)
    next
      case 4
      then have "snd (insert_walk al r (z # zs) nexts) \<in> {rev (z # zs) @ nexts, rev zs @ r # z # nexts}"
        using no p assms(4) by (auto simp: Cons create_set_item_def)
      moreover have "unat (ur_end p) + 1 < unat (ur_start r)" "unat (ur_end r) + 1 < unat (ur_start z)"
        using p(1) assms(4) 4 dec(2) inc
        by (metis Suc_eq_plus1 Suc_lessI word_less_nat_alt word_unat_eq_iff)+
      ultimately show ?thesis
        using facts by (fastforce simp: Cons uint_set_gaps_simps word_le_nat_alt)
    qed
  qed
qed

lemma insert_walk_gaps:
  assumes "uint_set_gaps (rev zs @ nexts)" "uint_set_ok (rev zs @ nexts)" "ur_start r = ur_end r"
    "\<forall>b \<in> set nexts. ur_end r < ur_start b" "zs \<noteq> []" "ur_start r \<le> ur_end (hd zs)"
  shows "uint_set_gaps (snd (insert_walk al r zs nexts))"
  using assms(1,2,4-)
proof (induction zs arbitrary: nexts)
  case (Cons z zs)
  have z: "ur_start z \<le> ur_end z"
    using Cons.prems by (auto simp: uint_set_ok_simps)
  consider "ur_start z \<le> ur_start r" "ur_end r \<le> ur_end z"
    | "ur_end r < ur_start z" "case zs of [] \<Rightarrow> True | p # _ \<Rightarrow> ur_end p < ur_start r"
    | "ur_end r < ur_start z" "\<not> (case zs of [] \<Rightarrow> True | p # _ \<Rightarrow> ur_end p < ur_start r)"
    using Cons.prems(5) assms(3) by fastforce
  then show ?case
  proof cases
    case 1
    then show ?thesis
      using Cons.prems(1) by simp
  next
    case 2
    then show ?thesis
      using insert_gap_gaps Cons.prems(1,2) assms(3) by blast
  next
    case 3
    then have "insert_walk al r (z # zs) nexts = insert_walk al r zs (z # nexts)"
      using z assms(3) by (auto simp: overlaps_iff)
    moreover have "zs \<noteq> []" "ur_start r \<le> ur_end (hd zs)"
      using 3 by (auto split: list.splits)
    ultimately show ?thesis
      using Cons.IH [of "z # nexts"] Cons.prems 3(1) by simp
  qed
qed simp

lemma insert_single_gaps:
  assumes "uint_set_gaps s" "uint_set_ok s" "ur_start r = ur_end r"
  shows "uint_set_gaps (snd (ossl_uint_set_insert al s r))"
proof (cases s rule: rev_cases)
  case Nil
  then show ?thesis
    by (simp add: ossl_uint_set_insert_def create_set_item_def uint_set_gaps_simps)
next
  case (snoc bs z)
  show ?thesis
  proof (cases "ur_end z < ur_start r")
    case True
    then have "unat (ur_end z) + 1 < unat (ur_start r)" if "ur_end z + 1 \<noteq> ur_start r"
      using that word_inc [OF True] by (metis Suc_eq_plus1 Suc_lessI word_less_nat_alt word_unat_eq_iff)
    then show ?thesis
      using True assms by (auto simp: snoc ossl_uint_set_insert_def create_set_item_def uint_set_gaps_simps
        uint_set_ok_simps word_less_nat_alt word_le_nat_alt)
  next
    case False
    have s: "s = hd s # tl s" "s \<noteq> []"
      using snoc by simp_all
    have "uint_set_gaps (snd (insert_walk al r [hd s] (tl s)))" if "ur_end r < ur_start (hd s)"
      using assms s that by (intro insert_gap_gaps) simp_all
    moreover have "uint_set_gaps (snd (insert_walk al r (rev s) []))"
      using False assms s snoc by (intro insert_walk_gaps) simp_all
    ultimately show ?thesis
      using False assms s snoc by (auto simp: ossl_uint_set_insert_def uint_set_gaps_simps)
  qed
qed

lemma remove_gaps:
  "uint_set_gaps s \<Longrightarrow> uint_set_gaps (snd (ossl_uint_set_remove al s r))"
  using remove_walk_gaps [of "rev s" "[]" r al] by (simp add: ossl_uint_set_remove_def)

section \<open>The contract of the set\<close>

text \<open>
  A call on the set, and what a sequence of calls leaves behind: the values returned and the state.
  Every call has its own allocator, so that any of them may run out of memory.
\<close>

datatype set_op = Insert uint_range | Remove uint_range

fun run_ops ::
    "(allocator \<Rightarrow> 's \<Rightarrow> uint_range \<Rightarrow> bool \<times> 's) \<Rightarrow> (allocator \<Rightarrow> 's \<Rightarrow> uint_range \<Rightarrow> bool \<times> 's) \<Rightarrow>
     's \<Rightarrow> (allocator \<times> set_op) list \<Rightarrow> bool list \<times> 's" where
  "run_ops ins rm s [] = ([], s)"
| "run_ops ins rm s ((al, op) # ops) =
     (let (ok, s') = (case op of Insert r \<Rightarrow> ins al s r | Remove r \<Rightarrow> rm al s r);
          (oks, s'') = run_ops ins rm s' ops
      in (ok # oks, s''))"

text \<open>The same calls on a mathematical set; a call that failed has no effect.\<close>

fun spec_ops :: "u64 set \<Rightarrow> bool list \<Rightarrow> set_op list \<Rightarrow> u64 set" where
  "spec_ops S (ok # oks) (op # ops) =
     spec_ops (if \<not> ok then S
               else case op of Insert r \<Rightarrow> S \<union> range_set r | Remove r \<Rightarrow> S - range_set r) oks ops"
| "spec_ops S _ _ = S"

locale range_set_contract =
  fixes empty :: 's
    and ins rm :: "allocator \<Rightarrow> 's \<Rightarrow> uint_range \<Rightarrow> bool \<times> 's"
    and query :: "'s \<Rightarrow> u64 \<Rightarrow> bool"
    and inv :: "'s \<Rightarrow> bool"
    and abs :: "'s \<Rightarrow> u64 set"
  assumes inv_empty: "inv empty" and abs_empty: "abs empty = {}"
    and ins_law: "\<lbrakk>inv s; ins al s r = (ok, s')\<rbrakk> \<Longrightarrow>
      inv s' \<and> abs s' = (if ok then abs s \<union> range_set r else abs s)"
    and rm_law: "\<lbrakk>inv s; rm al s r = (ok, s')\<rbrakk> \<Longrightarrow>
      inv s' \<and> abs s' = (if ok then abs s - range_set r else abs s)"
    and query_law: "inv s \<Longrightarrow> query s v \<longleftrightarrow> v \<in> abs s"
    and available: "\<lbrakk>inv s; \<And>n. al n; ur_start r \<le> ur_end r\<rbrakk> \<Longrightarrow> fst (ins al s r) \<and> fst (rm al s r)"
begin

lemma run_abs:
  "\<lbrakk>inv s; run_ops ins rm s ops = (oks, s')\<rbrakk> \<Longrightarrow>
     inv s' \<and> length oks = length ops \<and> abs s' = spec_ops (abs s) oks (map snd ops)"
proof (induction ops arbitrary: s oks)
  case (Cons x ops)
  obtain al op where x: "x = (al, op)"
    by (cases x)
  obtain ok s1 where e1: "(case op of Insert r \<Rightarrow> ins al s r | Remove r \<Rightarrow> rm al s r) = (ok, s1)"
    by fastforce
  obtain oks2 s2 where e2: "run_ops ins rm s1 ops = (oks2, s2)"
    by fastforce
  have "inv s1 \<and> abs s1 = (if \<not> ok then abs s
      else case op of Insert r \<Rightarrow> abs s \<union> range_set r | Remove r \<Rightarrow> abs s - range_set r)"
    using ins_law [OF Cons.prems(1)] rm_law [OF Cons.prems(1)] e1 by (auto split: set_op.splits)
  then show ?case
    using Cons.IH [of s1 oks2] Cons.prems(2) e1 e2 by (auto simp: x)
qed simp

lemma run_available:
  assumes "inv s" "\<forall>(al, op) \<in> set ops. (\<forall>n. al n) \<and>
      (case op of Insert r \<Rightarrow> ur_start r \<le> ur_end r | Remove r \<Rightarrow> ur_start r \<le> ur_end r)"
  shows "fst (run_ops ins rm s ops) = replicate (length ops) True"
  using assms
proof (induction ops arbitrary: s)
  case (Cons x ops)
  obtain al op where x: "x = (al, op)"
    by (cases x)
  obtain ok s1 where e1: "(case op of Insert r \<Rightarrow> ins al s r | Remove r \<Rightarrow> rm al s r) = (ok, s1)"
    by fastforce
  have "ok"
    using available [OF Cons.prems(1), of al] Cons.prems(2) e1 by (fastforce simp: x split: set_op.splits)
  moreover have "inv s1"
    using ins_law [OF Cons.prems(1)] rm_law [OF Cons.prems(1)] e1 by (auto split: set_op.splits)
  ultimately show ?case
    using Cons.IH [of s1] Cons.prems(2) e1 by (auto simp: x split: prod.split)
qed simp

lemma run_query:
  "run_ops ins rm empty ops = (oks, s) \<Longrightarrow>
     query s v \<longleftrightarrow> v \<in> spec_ops {} oks (map snd ops)"
  using run_abs [OF inv_empty] query_law by (auto simp: abs_empty)

end

lemma insert_walk_available:
  "al sizeof_uint_set_item \<Longrightarrow> fst (insert_walk al r zs nexts)"
  by (induction zs arbitrary: nexts) (auto simp: create_set_item_def Let_def split: prod.split)

lemma remove_walk_available:
  "al sizeof_uint_set_item \<Longrightarrow> fst (remove_walk al r zs nexts)"
  by (induction zs arbitrary: nexts) (auto simp: create_set_item_def)

interpretation us: range_set_contract ossl_uint_set_init ossl_uint_set_insert
    ossl_uint_set_remove ossl_uint_set_query uint_set_ok uint_set_abs
proof
  fix s s' :: uint_set and al :: allocator and r :: uint_range and ok
  assume s: "uint_set_ok s"
  show "uint_set_ok s' \<and> uint_set_abs s' = (if ok then uint_set_abs s \<union> range_set r else uint_set_abs s)"
    if "ossl_uint_set_insert al s r = (ok, s')"
  proof (cases "ur_start r \<le> ur_end r")
    case True
    with ossl_uint_set_insert_spec [OF that s] show ?thesis
      by (auto split: if_splits)
  next
    case False
    with that s show ?thesis
      by (auto simp: ossl_uint_set_insert_def)
  qed
  show "uint_set_ok s' \<and> uint_set_abs s' = (if ok then uint_set_abs s - range_set r else uint_set_abs s)"
    if "ossl_uint_set_remove al s r = (ok, s')"
  proof (cases "ur_start r \<le> ur_end r")
    case True
    with ossl_uint_set_remove_spec [OF that s] show ?thesis
      by (auto split: if_splits)
  next
    case False
    with that s show ?thesis
      by (auto simp: ossl_uint_set_remove_def)
  qed
next
  fix s :: uint_set and al :: allocator and r :: uint_range
  assume "\<And>n. al n" "ur_start r \<le> ur_end r"
  then show "fst (ossl_uint_set_insert al s r) \<and> fst (ossl_uint_set_remove al s r)"
    by (auto simp: ossl_uint_set_insert_def ossl_uint_set_remove_def create_set_item_def
        insert_walk_available remove_walk_available)
qed (auto simp: ossl_uint_set_init_def ossl_uint_set_query_spec)

section \<open>Properties\<close>

text \<open>
  C4: the list of ranges is a set of integers. After any sequence of insertions and removals, each
  of which may run out of memory, the ranges are in order, non-empty and disjoint, and a query
  answers membership in the set that results from the calls that succeeded; with memory available
  and well-formed ranges every call succeeds.
\<close>

theorem uint_set_refines:
  assumes "run_ops ossl_uint_set_insert ossl_uint_set_remove ossl_uint_set_init ops = (oks, s)"
  shows "uint_set_ok s \<and> length oks = length ops \<and>
    (\<forall>v. ossl_uint_set_query s v \<longleftrightarrow> v \<in> spec_ops {} oks (map snd ops)) \<and>
    ((\<forall>(al, op) \<in> set ops. (\<forall>n. al n) \<and>
        (case op of Insert r \<Rightarrow> ur_start r \<le> ur_end r | Remove r \<Rightarrow> ur_start r \<le> ur_end r)) \<longrightarrow>
     oks = replicate (length ops) True)"
  using us.run_abs [OF us.inv_empty assms] us.run_query [OF assms]
    us.run_available [OF us.inv_empty, of ops] assms
  by auto

theorem uint_set_refines_witness:
  "\<exists>oks s. run_ops ossl_uint_set_insert ossl_uint_set_remove ossl_uint_set_init
      [(\<lambda>_. True, Insert \<lparr>ur_start = 0, ur_end = 10\<rparr>), (\<lambda>_. False, Remove \<lparr>ur_start = 3, ur_end = 4\<rparr>),
       (\<lambda>_. True, Remove \<lparr>ur_start = 3, ur_end = 4\<rparr>)] = (oks, s) \<and>
     oks = [True, False, True] \<and> s = [\<lparr>ur_start = 0, ur_end = 2\<rparr>, \<lparr>ur_start = 5, ur_end = 10\<rparr>] \<and>
     uint_set_ok s \<and> ossl_uint_set_query s 2 \<and> \<not> ossl_uint_set_query s 3"
proof -
  let ?s = "[\<lparr>ur_start = 0, ur_end = 2\<rparr>, \<lparr>ur_start = 5, ur_end = 10\<rparr>]"
  have e: "run_ops ossl_uint_set_insert ossl_uint_set_remove ossl_uint_set_init
      [(\<lambda>_. True, Insert \<lparr>ur_start = 0, ur_end = 10\<rparr>), (\<lambda>_. False, Remove \<lparr>ur_start = 3, ur_end = 4\<rparr>),
       (\<lambda>_. True, Remove \<lparr>ur_start = 3, ur_end = 4\<rparr>)] = ([True, False, True], ?s)"
    by (simp add: ossl_uint_set_init_def ossl_uint_set_insert_def ossl_uint_set_remove_def create_set_item_def)
  show ?thesis
    using uint_set_refines [OF e] e by (simp add: range_set_def)
qed



end
