(* ===== verification/Lhash.thy ===== *)
theory Lhash
  imports Prelude "HOL-Library.Multiset"
begin

text \<open>
  The dynamic hash table of \<open>crypto/lhash/lhash.c\<close> (linear hashing). The array \<open>b\<close> of bucket heads
  is a list and each chain of nodes a list of its nodes in order. A pointer to a slot of a chain,
  which is what \<open>getrn\<close> returns, is the index of the bucket and the position in its chain; the
  position after the last node is the slot that holds \<open>NULL\<close>. The typed wrappers of the table only
  cast their arguments, so \<open>hashw\<close> and \<open>compw\<close> are the functions they call.
\<close>

section \<open>Data\<close>

record 'd lh_node =
  lhn_data :: 'd
  lhn_hash :: u64

record 'd lhash =
  lh_b :: "'d lh_node list list"
  lh_comp :: "'d \<Rightarrow> 'd \<Rightarrow> int"
  lh_hash :: "'d \<Rightarrow> u64"
  lh_num_nodes :: nat
  lh_num_alloc_nodes :: nat
  lh_p :: nat
  lh_pmax :: nat
  lh_up_load :: nat
  lh_down_load :: nat
  lh_num_items :: nat
  lh_error :: int

definition MIN_NODES :: nat where "MIN_NODES = 16"
definition LH_LOAD_MULT :: nat where "LH_LOAD_MULT = 256"
definition UP_LOAD :: nat where "UP_LOAD = 2 * LH_LOAD_MULT"
definition DOWN_LOAD :: nat where "DOWN_LOAD = LH_LOAD_MULT"
definition sizeof_lhash :: nat where "sizeof_lhash = 104"
definition sizeof_lh_node :: nat where "sizeof_lh_node = 24"
definition sizeof_ptr :: nat where "sizeof_ptr = 8"

section \<open>Operations\<close>

definition OPENSSL_LH_new ::
    "allocator \<Rightarrow> ('d \<Rightarrow> u64) \<Rightarrow> ('d \<Rightarrow> 'd \<Rightarrow> int) \<Rightarrow> 'd lhash option" where
  "OPENSSL_LH_new al h c =
     (if \<not> al sizeof_lhash then None
      else if \<not> al (sizeof_ptr * MIN_NODES) then None
      else Some \<lparr>lh_b = replicate MIN_NODES [], lh_comp = c, lh_hash = h,
                 lh_num_nodes = MIN_NODES div 2, lh_num_alloc_nodes = MIN_NODES, lh_p = 0,
                 lh_pmax = MIN_NODES div 2, lh_up_load = UP_LOAD, lh_down_load = DOWN_LOAD,
                 lh_num_items = 0, lh_error = 0\<rparr>)"

definition OPENSSL_LH_flush :: "'d lhash \<Rightarrow> 'd lhash" where
  "OPENSSL_LH_flush lh =
     lh\<lparr>lh_b := replicate (lh_num_nodes lh) [] @ drop (lh_num_nodes lh) (lh_b lh), lh_num_items := 0\<rparr>"

text \<open>\<open>realloc\<close>: a request for no bytes frees the block and returns \<open>NULL\<close>.\<close>

definition realloc_refused :: "allocator \<Rightarrow> nat \<Rightarrow> bool" where
  "realloc_refused al n \<longleftrightarrow> n = 0 \<or> \<not> al n"

text \<open>The loop of \<open>expand\<close> over the chain: the nodes that stay, and the nodes moved in front of \<open>*n2\<close>.\<close>

fun expand_split :: "nat \<Rightarrow> nat \<Rightarrow> 'd lh_node list \<Rightarrow> 'd lh_node list \<Rightarrow> 'd lh_node list \<times> 'd lh_node list" where
  "expand_split nni p [] n2 = ([], n2)"
| "expand_split nni p (np # n1) n2 =
     (if unat (lhn_hash np) mod nni \<noteq> p then expand_split nni p n1 (np # n2)
      else let (kept, moved) = expand_split nni p n1 n2 in (np # kept, moved))"

definition expand :: "allocator \<Rightarrow> 'd lhash \<Rightarrow> bool \<times> 'd lhash" where
  "expand al lh =
     (let nni = lh_num_alloc_nodes lh; p = lh_p lh; pmax = lh_pmax lh; j = nni * 2 mod 2 ^ 32
      in if p + 1 \<ge> pmax \<and> realloc_refused al (sizeof_ptr * j) then
           (False, lh\<lparr>lh_b := (if j = 0 then [] else lh_b lh), lh_error := lh_error lh + 1\<rparr>)
         else
           let lh = (if p + 1 \<ge> pmax then
                       lh\<lparr>lh_b := take nni (lh_b lh) @ replicate (j - nni) [], lh_pmax := nni,
                          lh_num_alloc_nodes := j, lh_p := 0\<rparr>
                     else lh\<lparr>lh_p := p + 1\<rparr>);
               (kept, moved) = expand_split nni p (lh_b lh ! p) []
           in (True, lh\<lparr>lh_num_nodes := lh_num_nodes lh + 1,
                        lh_b := (lh_b lh)[p := kept, p + pmax := moved]\<rparr>))"

definition contract :: "allocator \<Rightarrow> 'd lhash \<Rightarrow> 'd lhash" where
  "contract al lh =
     (let i = lh_p lh + lh_pmax lh - 1;
          np = lh_b lh ! i;
          lh = lh\<lparr>lh_b := (lh_b lh)[i := []]\<rparr>;
          sz = sizeof_ptr * lh_pmax lh mod 2 ^ 32;
          lh = (if lh_p lh = 0 then
                  (if realloc_refused al sz
                   then lh\<lparr>lh_b := (if sz = 0 then [] else lh_b lh), lh_error := lh_error lh + 1\<rparr>
                   else lh\<lparr>lh_b := take (sz div sizeof_ptr) (lh_b lh)\<rparr>)
                  \<lparr>lh_num_alloc_nodes := lh_num_alloc_nodes lh div 2, lh_pmax := lh_pmax lh div 2,
                   lh_p := lh_pmax lh div 2 - 1\<rparr>
                else lh\<lparr>lh_p := lh_p lh - 1\<rparr>);
          lh = lh\<lparr>lh_num_nodes := lh_num_nodes lh - 1\<rparr>
      in lh\<lparr>lh_b := (lh_b lh)[lh_p lh := lh_b lh ! lh_p lh @ np]\<rparr>)"

fun chain_pos :: "('d \<Rightarrow> 'd \<Rightarrow> int) \<Rightarrow> u64 \<Rightarrow> 'd \<Rightarrow> 'd lh_node list \<Rightarrow> nat" where
  "chain_pos cmp h d [] = 0"
| "chain_pos cmp h d (n1 # ns) =
     (if lhn_hash n1 \<noteq> h then Suc (chain_pos cmp h d ns)
      else if cmp (lhn_data n1) d = 0 then 0
      else Suc (chain_pos cmp h d ns))"

definition lh_index :: "'d lhash \<Rightarrow> u64 \<Rightarrow> nat" where
  "lh_index lh h =
     (let nn = unat h mod lh_pmax lh
      in if nn < lh_p lh then unat h mod lh_num_alloc_nodes lh else nn)"

definition getrn :: "'d lhash \<Rightarrow> 'd \<Rightarrow> nat \<times> nat" where
  "getrn lh d =
     (let h = lh_hash lh d; nn = lh_index lh h in (nn, chain_pos (lh_comp lh) h d (lh_b lh ! nn)))"

text \<open>\<open>*rn\<close>: the node in the slot, if it is not \<open>NULL\<close>.\<close>

definition slot :: "'d lhash \<Rightarrow> nat \<times> nat \<Rightarrow> 'd lh_node option" where
  "slot lh rn =
     (if snd rn < length (lh_b lh ! fst rn) then Some (lh_b lh ! fst rn ! snd rn) else None)"

definition OPENSSL_LH_insert :: "allocator \<Rightarrow> 'd lhash \<Rightarrow> 'd \<Rightarrow> 'd option \<times> 'd lhash" where
  "OPENSSL_LH_insert al lh d =
     (let lh = lh\<lparr>lh_error := 0\<rparr>;
          (room, lh) = (if lh_up_load lh \<le> lh_num_items lh * LH_LOAD_MULT div lh_num_nodes lh
                        then expand al lh else (True, lh))
      in if \<not> room then (None, lh)
         else
           let rn = getrn lh d; i = fst rn; ns = lh_b lh ! i
           in case slot lh rn of
                None \<Rightarrow>
                  if \<not> al sizeof_lh_node then (None, lh\<lparr>lh_error := lh_error lh + 1\<rparr>)
                  else (None, lh\<lparr>lh_b := (lh_b lh)[i := ns @ [\<lparr>lhn_data = d, lhn_hash = lh_hash lh d\<rparr>]],
                                 lh_num_items := lh_num_items lh + 1\<rparr>)
              | Some n \<Rightarrow>
                  (Some (lhn_data n), lh\<lparr>lh_b := (lh_b lh)[i := ns[snd rn := n\<lparr>lhn_data := d\<rparr>]]\<rparr>))"

definition OPENSSL_LH_delete :: "allocator \<Rightarrow> 'd lhash \<Rightarrow> 'd \<Rightarrow> 'd option \<times> 'd lhash" where
  "OPENSSL_LH_delete al lh d =
     (let lh = lh\<lparr>lh_error := 0\<rparr>; rn = getrn lh d; i = fst rn; ns = lh_b lh ! i
      in case slot lh rn of
           None \<Rightarrow> (None, lh)
         | Some nn \<Rightarrow>
             let lh = lh\<lparr>lh_b := (lh_b lh)[i := take (snd rn) ns @ drop (Suc (snd rn)) ns],
                         lh_num_items := lh_num_items lh - 1\<rparr>;
                 lh = (if lh_num_nodes lh > MIN_NODES \<and>
                          lh_down_load lh \<ge> lh_num_items lh * LH_LOAD_MULT div lh_num_nodes lh
                       then contract al lh else lh)
             in (Some (lhn_data nn), lh))"

definition OPENSSL_LH_retrieve :: "'d lhash \<Rightarrow> 'd \<Rightarrow> 'd option \<times> 'd lhash" where
  "OPENSSL_LH_retrieve lh d =
     (let lh = lh\<lparr>lh_error := 0\<rparr>
      in (map_option lhn_data (slot lh (getrn lh d)), lh))"

text \<open>\<open>doall_util_fn\<close>: the data a traversal visits, in order.\<close>

definition OPENSSL_LH_doall :: "'d lhash \<Rightarrow> 'd list" where
  "OPENSSL_LH_doall lh = map lhn_data (concat (rev (take (lh_num_nodes lh) (lh_b lh))))"

definition OPENSSL_LH_error :: "'d lhash \<Rightarrow> int" where
  "OPENSSL_LH_error lh = lh_error lh"

section \<open>Specification\<close>

text \<open>The data in the table.\<close>

definition lh_items :: "'d lhash \<Rightarrow> 'd set" where
  "lh_items lh = lhn_data ` set (concat (lh_b lh))"

text \<open>
  What a table relies on: the comparison function is an equivalence (it returns zero for equal
  keys), and equal keys have equal hashes.
\<close>

definition lh_keys :: "('d \<Rightarrow> u64) \<Rightarrow> ('d \<Rightarrow> 'd \<Rightarrow> int) \<Rightarrow> bool" where
  "lh_keys h c \<longleftrightarrow>
     (\<forall>a. c a a = 0) \<and> (\<forall>a b. c a b = 0 \<longrightarrow> c b a = 0 \<and> h a = h b) \<and>
     (\<forall>a b d. c a b = 0 \<longrightarrow> c b d = 0 \<longrightarrow> c a d = 0)"

definition chain_ok :: "'d lhash \<Rightarrow> nat \<Rightarrow> 'd lh_node list \<Rightarrow> bool" where
  "chain_ok lh i ns \<longleftrightarrow>
     (\<forall>n \<in> set ns. lhn_hash n = lh_hash lh (lhn_data n) \<and> lh_index lh (lhn_hash n) = i) \<and>
     sorted_wrt (\<lambda>m n. lh_comp lh (lhn_data m) (lhn_data n) \<noteq> 0) ns"

text \<open>The largest number of items for which the sizes of the bucket array fit in \<open>unsigned int\<close>.\<close>

definition LH_MAX_ITEMS :: nat where
  "LH_MAX_ITEMS = 2 ^ 27"

definition lh_table :: "'d lhash \<Rightarrow> bool" where
  "lh_table lh \<longleftrightarrow>
     lh_keys (lh_hash lh) (lh_comp lh) \<and>
     (\<exists>k. lh_pmax lh = 8 * 2 ^ k) \<and> lh_p lh < lh_pmax lh \<and>
     lh_num_alloc_nodes lh = 2 * lh_pmax lh \<and> lh_num_nodes lh = lh_pmax lh + lh_p lh \<and>
     lh_num_alloc_nodes lh \<le> length (lh_b lh) \<and>
     (\<forall>i < length (lh_b lh). chain_ok lh i (lh_b lh ! i)) \<and>
     lh_num_items lh = length (concat (lh_b lh)) \<and>
     lh_up_load lh = UP_LOAD \<and> lh_down_load lh = DOWN_LOAD \<and>
     lh_num_nodes lh \<le> LH_MAX_ITEMS + 2 \<and> lh_num_items lh \<le> LH_MAX_ITEMS"

text \<open>The load of the table bounds its size: it never has many more buckets than items.\<close>

definition lh_ok :: "'d lhash \<Rightarrow> bool" where
  "lh_ok lh \<longleftrightarrow> lh_table lh \<and> lh_num_nodes lh \<le> max MIN_NODES (lh_num_items lh + 1)"

section \<open>Buckets\<close>

lemma mod_double: "(h :: nat) mod (2 * m) = h mod m \<or> h mod (2 * m) = h mod m + m"
proof -
  have "h mod (m * 2) = m * (h div m mod 2) + h mod m"
    by (rule mod_mult2_eq)
  moreover have "h div m mod 2 = 0 \<or> h div m mod 2 = 1"
    by auto
  ultimately show ?thesis
    by (auto simp: mult.commute)
qed

lemma mset_concat_update:
  "i < length b \<Longrightarrow> mset (concat (b[i := ns])) + mset (b ! i) = mset (concat b) + mset ns"
proof (induction b arbitrary: i)
  case (Cons x b)
  then show ?case
    by (cases i) (simp_all add: add.assoc)
qed simp

lemma bucket_mem: "x \<in> set (concat b) \<longleftrightarrow> (\<exists>i < length b. x \<in> set (b ! i))"
  by (metis in_set_conv_nth nth_mem UN_iff set_concat)

lemma lh_tableD:
  assumes "lh_table lh"
  shows "lh_keys (lh_hash lh) (lh_comp lh)" "0 < lh_pmax lh" "lh_p lh < lh_pmax lh"
    "lh_num_alloc_nodes lh = 2 * lh_pmax lh" "lh_num_nodes lh = lh_pmax lh + lh_p lh"
    "lh_num_alloc_nodes lh \<le> length (lh_b lh)"
    "\<And>i. i < length (lh_b lh) \<Longrightarrow> chain_ok lh i (lh_b lh ! i)"
    "lh_num_items lh = length (concat (lh_b lh))"
  using assms by (auto simp: lh_table_def)

lemma lh_index_less:
  assumes "lh_table lh"
  shows "lh_index lh h < lh_num_nodes lh"
  using mod_double [of "unat h" "lh_pmax lh"] mod_less_divisor [of "lh_pmax lh" "unat h"] lh_tableD(2-5) [OF assms]
  by (auto simp: lh_index_def Let_def intro: trans_less_add1)

lemma lh_index_bucket: "lh_table lh \<Longrightarrow> lh_index lh h < length (lh_b lh)"
  using lh_index_less [of lh h] lh_tableD(3-6) [of lh] by linarith

lemma lh_keysD:
  assumes "lh_keys h c"
  shows "c a a = 0" "c a b = 0 \<Longrightarrow> c b a = 0" "c a b = 0 \<Longrightarrow> h a = h b"
    "\<lbrakk>c a b = 0; c b d = 0\<rbrakk> \<Longrightarrow> c a d = 0"
  using assms unfolding lh_keys_def by blast+

lemma chain_pos_eq:
  assumes "lh_keys h c" "\<forall>n \<in> set ns. lhn_hash n = h (lhn_data n)"
  shows "chain_pos c (h d) d ns = length (takeWhile (\<lambda>n. c (lhn_data n) d \<noteq> 0) ns)"
  using assms(2) by (induction ns) (auto dest: lh_keysD(3) [OF assms(1)])

lemma item_bucket:
  assumes "lh_table lh" "n \<in> set (concat (lh_b lh))"
  shows "n \<in> set (lh_b lh ! lh_index lh (lh_hash lh (lhn_data n)))" "lhn_hash n = lh_hash lh (lhn_data n)"
proof -
  obtain i where i: "i < length (lh_b lh)" "n \<in> set (lh_b lh ! i)"
    using assms(2) by (auto simp only: bucket_mem)
  then have "lhn_hash n = lh_hash lh (lhn_data n) \<and> lh_index lh (lhn_hash n) = i"
    using i(2) lh_tableD(7) [OF assms(1) i(1)] unfolding chain_ok_def by blast
  then show "n \<in> set (lh_b lh ! lh_index lh (lh_hash lh (lhn_data n)))" "lhn_hash n = lh_hash lh (lhn_data n)"
    using i(2) by auto
qed

text \<open>What \<open>getrn\<close> finds: the bucket of the hash, and the only item with the key.\<close>

abbreviation bucket :: "'d lhash \<Rightarrow> 'd \<Rightarrow> 'd lh_node list" where
  "bucket lh d \<equiv> lh_b lh ! lh_index lh (lh_hash lh d)"

lemma getrn_eq:
  assumes "lh_table lh"
  shows "getrn lh d =
    (lh_index lh (lh_hash lh d), length (takeWhile (\<lambda>n. lh_comp lh (lhn_data n) d \<noteq> 0) (bucket lh d)))"
  using lh_tableD(7) [OF assms(1) lh_index_bucket [OF assms(1)]] chain_pos_eq [OF lh_tableD(1) [OF assms(1)]]
  by (simp add: getrn_def Let_def chain_ok_def)

lemma slot_cases [consumes 1, case_names none some]:
  assumes "lh_table lh"
  obtains (none) "slot lh (getrn lh d) = None" "\<forall>n \<in> set (bucket lh d). lh_comp lh (lhn_data n) d \<noteq> 0"
  | (some) xs n ys where "bucket lh d = xs @ n # ys"
      "getrn lh d = (lh_index lh (lh_hash lh d), length xs)" "slot lh (getrn lh d) = Some n"
      "lh_comp lh (lhn_data n) d = 0" "\<forall>m \<in> set xs \<union> set ys. lh_comp lh (lhn_data m) d \<noteq> 0"
proof (cases "\<forall>n \<in> set (bucket lh d). lh_comp lh (lhn_data n) d \<noteq> 0")
  case True
  then show ?thesis
    by (intro none) (simp_all add: slot_def getrn_eq [OF assms] takeWhile_eq_all_conv [THEN iffD2])
next
  case False
  then obtain xs n ys where sp: "bucket lh d = xs @ n # ys" "lh_comp lh (lhn_data n) d = 0"
    "\<forall>m \<in> set xs. lh_comp lh (lhn_data m) d \<noteq> 0"
    using split_list_first_prop [of "bucket lh d" "\<lambda>n. lh_comp lh (lhn_data n) d = 0"] by auto
  have rn: "getrn lh d = (lh_index lh (lh_hash lh d), length xs)"
    using sp by (simp add: getrn_eq [OF assms] takeWhile_append2)
  have "\<forall>m \<in> set ys. lh_comp lh (lhn_data n) (lhn_data m) \<noteq> 0"
    using lh_tableD(7) [OF assms lh_index_bucket [OF assms], of "lh_hash lh d"] sp(1)
    by (simp add: chain_ok_def sorted_wrt_append)
  then have "\<forall>m \<in> set ys. lh_comp lh (lhn_data m) d \<noteq> 0"
    using sp(2) lh_keysD(2,4) [OF lh_tableD(1) [OF assms]] by meson
  with sp rn show ?thesis
    by (intro some [of xs n ys]) (auto simp: slot_def)
qed

lemma other_bucket:
  assumes "lh_table lh" "n \<in> set (concat (lh_b lh))" "lh_comp lh (lhn_data n) d = 0"
  shows "n \<in> set (bucket lh d)"
  using item_bucket(1) [OF assms(1,2)] lh_keysD(3) [OF lh_tableD(1) [OF assms(1)] assms(3)] by simp

lemma lh_items_unique:
  assumes "lh_table lh" "x \<in> lh_items lh" "y \<in> lh_items lh" "lh_comp lh x y = 0"
  shows "x = y"
proof -
  note k = lh_tableD(1) [OF assms(1)]
  obtain m n where m: "m \<in> set (concat (lh_b lh))" "x = lhn_data m"
    and n: "n \<in> set (concat (lh_b lh))" "y = lhn_data n"
    using assms(2,3) by (auto simp: lh_items_def)
  have in_b: "m \<in> set (bucket lh y)" "n \<in> set (bucket lh y)"
    using other_bucket [OF assms(1) m(1), of y] other_bucket [OF assms(1) n(1), of y] assms(4) m(2) n(2) lh_keysD(1) [OF k]
    by auto
  show ?thesis
    by (rule slot_cases [OF assms(1), of y])
      (use in_b assms(4) m(2) n(2) lh_keysD(1) [OF k] in auto)
qed

section \<open>Growing and shrinking\<close>

lemma expand_split_eq:
  "expand_split nni p ns n2 =
     (filter (\<lambda>n. unat (lhn_hash n) mod nni = p) ns,
      rev (filter (\<lambda>n. unat (lhn_hash n) mod nni \<noteq> p) ns) @ n2)"
  by (induction ns arbitrary: n2) auto

lemma chain_ok_move:
  assumes "chain_ok lh i ns" "lh_hash lh' = lh_hash lh" "lh_comp lh' = lh_comp lh"
    "\<And>n. \<lbrakk>n \<in> set ns; P n\<rbrakk> \<Longrightarrow> lh_index lh' (lhn_hash n) = j"
  shows "chain_ok lh' j (filter P ns)"
  using assms by (simp add: chain_ok_def sorted_wrt_filter)

lemma chain_ok_keep:
  assumes "chain_ok lh i ns" "lh_hash lh' = lh_hash lh" "lh_comp lh' = lh_comp lh"
    "\<And>n. n \<in> set ns \<Longrightarrow> lh_index lh' (lhn_hash n) = j"
  shows "chain_ok lh' j ns"
  using chain_ok_move [OF assms(1-3), where P = "\<lambda>_. True" and j = j] assms(4) by simp

lemma chain_ok_rev: "lh_keys (lh_hash lh) (lh_comp lh) \<Longrightarrow> chain_ok lh i (rev ns) \<longleftrightarrow> chain_ok lh i ns"
proof -
  assume k: "lh_keys (lh_hash lh) (lh_comp lh)"
  have "lh_comp lh a b = 0 \<longleftrightarrow> lh_comp lh b a = 0" for a b
    using lh_keysD(2) [OF k] by blast
  then show ?thesis
    by (simp add: chain_ok_def sorted_wrt_rev)
qed

lemma chain_index: "\<lbrakk>chain_ok lh i ns; n \<in> set ns\<rbrakk> \<Longrightarrow> lh_index lh (lhn_hash n) = i"
  unfolding chain_ok_def by blast

lemma bucket_beyond:
  assumes "lh_table lh" "lh_num_nodes lh \<le> i" "i < length (lh_b lh)"
  shows "lh_b lh ! i = []"
proof (rule ccontr)
  assume "lh_b lh ! i \<noteq> []"
  then obtain n where "n \<in> set (lh_b lh ! i)"
    by (cases "lh_b lh ! i") auto
  with chain_index [OF lh_tableD(7) [OF assms(1,3)]] lh_index_less [OF assms(1), of "lhn_hash n"] assms(2)
  show False
    by simp
qed

lemma concat_beyond:
  assumes "lh_table lh" "lh_num_nodes lh \<le> k"
  shows "concat (take k (lh_b lh)) = concat (lh_b lh)"
proof -
  have "lh_b lh ! i = []" if "k \<le> i" "i < length (lh_b lh)" for i
    using bucket_beyond [OF assms(1)] that assms(2) by simp
  then have "\<forall>ns \<in> set (drop k (lh_b lh)). ns = []"
    by (auto simp: in_set_conv_nth)
  then have "concat (drop k (lh_b lh)) = []"
    by simp
  then show ?thesis
    by (metis append_Nil2 append_take_drop_id concat_append)
qed

text \<open>The two geometries of \<open>expand\<close> and where the hashes go.\<close>

lemma index_grow:
  assumes "lh_table lh" "lh_p lh + 1 < lh_pmax lh" "lh_p lh' = lh_p lh + 1" "lh_pmax lh' = lh_pmax lh"
    "lh_num_alloc_nodes lh' = lh_num_alloc_nodes lh"
  shows "lh_index lh' h = (if lh_index lh h = lh_p lh then unat h mod lh_num_alloc_nodes lh else lh_index lh h)"
  using mod_double [of "unat h" "lh_pmax lh"] assms(2-) lh_tableD(2-5) [OF assms(1)]
  by (auto simp: lh_index_def Let_def less_Suc_eq)

lemma index_double:
  assumes "lh_table lh" "lh_p lh + 1 \<ge> lh_pmax lh" "lh_p lh' = 0" "lh_pmax lh' = lh_num_alloc_nodes lh"
  shows "lh_index lh' h = (if lh_index lh h = lh_p lh then unat h mod lh_num_alloc_nodes lh else lh_index lh h)"
  using mod_double [of "unat h" "lh_pmax lh"] assms(2-) lh_tableD(2-5) [OF assms(1)]
    mod_less_divisor [of "lh_pmax lh" "unat h"]
  by (auto simp: lh_index_def Let_def simp del: mod_less_divisor)

lemma index_p:
  assumes "lh_table lh" "lh_index lh h = lh_p lh"
  shows "unat h mod lh_pmax lh = lh_p lh"
  using mod_double [of "unat h" "lh_pmax lh"] assms(2) lh_tableD(2-5) [OF assms(1)]
  by (auto simp: lh_index_def Let_def split: if_splits)

lemma chain_ok_Nil [simp]: "chain_ok lh i []"
  by (simp add: chain_ok_def)

lemma lh_tableD_size:
  assumes "lh_table lh"
  shows "\<exists>k. lh_pmax lh = 8 * 2 ^ k" "lh_num_nodes lh \<le> LH_MAX_ITEMS + 2"
    "lh_num_items lh \<le> LH_MAX_ITEMS" "lh_up_load lh = UP_LOAD" "lh_down_load lh = DOWN_LOAD"
  using assms unfolding lh_table_def by blast+

lemma lh_sizes:
  assumes "lh_table lh"
  shows "lh_pmax lh \<le> LH_MAX_ITEMS + 2" "lh_num_alloc_nodes lh \<le> 2 * LH_MAX_ITEMS + 4"
  using lh_tableD(4,5) [OF assms] lh_tableD_size(2,3) [OF assms] by (simp_all add: MIN_NODES_def LH_MAX_ITEMS_def)

text \<open>Two chains become one, or one becomes two: the nodes in the table stay the same.\<close>

lemma mset_two_updates:
  assumes "i < length b" "j < length b" "i \<noteq> j" "mset x + mset y = mset (b ! i) + mset (b ! j)"
  shows "mset (concat (b[i := x, j := y])) = mset (concat b)"
proof -
  have "mset (concat (b[i := x, j := y])) + mset (b ! j) = mset (concat (b[i := x])) + mset y"
    using mset_concat_update [of j "b[i := x]" y] assms by simp
  moreover have "mset (concat (b[i := x])) + mset (b ! i) = mset (concat b) + mset x"
    using mset_concat_update [of i b x] assms by simp
  ultimately have "mset (concat (b[i := x, j := y])) + (mset (b ! i) + mset (b ! j))
      = mset (concat b) + (mset x + mset y)"
    by (metis (no_types, opaque_lifting) add.assoc add.commute)
  then show ?thesis
    using assms(4) by simp
qed

text \<open>
  A table with the nodes of an old one, in a new geometry: what \<open>expand\<close> and \<open>contract\<close> have to
  establish.
\<close>

definition same_nodes :: "'d lhash \<Rightarrow> 'd lhash \<Rightarrow> bool" where
  "same_nodes lh lh' \<longleftrightarrow>
     lh_hash lh' = lh_hash lh \<and> lh_comp lh' = lh_comp lh \<and> lh_num_items lh' = lh_num_items lh \<and>
     lh_up_load lh' = lh_up_load lh \<and> lh_down_load lh' = lh_down_load lh \<and>
     mset (concat (lh_b lh')) = mset (concat (lh_b lh))"

lemma same_nodesD:
  assumes "same_nodes lh lh'"
  shows "lh_items lh' = lh_items lh" "length (concat (lh_b lh')) = length (concat (lh_b lh))"
    "lh_hash lh' = lh_hash lh" "lh_comp lh' = lh_comp lh" "lh_num_items lh' = lh_num_items lh"
  using assms mset_eq_setD mset_eq_length unfolding same_nodes_def lh_items_def by blast+

lemma rebuilt_ok:
  assumes "lh_table lh" "same_nodes lh lh'" "\<exists>k. lh_pmax lh' = 8 * 2 ^ k" "lh_p lh' < lh_pmax lh'"
    "lh_num_alloc_nodes lh' = 2 * lh_pmax lh'" "lh_num_nodes lh' = lh_pmax lh' + lh_p lh'"
    "lh_num_alloc_nodes lh' \<le> length (lh_b lh')"
    "\<And>i. i < length (lh_b lh') \<Longrightarrow> chain_ok lh' i (lh_b lh' ! i)"
    "lh_num_nodes lh' \<le> LH_MAX_ITEMS + 2"
  shows "lh_table lh'"
  using assms same_nodesD [OF assms(2)] unfolding lh_table_def same_nodes_def by simp

lemma expand_grown:
  assumes ok: "lh_table lh" and load: "2 * lh_num_nodes lh \<le> lh_num_items lh"
    and e: "expand al lh = (True, lh')"
  shows "lh_table lh' \<and> same_nodes lh lh' \<and> lh_error lh' = lh_error lh \<and>
    lh_num_nodes lh' = lh_num_nodes lh + 1"
proof -
  let ?nni = "lh_num_alloc_nodes lh" and ?p = "lh_p lh" and ?pmax = "lh_pmax lh" and ?b = "lh_b lh"
  let ?double = "?p + 1 \<ge> ?pmax"
  note g = lh_tableD(2-6) [OF ok] and s = lh_sizes [OF ok]
  have j: "?nni * 2 mod 4294967296 = 2 * ?nni"
    using s(2) by (simp add: LH_MAX_ITEMS_def)
  define b1 where "b1 = (if ?double then take ?nni ?b @ replicate ?nni [] else ?b)"
  define kept where "kept = filter (\<lambda>n. unat (lhn_hash n) mod ?nni = ?p) (?b ! ?p)"
  define moved where "moved = rev (filter (\<lambda>n. unat (lhn_hash n) mod ?nni \<noteq> ?p) (?b ! ?p))"
  have b1: "length b1 \<ge> ?nni" "b1 ! ?p = ?b ! ?p" "b1 ! (?p + ?pmax) = []" "mset (concat b1) = mset (concat ?b)"
    using g bucket_beyond [OF ok, of "?p + ?pmax"] concat_beyond [OF ok, of ?nni]
    by (auto simp: b1_def nth_append)
  have lh': "lh_b lh' = b1[?p := kept, ?p + ?pmax := moved]"
    "lh_p lh' = (if ?double then 0 else ?p + 1)" "lh_pmax lh' = (if ?double then ?nni else ?pmax)"
    "lh_num_alloc_nodes lh' = (if ?double then 2 * ?nni else ?nni)" "lh_num_nodes lh' = lh_num_nodes lh + 1"
    "lh_hash lh' = lh_hash lh" "lh_comp lh' = lh_comp lh" "lh_num_items lh' = lh_num_items lh"
    "lh_up_load lh' = lh_up_load lh" "lh_down_load lh' = lh_down_load lh" "lh_error lh' = lh_error lh"
  proof -
    have "lh' = (if ?double then lh\<lparr>lh_b := b1, lh_pmax := ?nni, lh_num_alloc_nodes := 2 * ?nni, lh_p := 0\<rparr>
                 else lh\<lparr>lh_p := ?p + 1\<rparr>)
      \<lparr>lh_num_nodes := lh_num_nodes lh + 1, lh_b := b1[?p := kept, ?p + ?pmax := moved]\<rparr>"
      using e b1(2) unfolding kept_def moved_def
      by (auto simp: expand_def Let_def expand_split_eq j b1_def split: if_splits)
    then show "lh_b lh' = b1[?p := kept, ?p + ?pmax := moved]"
      "lh_p lh' = (if ?double then 0 else ?p + 1)" "lh_pmax lh' = (if ?double then ?nni else ?pmax)"
      "lh_num_alloc_nodes lh' = (if ?double then 2 * ?nni else ?nni)" "lh_num_nodes lh' = lh_num_nodes lh + 1"
      "lh_hash lh' = lh_hash lh" "lh_comp lh' = lh_comp lh" "lh_num_items lh' = lh_num_items lh"
      "lh_up_load lh' = lh_up_load lh" "lh_down_load lh' = lh_down_load lh" "lh_error lh' = lh_error lh"
      by (simp_all split: if_splits)
  qed
  have idx: "lh_index lh' h = (if lh_index lh h = ?p then unat h mod ?nni else lh_index lh h)" for h
  proof (cases ?double)
    case True
    then show ?thesis
      using lh' by (intro index_double [OF ok]) simp_all
  next
    case False
    then show ?thesis
      using lh' by (intro index_grow [OF ok]) simp_all
  qed
  have "mset kept + mset moved = mset (?b ! ?p)"
    by (simp add: kept_def moved_def)
  then have same: "same_nodes lh lh'"
    using b1 g mset_two_updates [of ?p b1 "?p + ?pmax" kept moved] unfolding same_nodes_def lh' by simp
  have "chain_ok lh' i (lh_b lh' ! i)" if i: "i < length (lh_b lh')" for i
  proof -
    have old: "chain_ok lh ?p (?b ! ?p)"
      using lh_tableD(7) [OF ok] g by simp
    consider "i = ?p" | "i = ?p + ?pmax" | "i \<noteq> ?p" "i \<noteq> ?p + ?pmax"
      by blast
    then show ?thesis
    proof cases
      case 1
      then have "lh_b lh' ! i = kept"
        using g b1(1) lh'(1) by simp
      then show ?thesis
        using chain_ok_move [OF old lh'(6,7)] chain_index [OF old] 1 unfolding kept_def by (simp add: idx)
    next
      case 2
      then have "lh_b lh' ! i = moved"
        using i lh'(1) by simp
      moreover have "unat (lhn_hash n) mod ?nni = ?p + ?pmax"
        if "n \<in> set (?b ! ?p)" "unat (lhn_hash n) mod ?nni \<noteq> ?p" for n
        using mod_double [of "unat (lhn_hash n)" ?pmax] index_p [OF ok chain_index [OF old that(1)]] that(2) g(3)
        by simp
      ultimately show ?thesis
        using chain_ok_move [OF old lh'(6,7)] chain_index [OF old] 2 lh_tableD(1) [OF ok] lh'(6,7)
        unfolding moved_def by (simp add: idx chain_ok_rev)
    next
      case 3
      have "b1 ! i = [] \<or> i < length ?b \<and> b1 ! i = ?b ! i"
        using i lh'(1) g(5) by (auto simp: b1_def nth_append split: if_splits)
      moreover have "chain_ok lh' i (?b ! i)" if "i < length ?b"
        using chain_ok_keep [OF lh_tableD(7) [OF ok that] lh'(6,7)] chain_index [OF lh_tableD(7) [OF ok that]] 3
        by (simp add: idx)
      ultimately show ?thesis
        using 3 lh'(1) by auto
    qed
  qed
  moreover obtain k where "?pmax = 8 * 2 ^ k"
    using lh_tableD_size(1) [OF ok] by blast
  then have "\<exists>k. lh_pmax lh' = 8 * 2 ^ k"
    using g(3) lh'(3) by (cases ?double) (auto intro: exI [of _ "Suc k"])
  moreover have "lh_num_alloc_nodes lh' \<le> length (lh_b lh')"
    using g(5) lh' by (simp add: b1_def)
  ultimately have "lh_table lh'"
    using g load lh' lh_tableD_size(3) [OF ok] by (intro rebuilt_ok [OF ok same]) auto
  with same lh' show ?thesis
    by simp
qed

lemma expand_refused:
  assumes "lh_table lh" "expand al lh = (False, lh')"
  shows "lh' = lh\<lparr>lh_error := lh_error lh + 1\<rparr>"
proof -
  have "lh_num_alloc_nodes lh * 2 mod 4294967296 \<noteq> 0"
    using lh_sizes(2) [OF assms(1)] lh_tableD(2,4) [OF assms(1)] by (simp add: LH_MAX_ITEMS_def)
  then show ?thesis
    using assms(2) by (auto simp: expand_def Let_def split: if_splits prod.splits)
qed

text \<open>The two geometries of \<open>contract\<close>.\<close>

lemma index_shrink:
  assumes "lh_table lh" "lh_p lh \<noteq> 0" "lh_p lh' = lh_p lh - 1" "lh_pmax lh' = lh_pmax lh"
    "lh_num_alloc_nodes lh' = lh_num_alloc_nodes lh"
  shows "lh_index lh' h = (if lh_index lh h = lh_p lh + lh_pmax lh - 1 then lh_p lh' else lh_index lh h)"
  using mod_double [of "unat h" "lh_pmax lh"] assms(2-) lh_tableD(2-5) [OF assms(1)]
    mod_less_divisor [of "lh_pmax lh" "unat h"]
  by (auto simp: lh_index_def Let_def simp del: mod_less_divisor)

lemma index_halve:
  assumes "lh_table lh" "lh_p lh = 0" "lh_pmax lh = 2 * q" "lh_p lh' = q - 1" "lh_pmax lh' = q"
    "lh_num_alloc_nodes lh' = 2 * q"
  shows "lh_index lh' h = (if lh_index lh h = lh_pmax lh - 1 then lh_p lh' else lh_index lh h)"
  using mod_double [of "unat h" q] assms(2-) lh_tableD(2-5) [OF assms(1)] mod_less_divisor [of q "unat h"]
  by (auto simp: lh_index_def Let_def simp del: mod_less_divisor)

lemma chains_apart:
  assumes "lh_table lh" "i < length (lh_b lh)" "j < length (lh_b lh)" "i \<noteq> j"
    "m \<in> set (lh_b lh ! i)" "n \<in> set (lh_b lh ! j)"
  shows "lh_comp lh (lhn_data m) (lhn_data n) \<noteq> 0"
proof
  assume "lh_comp lh (lhn_data m) (lhn_data n) = 0"
  then have "lh_hash lh (lhn_data m) = lh_hash lh (lhn_data n)"
    by (rule lh_keysD(3) [OF lh_tableD(1) [OF assms(1)]])
  then have "lhn_hash m = lhn_hash n"
    using lh_tableD(7) [OF assms(1)] assms(2,3,5,6) unfolding chain_ok_def by metis
  then show False
    using chain_index [OF lh_tableD(7) [OF assms(1,2)] assms(5)]
      chain_index [OF lh_tableD(7) [OF assms(1,3)] assms(6)] assms(4) by simp
qed

lemma chain_ok_append:
  assumes "chain_ok lh i ms" "chain_ok lh j ns" "lh_hash lh' = lh_hash lh" "lh_comp lh' = lh_comp lh"
    "\<And>n. n \<in> set ms \<union> set ns \<Longrightarrow> lh_index lh' (lhn_hash n) = k"
    "\<And>m n. \<lbrakk>m \<in> set ms; n \<in> set ns\<rbrakk> \<Longrightarrow> lh_comp lh (lhn_data m) (lhn_data n) \<noteq> 0"
  shows "chain_ok lh' k (ms @ ns)"
  using assms by (auto simp: chain_ok_def sorted_wrt_append)

lemma concat_take_Nil:
  "(\<And>j. \<lbrakk>k \<le> j; j < length b\<rbrakk> \<Longrightarrow> b ! j = []) \<Longrightarrow> concat (take k b) = concat b"
proof (induction b arbitrary: k)
  case (Cons x b)
  show ?case
  proof (cases k)
    case 0
    have "x = []"
      using Cons.prems [of 0] 0 by simp
    moreover have "b ! j = []" if "j < length b" for j
      using Cons.prems [of "Suc j"] 0 that by simp
    ultimately show ?thesis
      using Cons.IH [of 0] 0 by simp
  next
    case (Suc m)
    have "b ! j = []" if "m \<le> j" "j < length b" for j
      using Cons.prems [of "Suc j"] Suc that by simp
    then show ?thesis
      using Cons.IH [of m] Suc by simp
  qed
qed simp

lemma contract_shrunk:
  assumes ok: "lh_table lh" and big: "MIN_NODES < lh_num_nodes lh"
  shows "lh_table (contract al lh) \<and> same_nodes lh (contract al lh) \<and>
    lh_num_nodes (contract al lh) = lh_num_nodes lh - 1"
proof -
  let ?p = "lh_p lh" and ?pmax = "lh_pmax lh" and ?b = "lh_b lh" and ?lh' = "contract al lh"
  let ?halve = "?p = 0"
  define i where "i = ?p + ?pmax - 1"
  define q where "q = ?pmax div 2"
  define p' where "p' = (if ?halve then q - 1 else ?p - 1)"
  note g = lh_tableD(2-6) [OF ok] and s = lh_sizes [OF ok]
  obtain k where k: "?pmax = 8 * 2 ^ k"
    using lh_tableD_size(1) [OF ok] by blast
  have "k \<noteq> 0"
    using big k g(2,4) by (intro notI) (simp add: MIN_NODES_def)
  then obtain k' where k': "k = Suc k'"
    by (cases k) auto
  then have q: "?pmax = 2 * q" "q = 8 * 2 ^ k'"
    using k by (simp_all add: q_def)
  have sz: "8 * ?pmax mod 4294967296 = 8 * ?pmax" "0 < ?pmax"
    using s(1) g(1) by (simp_all add: LH_MAX_ITEMS_def)
  have ip: "i < length ?b" "p' < ?pmax" "p' < length ?b" "p' \<noteq> i" "?pmax \<le> length ?b" "i < ?pmax \<or> \<not> ?halve"
    using g q(1) sz(2) by (auto simp: i_def p'_def)
  define b1 where "b1 = ?b[i := [], p' := ?b ! p' @ ?b ! i]"
  have lh': "lh_b ?lh' = (if ?halve \<and> \<not> realloc_refused al (8 * ?pmax) then take ?pmax b1 else b1)"
    "lh_p ?lh' = p'" "lh_pmax ?lh' = (if ?halve then q else ?pmax)"
    "lh_num_alloc_nodes ?lh' = (if ?halve then 2 * q else lh_num_alloc_nodes lh)"
    "lh_num_nodes ?lh' = lh_num_nodes lh - 1"
    "lh_hash ?lh' = lh_hash lh" "lh_comp ?lh' = lh_comp lh" "lh_num_items ?lh' = lh_num_items lh"
    "lh_up_load ?lh' = lh_up_load lh" "lh_down_load ?lh' = lh_down_load lh"
  proof -
    show "lh_b ?lh' = (if ?halve \<and> \<not> realloc_refused al (8 * ?pmax) then take ?pmax b1 else b1)"
    proof (cases ?halve)
      case True
      then show ?thesis
        using sz ip by (simp add: contract_def Let_def sizeof_ptr_def realloc_refused_def i_def q_def
          p'_def b1_def take_update_swap)
    next
      case False
      then show ?thesis
        using ip by (simp add: contract_def Let_def i_def p'_def b1_def)
    qed
  qed (simp_all add: contract_def Let_def p'_def q(1) g(3))
  have idx: "lh_index ?lh' h = (if lh_index lh h = i then p' else lh_index lh h)" for h
  proof (cases ?halve)
    case True
    then show ?thesis
      using index_halve [OF ok True q(1), of ?lh' h] lh' p'_def i_def by simp
  next
    case False
    then show ?thesis
      using index_shrink [OF ok False, of ?lh' h] lh' p'_def i_def by simp
  qed
  have b1_mset: "mset (concat b1) = mset (concat ?b)"
    unfolding b1_def using ip by (intro mset_two_updates) auto
  have beyond: "b1 ! j = []" if "?pmax \<le> j" "j < length b1" ?halve for j
    using that ip bucket_beyond [OF ok, of j] g(4) by (auto simp: b1_def i_def)
  have "concat (take ?pmax b1) = concat b1" if ?halve
    using beyond that by (intro concat_take_Nil) simp
  then have "mset (concat (lh_b ?lh')) = mset (concat ?b)"
    using lh'(1) b1_mset by (simp split: if_splits)
  then have same: "same_nodes lh ?lh'"
    unfolding same_nodes_def by (simp add: lh'(6-))
  have "chain_ok ?lh' j (lh_b ?lh' ! j)" if j: "j < length (lh_b ?lh')" for j
  proof -
    have "j < length b1" "lh_b ?lh' ! j = b1 ! j"
      using j lh'(1) by (auto split: if_splits)
    then have jb: "j < length ?b"
      by (simp add: b1_def)
    note old = lh_tableD(7) [OF ok jb]
    consider "j = p'" | "j = i" | "j \<noteq> p'" "j \<noteq> i"
      by blast
    then have "chain_ok ?lh' j (b1 ! j)"
    proof cases
      case 1
      then have "b1 ! j = ?b ! j @ ?b ! i"
        using jb ip by (simp add: b1_def)
      moreover have "chain_ok ?lh' j (?b ! j @ ?b ! i)"
        using chain_index [OF old] chain_index [OF lh_tableD(7) [OF ok ip(1)]] ip(4) 1
          chains_apart [OF ok jb ip(1)]
        by (intro chain_ok_append [OF old lh_tableD(7) [OF ok ip(1)] lh'(6,7)]) (auto simp: idx)
      ultimately show ?thesis
        by simp
    next
      case 2
      then show ?thesis
        using ip by (simp add: b1_def)
    next
      case 3
      then show ?thesis
        using chain_ok_keep [OF old lh'(6,7)] chain_index [OF old] by (simp add: b1_def idx)
    qed
    then show ?thesis
      using \<open>lh_b ?lh' ! j = b1 ! j\<close> by simp
  qed
  moreover have "\<exists>k. lh_pmax ?lh' = 8 * 2 ^ k"
    using lh'(3) k q(2) by (cases ?halve) auto
  ultimately have "lh_table ?lh'"
    using g lh' q(1) sz(2) ip lh_tableD_size(2) [OF ok]
    by (intro rebuilt_ok [OF ok same]) (auto simp: b1_def p'_def)
  with same lh'(5) show ?thesis
    by simp
qed

section \<open>Operations on the table\<close>

lemma lh_error_update [simp]:
  "lh_index (lh\<lparr>lh_error := e\<rparr>) = lh_index lh" "chain_ok (lh\<lparr>lh_error := e\<rparr>) = chain_ok lh"
  "lh_table (lh\<lparr>lh_error := e\<rparr>) = lh_table lh" "lh_ok (lh\<lparr>lh_error := e\<rparr>) = lh_ok lh"
  "lh_items (lh\<lparr>lh_error := e\<rparr>) = lh_items lh" "slot (lh\<lparr>lh_error := e\<rparr>) = slot lh"
  "getrn (lh\<lparr>lh_error := e\<rparr>) = getrn lh"
proof -
  show i: "lh_index (lh\<lparr>lh_error := e\<rparr>) = lh_index lh"
    by (simp add: lh_index_def fun_eq_iff Let_def)
  then show c: "chain_ok (lh\<lparr>lh_error := e\<rparr>) = chain_ok lh"
    by (simp add: chain_ok_def fun_eq_iff)
  then show t: "lh_table (lh\<lparr>lh_error := e\<rparr>) = lh_table lh"
    by (simp add: lh_table_def)
  then show "lh_ok (lh\<lparr>lh_error := e\<rparr>) = lh_ok lh"
    by (simp add: lh_ok_def)
  show "lh_items (lh\<lparr>lh_error := e\<rparr>) = lh_items lh" "slot (lh\<lparr>lh_error := e\<rparr>) = slot lh"
    "getrn (lh\<lparr>lh_error := e\<rparr>) = getrn lh"
    by (simp_all add: lh_items_def slot_def getrn_def fun_eq_iff i)
qed

lemma bucket_update:
  assumes "lh_table lh" "i < length (lh_b lh)" "chain_ok lh i ns"
    "m + length (lh_b lh ! i) = lh_num_items lh + length ns" "m \<le> LH_MAX_ITEMS"
  shows "lh_table (lh\<lparr>lh_b := (lh_b lh)[i := ns], lh_num_items := m\<rparr>)"
proof -
  let ?lh = "lh\<lparr>lh_b := (lh_b lh)[i := ns], lh_num_items := m\<rparr>"
  have "lh_index ?lh = lh_index lh"
    by (simp add: lh_index_def fun_eq_iff Let_def)
  then have c: "chain_ok ?lh = chain_ok lh"
    by (simp add: chain_ok_def fun_eq_iff)
  have "size (mset (concat ((lh_b lh)[i := ns]))) + size (mset (lh_b lh ! i))
      = size (mset (concat (lh_b lh))) + size (mset ns)"
    unfolding size_union [symmetric] mset_concat_update [OF assms(2)] ..
  then have "m = length (concat ((lh_b lh)[i := ns]))"
    using assms(4) lh_tableD(8) [OF assms(1)] by (simp only: size_mset)
  moreover have "chain_ok lh j ((lh_b lh)[i := ns] ! j)" if "j < length (lh_b lh)" for j
    using lh_tableD(7) [OF assms(1) that] assms(2,3) by (cases "j = i") simp_all
  ultimately show ?thesis
    using assms(1,5) unfolding lh_table_def c by simp
qed

lemma chain_ok_append_iff:
  "chain_ok lh i (ms @ ns) \<longleftrightarrow> chain_ok lh i ms \<and> chain_ok lh i ns \<and>
     (\<forall>m \<in> set ms. \<forall>n \<in> set ns. lh_comp lh (lhn_data m) (lhn_data n) \<noteq> 0)"
  unfolding chain_ok_def sorted_wrt_append set_append by blast

lemma chain_ok_Cons_iff:
  "chain_ok lh i (n # ns) \<longleftrightarrow> lhn_hash n = lh_hash lh (lhn_data n) \<and> lh_index lh (lhn_hash n) = i \<and>
     chain_ok lh i ns \<and> (\<forall>m \<in> set ns. lh_comp lh (lhn_data n) (lhn_data m) \<noteq> 0)"
  unfolding chain_ok_def by auto

lemma concat_update_mem:
  "i < length b \<Longrightarrow> x \<in> set (concat (b[i := ns])) \<longleftrightarrow>
     (\<exists>j < length b. j \<noteq> i \<and> x \<in> set (b ! j)) \<or> x \<in> set ns"
  unfolding bucket_mem by (metis length_list_update nth_list_update_eq nth_list_update_neq)

lemma bucket_item: "\<lbrakk>lh_table lh; n \<in> set (bucket lh d)\<rbrakk> \<Longrightarrow> n \<in> set (concat (lh_b lh))"
  using lh_index_bucket unfolding bucket_mem by blast

lemma update_items:
  assumes "lh_table lh" "i = lh_index lh (lh_hash lh d)"
    "{n \<in> set ns. lh_comp lh (lhn_data n) d \<noteq> 0} = {n \<in> set (bucket lh d). lh_comp lh (lhn_data n) d \<noteq> 0}"
  shows "lhn_data ` set (concat ((lh_b lh)[i := ns])) =
    {x \<in> lh_items lh. lh_comp lh x d \<noteq> 0} \<union> {x \<in> lhn_data ` set ns. lh_comp lh x d = 0}"
proof -
  let ?b = "lh_b lh" and ?P = "\<lambda>n. lh_comp lh (lhn_data n) d = 0"
  define other where "other = {n. \<exists>j < length ?b. j \<noteq> i \<and> n \<in> set (?b ! j)}"
  have i: "i < length ?b"
    using lh_index_bucket [OF assms(1)] assms(2) by simp
  have apart: "\<not> ?P n" if o: "n \<in> other" for n
  proof
    assume "?P n"
    obtain j where j: "j < length ?b" "j \<noteq> i" "n \<in> set (?b ! j)"
      using o unfolding other_def by blast
    have "lhn_hash n = lh_hash lh d"
      using item_bucket(2) [OF assms(1), of n] lh_keysD(3) [OF lh_tableD(1) [OF assms(1)] \<open>?P n\<close>] j
      unfolding bucket_mem by auto
    then show False
      using chain_index [OF lh_tableD(7) [OF assms(1) j(1)] j(3)] j(2) assms(2) by simp
  qed
  have "set (concat (?b[i := ns])) = other \<union> set ns"
    using concat_update_mem [OF i, of _ ns] unfolding other_def by blast
  moreover have "set (concat ?b) = other \<union> set (bucket lh d)"
    using concat_update_mem [OF i, of _ "?b ! i"] assms(2) unfolding other_def list_update_id by blast
  moreover have "{n \<in> set ns. \<not> ?P n} = {n \<in> set (bucket lh d). \<not> ?P n}"
    by (rule assms(3))
  ultimately show ?thesis
    using apart unfolding lh_items_def by (simp only:) blast
qed

text \<open>The items with the key of \<open>d\<close>: at most one.\<close>

lemma slot_items:
  assumes "lh_table lh"
  shows "map_option lhn_data (slot lh (getrn lh d)) = Some x \<longleftrightarrow> x \<in> lh_items lh \<and> lh_comp lh x d = 0"
  using assms
proof (cases rule: slot_cases [where d = d])
  case none
  then show ?thesis
    using other_bucket [OF assms, of _ d] by (auto simp: lh_items_def)
next
  case (some xs n ys)
  have n: "lhn_data n \<in> lh_items lh"
    using bucket_item [OF assms, of n d] some(1) unfolding lh_items_def by simp
  moreover have "x = lhn_data n" if "x \<in> lh_items lh" "lh_comp lh x d = 0"
    using lh_items_unique [OF assms that(1) n] lh_keysD(2,4) [OF lh_tableD(1) [OF assms]] that(2) some(4) by blast
  ultimately show ?thesis
    using some by auto
qed

lemma LH_retrieve_spec:
  assumes "lh_ok lh" "OPENSSL_LH_retrieve lh d = (r, lh')"
  shows "lh' = lh\<lparr>lh_error := 0\<rparr> \<and> (\<forall>x. r = Some x \<longleftrightarrow> x \<in> lh_items lh \<and> lh_comp lh x d = 0)"
  using assms slot_items [of lh d] by (auto simp: OPENSSL_LH_retrieve_def lh_ok_def)

lemma LH_delete_spec:
  assumes "lh_ok lh" "OPENSSL_LH_delete al lh d = (r, lh')"
  shows "lh_ok lh' \<and> lh_comp lh' = lh_comp lh \<and> lh_hash lh' = lh_hash lh \<and>
    lh_items lh' = {x \<in> lh_items lh. lh_comp lh x d \<noteq> 0} \<and>
    (\<forall>x. r = Some x \<longleftrightarrow> x \<in> lh_items lh \<and> lh_comp lh x d = 0)"
proof -
  have t: "lh_table lh" "lh_num_nodes lh \<le> max MIN_NODES (lh_num_items lh + 1)"
    using assms(1) by (simp_all add: lh_ok_def)
  note ret = slot_items [OF t(1), of d]
  from t(1) show ?thesis
  proof (cases rule: slot_cases [where d = d])
    case none
    then have "r = None" "lh' = lh\<lparr>lh_error := 0\<rparr>"
      using assms(2) by (simp_all add: OPENSSL_LH_delete_def Let_def)
    then show ?thesis
      using assms(1) ret none(1) by auto
  next
    case (some xs n ys)
    define i where "i = lh_index lh (lh_hash lh d)"
    define lh1 where "lh1 = lh\<lparr>lh_error := 0, lh_b := (lh_b lh)[i := xs @ ys], lh_num_items := lh_num_items lh - 1\<rparr>"
    have i: "i < length (lh_b lh)" "lh_b lh ! i = xs @ n # ys"
      using lh_index_bucket [OF t(1)] some(1) by (simp_all add: i_def)
    have n: "0 < lh_num_items lh"
      using i lh_tableD(8) [OF t(1)] bucket_mem [of n "lh_b lh"] by (cases "concat (lh_b lh)") auto
    have "chain_ok lh i (xs @ ys)"
      using lh_tableD(7) [OF t(1) i(1)] i(2) by (simp add: chain_ok_append_iff chain_ok_Cons_iff)
    then have t1: "lh_table lh1"
      using bucket_update [of "lh\<lparr>lh_error := 0\<rparr>" i "xs @ ys" "lh_num_items lh - 1"] t(1) i n lh_tableD_size(3) [OF t(1)]
      by (simp add: lh1_def)
    have items: "lh_items lh1 = {x \<in> lh_items lh. lh_comp lh x d \<noteq> 0}"
    proof -
      have "{m \<in> set (xs @ ys). lh_comp lh (lhn_data m) d \<noteq> 0} =
          {m \<in> set (bucket lh d). lh_comp lh (lhn_data m) d \<noteq> 0}"
        using some(1,4) by auto
      note u = update_items [OF t(1) i_def this]
      have "{x \<in> lhn_data ` set (xs @ ys). lh_comp lh x d = 0} = {}"
        using some(5) by auto
      with u have "lhn_data ` set (concat ((lh_b lh)[i := xs @ ys])) = {x \<in> lh_items lh. lh_comp lh x d \<noteq> 0}"
        by (simp only: Un_empty_right)
      then show ?thesis
        unfolding lh1_def lh_items_def [of "lh\<lparr>lh_error := 0, lh_b := _, lh_num_items := _\<rparr>"] by simp
    qed
    let ?small = "MIN_NODES < lh_num_nodes lh1 \<and> DOWN_LOAD \<ge> lh_num_items lh1 * LH_LOAD_MULT div lh_num_nodes lh1"
    have "rn = (i, length xs) \<Longrightarrow> take (snd rn) (xs @ n # ys) @ drop (Suc (snd rn)) (xs @ n # ys) = xs @ ys" for rn
      by simp
    then have r: "r = Some (lhn_data n)" "lh' = (if ?small then contract al lh1 else lh1)"
      using assms(2) some i lh_tableD_size(5) [OF t(1)]
      by (auto simp: OPENSSL_LH_delete_def Let_def i_def lh1_def)
    have "lh_ok lh' \<and> same_nodes lh1 lh'"
    proof (cases ?small)
      case True
      then have "lh' = contract al lh1" and c: "lh_table (contract al lh1)" "same_nodes lh1 (contract al lh1)"
        "lh_num_nodes (contract al lh1) = lh_num_nodes lh1 - 1"
        using contract_shrunk [OF t1, of al] r(2) by auto
      moreover have "lh_num_nodes lh1 - 1 \<le> max MIN_NODES (lh_num_items lh1 + 1)"
        using t(2) True n by (simp add: lh1_def)
      ultimately show ?thesis
        using same_nodesD(5) [OF c(2)] by (simp add: lh_ok_def)
    next
      case False
      have "lh_num_nodes lh1 \<le> lh_num_items lh1" if "DOWN_LOAD < lh_num_items lh1 * LH_LOAD_MULT div lh_num_nodes lh1"
        using that lh_tableD(2,5) [OF t1] less_eq_div_iff_mult_less_eq [of "lh_num_nodes lh1" 257 "lh_num_items lh1 * 256"]
        by (simp add: DOWN_LOAD_def LH_LOAD_MULT_def)
      then show ?thesis
        using False t1 r(2) by (auto simp: lh_ok_def same_nodes_def)
    qed
    moreover from this have "lh_items lh' = lh_items lh1" "lh_comp lh' = lh_comp lh1" "lh_hash lh' = lh_hash lh1"
      by (blast dest: same_nodesD)+
    moreover have "lh_comp lh1 = lh_comp lh" "lh_hash lh1 = lh_hash lh"
      by (simp_all add: lh1_def)
    ultimately show ?thesis
      using items ret some(3) r(1) by simp
  qed
qed

text \<open>The part of \<open>OPENSSL_LH_insert\<close> after the table was grown.\<close>

lemma insert_slot:
  fixes d :: 'd
  assumes t: "lh_table lh" and room: "lh_num_items lh < LH_MAX_ITEMS"
    and e: "(r, lh') = (case slot lh (getrn lh d) of
        None \<Rightarrow> if \<not> al sizeof_lh_node then (None, lh\<lparr>lh_error := lh_error lh + 1\<rparr>)
          else (None, lh\<lparr>lh_b := (lh_b lh)[i := lh_b lh ! i @ [\<lparr>lhn_data = d, lhn_hash = lh_hash lh d\<rparr>]],
                 lh_num_items := lh_num_items lh + 1\<rparr>)
      | Some n \<Rightarrow> (Some (lhn_data n),
          lh\<lparr>lh_b := (lh_b lh)[i := (lh_b lh ! i)[snd (getrn lh d) := n\<lparr>lhn_data := d\<rparr>]]\<rparr>))"
    and i: "i = lh_index lh (lh_hash lh d)"
  shows "lh_table lh' \<and> lh_num_items lh \<le> lh_num_items lh' \<and> lh_num_nodes lh' = lh_num_nodes lh \<and>
    lh_comp lh' = lh_comp lh \<and> lh_hash lh' = lh_hash lh \<and>
    (lh_error lh' = lh_error lh + 1 \<and> lh_items lh' = lh_items lh \<and> r = None \<or>
     lh_error lh' = lh_error lh \<and> lh_items lh' = insert d {x \<in> lh_items lh. lh_comp lh x d \<noteq> 0} \<and>
       (\<forall>x. r = Some x \<longleftrightarrow> x \<in> lh_items lh \<and> lh_comp lh x d = 0))"
proof -
  let ?P = "\<lambda>n. lh_comp lh (lhn_data n) d = 0"
  note k = lh_tableD(1) [OF t] and ret = slot_items [OF t, of d]
  have ib: "i < length (lh_b lh)"
    using lh_index_bucket [OF t] i by simp
  note ok = lh_tableD(7) [OF t ib]
  have refl: "lh_comp lh d d = 0"
    by (rule lh_keysD(1) [OF k])
  have items: "lhn_data ` set (concat ((lh_b lh)[i := ns])) = insert d {x \<in> lh_items lh. lh_comp lh x d \<noteq> 0}"
    if "{n \<in> set ns. \<not> ?P n} = {n \<in> set (bucket lh d). \<not> ?P n}" "{n \<in> set ns. ?P n} = {m}" "lhn_data m = d"
    for ns m
  proof -
    have "{x \<in> lhn_data ` set ns. lh_comp lh x d = 0} = lhn_data ` {n \<in> set ns. ?P n}"
      by auto
    then show ?thesis
      using update_items [OF t i that(1)] that(2,3) by simp
  qed
  from t show ?thesis
  proof (cases rule: slot_cases [where d = d])
    case none
    let ?n = "\<lparr>lhn_data = d, lhn_hash = lh_hash lh d\<rparr>" and ?ns = "lh_b lh ! i"
    show ?thesis
    proof (cases "al sizeof_lh_node")
      case True
      define lh2 where "lh2 = lh\<lparr>lh_b := (lh_b lh)[i := ?ns @ [?n]], lh_num_items := lh_num_items lh + 1\<rparr>"
      have b2: "lh_b lh2 = (lh_b lh)[i := ?ns @ [?n]]"
        by (simp add: lh2_def)
      have r: "r = None" "lh' = lh2"
        using e none(1) True by (simp_all add: lh2_def)
      have "chain_ok lh i (?ns @ [?n])"
        using ok none(2) i by (simp add: chain_ok_append_iff chain_ok_Cons_iff)
      then have "lh_table lh2"
        unfolding lh2_def using bucket_update [OF t ib] room by simp
      moreover have "lh_items lh2 = insert d {x \<in> lh_items lh. lh_comp lh x d \<noteq> 0}"
        unfolding lh_items_def [of lh2] b2
        using none(2) refl i by (intro items [of _ ?n]) auto
      moreover have "lh_num_items lh2 = lh_num_items lh + 1" "lh_num_nodes lh2 = lh_num_nodes lh"
        "lh_comp lh2 = lh_comp lh" "lh_hash lh2 = lh_hash lh" "lh_error lh2 = lh_error lh"
        by (simp_all add: lh2_def)
      ultimately show ?thesis
        using ret none(1) r by simp
    next
      case False
      then show ?thesis
        using e none(1) t by simp
    qed
  next
    case (some xs n ys)
    let ?n = "n\<lparr>lhn_data := d\<rparr>"
    define lh2 where "lh2 = lh\<lparr>lh_b := (lh_b lh)[i := xs @ ?n # ys]\<rparr>"
    have b2: "lh_b lh2 = (lh_b lh)[i := xs @ ?n # ys]"
      by (simp add: lh2_def)
    have ns: "lh_b lh ! i = xs @ n # ys"
      using some(1) i by simp
    have r: "r = Some (lhn_data n)" "lh' = lh2"
      using e some(2,3) ns by (simp_all add: lh2_def)
    have "lh_comp lh d (lhn_data m) \<noteq> 0" if "m \<in> set ys" for m
      using some(5) that lh_keysD(2) [OF k] by blast
    then have "chain_ok lh i (xs @ ?n # ys)"
      using ok ns some(5) lh_keysD(3) [OF k some(4)] i by (simp add: chain_ok_append_iff chain_ok_Cons_iff)
    then have "lh_table (lh\<lparr>lh_b := (lh_b lh)[i := xs @ ?n # ys], lh_num_items := lh_num_items lh\<rparr>)"
      using room ns by (intro bucket_update [OF t ib]) simp_all
    then have "lh_table lh2"
      by (simp add: lh2_def)
    moreover have "lh_items lh2 = insert d {x \<in> lh_items lh. lh_comp lh x d \<noteq> 0}"
      unfolding lh_items_def [of lh2] b2
      using some(1,4,5) refl by (intro items [of _ ?n]) auto
    moreover have "lh_num_items lh2 = lh_num_items lh" "lh_num_nodes lh2 = lh_num_nodes lh"
      "lh_comp lh2 = lh_comp lh" "lh_hash lh2 = lh_hash lh" "lh_error lh2 = lh_error lh"
      by (simp_all add: lh2_def)
    ultimately show ?thesis
      using ret some(3) r by simp
  qed
qed

lemma LH_insert_spec:
  assumes "lh_ok lh" "lh_num_items lh < LH_MAX_ITEMS" "OPENSSL_LH_insert al lh d = (r, lh')"
  shows "lh_ok lh' \<and> lh_comp lh' = lh_comp lh \<and> lh_hash lh' = lh_hash lh \<and>
    (if lh_error lh' \<noteq> 0 then lh_items lh' = lh_items lh \<and> r = None
     else lh_items lh' = insert d {x \<in> lh_items lh. lh_comp lh x d \<noteq> 0} \<and>
       (\<forall>x. r = Some x \<longleftrightarrow> x \<in> lh_items lh \<and> lh_comp lh x d = 0))"
proof -
  have t: "lh_table lh" "lh_num_nodes lh \<le> max MIN_NODES (lh_num_items lh + 1)"
    using assms(1) by (simp_all add: lh_ok_def)
  let ?full = "UP_LOAD \<le> lh_num_items lh * LH_LOAD_MULT div lh_num_nodes lh"
  define lh0 where "lh0 = lh\<lparr>lh_error := 0\<rparr>"
  have t0: "lh_table lh0"
    using t(1) by (simp add: lh0_def)
  have load: "2 * lh_num_nodes lh0 \<le> lh_num_items lh0" if ?full
    using that lh_tableD(2,5) [OF t(1)] less_eq_div_iff_mult_less_eq [of "lh_num_nodes lh" 512 "lh_num_items lh * 256"]
    by (simp add: UP_LOAD_def LH_LOAD_MULT_def lh0_def)
  obtain room lh1 where e1: "(if ?full then expand al lh0 else (True, lh0)) = (room, lh1)"
    by fastforce
  show ?thesis
  proof (cases room)
    case False
    then have "lh1 = lh0\<lparr>lh_error := 1\<rparr>"
      using e1 expand_refused [OF t0, of al lh1] by (auto simp: lh0_def split: if_splits)
    moreover have "r = None" "lh' = lh1"
      using assms(3) e1 False lh_tableD_size(4) [OF t(1)] unfolding OPENSSL_LH_insert_def Let_def lh0_def by simp_all
    ultimately show ?thesis
      using assms(1) by (simp add: lh0_def)
  next
    case True
    have t1: "lh_table lh1 \<and> same_nodes lh0 lh1 \<and> lh_error lh1 = 0 \<and>
        lh_num_nodes lh1 \<le> max MIN_NODES (lh_num_items lh1 + 1)"
    proof (cases ?full)
      case True
      then have "expand al lh0 = (True, lh1)"
        using e1 \<open>room\<close> by simp
      then have g: "lh_table lh1" "same_nodes lh0 lh1" "lh_error lh1 = lh_error lh0" "lh_num_nodes lh1 = lh_num_nodes lh0 + 1"
        using expand_grown [OF t0 load [OF True]] by auto
      then show ?thesis
        using load [OF True] same_nodesD(5) [OF g(2)] lh_tableD(2,5) [OF t0] by (simp add: lh0_def)
    next
      case False
      then show ?thesis
        using e1 t0 t(2) by (auto simp: lh0_def same_nodes_def)
    qed
    then have s: "lh_comp lh1 = lh_comp lh" "lh_hash lh1 = lh_hash lh" "lh_items lh1 = lh_items lh"
      "lh_num_items lh1 = lh_num_items lh"
      using same_nodesD [of lh0 lh1] by (simp_all add: lh0_def)
    have t1: "lh_table lh1" "lh_error lh1 = 0" "lh_num_nodes lh1 \<le> max MIN_NODES (lh_num_items lh1 + 1)"
      using t1 by auto
    have e: "(r, lh') = (case slot lh1 (getrn lh1 d) of
        None \<Rightarrow> if \<not> al sizeof_lh_node then (None, lh1\<lparr>lh_error := lh_error lh1 + 1\<rparr>)
          else (None, lh1\<lparr>lh_b := (lh_b lh1)[fst (getrn lh1 d) :=
                   lh_b lh1 ! fst (getrn lh1 d) @ [\<lparr>lhn_data = d, lhn_hash = lh_hash lh1 d\<rparr>]],
                 lh_num_items := lh_num_items lh1 + 1\<rparr>)
      | Some n \<Rightarrow> (Some (lhn_data n),
          lh1\<lparr>lh_b := (lh_b lh1)[fst (getrn lh1 d) :=
            (lh_b lh1 ! fst (getrn lh1 d))[snd (getrn lh1 d) := n\<lparr>lhn_data := d\<rparr>]]\<rparr>))"
      using assms(3) e1 \<open>room\<close> lh_tableD_size(4) [OF t(1)]
      unfolding OPENSSL_LH_insert_def Let_def lh0_def by simp
    have i: "fst (getrn lh1 d) = lh_index lh1 (lh_hash lh1 d)"
      by (simp add: getrn_def Let_def)
    from insert_slot [where lh = lh1 and al = al and d = d, OF t1(1) _ e i] show ?thesis
      using s t1 assms(2) by (auto simp: lh_ok_def)
  qed
qed

lemma distinct_concat_nth:
  assumes "\<And>i. i < length xs \<Longrightarrow> distinct (xs ! i)"
    "\<And>i j. \<lbrakk>i < j; j < length xs\<rbrakk> \<Longrightarrow> set (xs ! i) \<inter> set (xs ! j) = {}"
  shows "distinct (concat xs)"
  using assms
proof (induction xs)
  case (Cons x xs)
  have "distinct (concat xs)"
    using Cons.prems(1) [of "Suc i" for i] Cons.prems(2) [of "Suc i" "Suc j" for i j] by (intro Cons.IH) auto
  moreover have "set x \<inter> set (concat xs) = {}"
    using Cons.prems(2) [of 0 "Suc j" for j] unfolding disjoint_iff bucket_mem by fastforce
  ultimately show ?case
    using Cons.prems(1) [of 0] by simp
qed simp

lemma chain_distinct:
  assumes "lh_keys (lh_hash lh) (lh_comp lh)" "chain_ok lh i ns"
  shows "distinct (map lhn_data ns)"
  using assms(2)
proof (induction ns)
  case (Cons n ns)
  have "lhn_data n \<noteq> lhn_data m" if "m \<in> set ns" for m
    using Cons.prems that lh_keysD(1) [OF assms(1), of "lhn_data n"] by (metis chain_ok_Cons_iff)
  then show ?case
    using Cons by (auto simp: chain_ok_Cons_iff)
qed simp

lemma lh_items_distinct:
  assumes "lh_table lh"
  shows "distinct (map lhn_data (concat (lh_b lh)))"
  unfolding map_concat
proof (rule distinct_concat_nth)
  show "distinct (map (map lhn_data) (lh_b lh) ! i)" if "i < length (map (map lhn_data) (lh_b lh))" for i
    using chain_distinct [OF lh_tableD(1) [OF assms] lh_tableD(7) [OF assms]] that by simp
  show "set (map (map lhn_data) (lh_b lh) ! i) \<inter> set (map (map lhn_data) (lh_b lh) ! j) = {}"
    if "i < j" "j < length (map (map lhn_data) (lh_b lh))" for i j
    using chains_apart [OF assms, of i j] that lh_keysD(1) [OF lh_tableD(1) [OF assms]] by force
qed

lemma lh_items_finite [simp]: "finite (lh_items lh)"
  by (simp add: lh_items_def)

lemma lh_items_card:
  assumes "lh_table lh"
  shows "card (lh_items lh) = lh_num_items lh"
proof -
  have "lh_items lh = set (map lhn_data (concat (lh_b lh)))"
    unfolding lh_items_def by (simp only: set_map)
  then show ?thesis
    using distinct_card [OF lh_items_distinct [OF assms]] lh_tableD(8) [OF assms] by (simp only: length_map)
qed

lemma LH_new_ok:
  assumes "OPENSSL_LH_new al h c = Some lh" "lh_keys h c"
  shows "lh_ok lh \<and> lh_items lh = {} \<and> lh_hash lh = h \<and> lh_comp lh = c \<and> lh_error lh = 0"
proof -
  have "lh = \<lparr>lh_b = replicate MIN_NODES [], lh_comp = c, lh_hash = h, lh_num_nodes = MIN_NODES div 2,
     lh_num_alloc_nodes = MIN_NODES, lh_p = 0, lh_pmax = MIN_NODES div 2, lh_up_load = UP_LOAD,
     lh_down_load = DOWN_LOAD, lh_num_items = 0, lh_error = 0\<rparr>"
    using assms(1) by (simp add: OPENSSL_LH_new_def split: if_splits)
  then show ?thesis
    using assms(2) by (auto simp: lh_ok_def lh_table_def lh_items_def MIN_NODES_def LH_MAX_ITEMS_def
      intro: exI [of _ 0])
qed

lemma expand_available:
  assumes "lh_table lh" "\<And>n. al n"
  shows "fst (expand al lh) \<and> lh_error (snd (expand al lh)) = lh_error lh"
proof -
  have "lh_num_alloc_nodes lh * 2 mod 4294967296 \<noteq> 0"
    using lh_sizes(2) [OF assms(1)] lh_tableD(2,4) [OF assms(1)] by (simp add: LH_MAX_ITEMS_def)
  then show ?thesis
    using assms(2) by (simp add: expand_def Let_def realloc_refused_def sizeof_ptr_def split: prod.split)
qed

lemma LH_insert_available:
  assumes "lh_ok lh" "\<And>n. al n"
  shows "lh_error (snd (OPENSSL_LH_insert al lh d)) = 0"
  using expand_available [of "lh\<lparr>lh_error := 0\<rparr>" al] assms
  by (auto simp: OPENSSL_LH_insert_def Let_def lh_ok_def split: prod.splits option.splits)

text \<open>A traversal visits every item once.\<close>

lemma LH_doall_items:
  assumes "lh_ok lh"
  shows "set (OPENSSL_LH_doall lh) = lh_items lh" "distinct (OPENSSL_LH_doall lh)"
proof -
  have t: "lh_table lh"
    using assms by (simp add: lh_ok_def)
  have "mset (concat (rev bs)) = mset (concat bs)" for bs :: "'a lh_node list list"
    by (induction bs) (simp_all add: add.commute)
  then have "mset (OPENSSL_LH_doall lh) = mset (map lhn_data (concat (lh_b lh)))"
    unfolding OPENSSL_LH_doall_def mset_map using concat_beyond [OF t order.refl] by simp
  then show "set (OPENSSL_LH_doall lh) = lh_items lh" "distinct (OPENSSL_LH_doall lh)"
    using lh_items_distinct [OF t] unfolding lh_items_def
    by (metis mset_eq_setD set_map, metis mset_eq_imp_distinct_iff)
qed

section \<open>The contract of the table\<close>

text \<open>
  A table of items with at most one item per key; \<open>same\<close> says that two items have the same key.
  Calls and their outcomes: the item returned, and whether the call reports an error.
\<close>

datatype 'd table_op = Put 'd | Del 'd | Get 'd

fun run_table ::
    "(allocator \<Rightarrow> 't \<Rightarrow> 'd \<Rightarrow> 'd option \<times> 't) \<Rightarrow> (allocator \<Rightarrow> 't \<Rightarrow> 'd \<Rightarrow> 'd option \<times> 't) \<Rightarrow>
     ('t \<Rightarrow> 'd \<Rightarrow> 'd option \<times> 't) \<Rightarrow> ('t \<Rightarrow> bool) \<Rightarrow> 't \<Rightarrow> (allocator \<times> 'd table_op) list \<Rightarrow>
     ('d option \<times> bool) list \<times> 't" where
  "run_table ins del get err t [] = ([], t)"
| "run_table ins del get err t ((al, op) # ops) =
     (let (r, t') = (case op of Put d \<Rightarrow> ins al t d | Del d \<Rightarrow> del al t d | Get d \<Rightarrow> get t d);
          (rs, t'') = run_table ins del get err t' ops
      in ((r, err t') # rs, t''))"

definition finds :: "('d \<Rightarrow> 'd \<Rightarrow> bool) \<Rightarrow> 'd set \<Rightarrow> 'd \<Rightarrow> 'd option \<Rightarrow> bool" where
  "finds same S d r \<longleftrightarrow> (\<forall>x. r = Some x \<longleftrightarrow> x \<in> S \<and> same x d)"

text \<open>The outcomes that the calls may have on a set of items, and the set they leave.\<close>

fun table_spec ::
    "('d \<Rightarrow> 'd \<Rightarrow> bool) \<Rightarrow> 'd set \<Rightarrow> 'd table_op list \<Rightarrow> ('d option \<times> bool) list \<Rightarrow> 'd set \<Rightarrow> bool" where
  "table_spec same S [] [] T \<longleftrightarrow> T = S"
| "table_spec same S (Put d # ops) ((r, err) # rs) T \<longleftrightarrow>
     (if err then r = None \<and> table_spec same S ops rs T
      else finds same S d r \<and> table_spec same (insert d {x \<in> S. \<not> same x d}) ops rs T)"
| "table_spec same S (Del d # ops) ((r, err) # rs) T \<longleftrightarrow>
     finds same S d r \<and> table_spec same {x \<in> S. \<not> same x d} ops rs T"
| "table_spec same S (Get d # ops) ((r, err) # rs) T \<longleftrightarrow>
     finds same S d r \<and> table_spec same S ops rs T"
| "table_spec same S _ _ T \<longleftrightarrow> False"

locale keyed_table =
  fixes ins del :: "allocator \<Rightarrow> 't \<Rightarrow> 'd \<Rightarrow> 'd option \<times> 't"
    and get :: "'t \<Rightarrow> 'd \<Rightarrow> 'd option \<times> 't"
    and err :: "'t \<Rightarrow> bool"
    and same :: "'d \<Rightarrow> 'd \<Rightarrow> bool"
    and inv :: "'t \<Rightarrow> bool"
    and items :: "'t \<Rightarrow> 'd set"
    and cap :: nat
  assumes finite_items: "inv t \<Longrightarrow> finite (items t)"
    and ins_law: "\<lbrakk>inv t; card (items t) < cap; ins al t d = (r, t')\<rbrakk> \<Longrightarrow>
      inv t' \<and> (if err t' then items t' = items t \<and> r = None
                else items t' = insert d {x \<in> items t. \<not> same x d} \<and> finds same (items t) d r)"
    and ins_available: "\<lbrakk>inv t; \<And>n. al n\<rbrakk> \<Longrightarrow> \<not> err (snd (ins al t d))"
    and del_law: "\<lbrakk>inv t; del al t d = (r, t')\<rbrakk> \<Longrightarrow>
      inv t' \<and> items t' = {x \<in> items t. \<not> same x d} \<and> finds same (items t) d r"
    and get_law: "\<lbrakk>inv t; get t d = (r, t')\<rbrakk> \<Longrightarrow>
      inv t' \<and> items t' = items t \<and> finds same (items t) d r"
begin

lemma ins_card: "finite S \<Longrightarrow> card (insert d {x \<in> S. \<not> same x d}) \<le> Suc (card S)"
proof -
  assume "finite S"
  then have "card {x \<in> S. \<not> same x d} \<le> card S"
    by (intro card_mono) auto
  with \<open>finite S\<close> show ?thesis
    by (simp add: card_insert_if)
qed

lemma run_table_spec:
  assumes "inv t" "card (items t) + length ops \<le> cap" "run_table ins del get err t ops = (rs, t')"
  shows "inv t' \<and> table_spec same (items t) (map snd ops) rs (items t')"
  using assms
proof (induction ops arbitrary: t rs)
  case (Cons x ops)
  obtain al op where x: "x = (al, op)"
    by (cases x)
  obtain r t1 where e1: "(case op of Put d \<Rightarrow> ins al t d | Del d \<Rightarrow> del al t d | Get d \<Rightarrow> get t d) = (r, t1)"
    by fastforce
  obtain rs2 where e2: "run_table ins del get err t1 ops = (rs2, t')" and rs: "rs = (r, err t1) # rs2"
    using Cons.prems(3) e1 by (auto simp: x split: prod.splits)
  note fin = finite_items [OF Cons.prems(1)]
  have step: "inv t1 \<and> card (items t1) \<le> Suc (card (items t)) \<and>
      (\<forall>T. table_spec same (items t1) (map snd ops) rs2 T \<longrightarrow>
         table_spec same (items t) (op # map snd ops) ((r, err t1) # rs2) T)"
  proof (cases op)
    case (Put d)
    then show ?thesis
      using ins_law [OF Cons.prems(1), of al d r t1] Cons.prems(2) e1 ins_card [OF fin, of d] by (auto split: if_splits)
  next
    case (Del d)
    moreover have "card {x \<in> items t. \<not> same x d} \<le> card (items t)"
      using fin by (intro card_mono) auto
    ultimately show ?thesis
      using del_law [OF Cons.prems(1), of al d r t1] e1 by auto
  next
    case (Get d)
    then show ?thesis
      using get_law [OF Cons.prems(1), of d r t1] e1 by auto
  qed
  then show ?case
    using Cons.IH [of t1 rs2] Cons.prems(2) e2 by (simp add: x rs)
qed simp

end

text \<open>The tables with a given comparison function.\<close>

definition lh_for :: "('d \<Rightarrow> 'd \<Rightarrow> int) \<Rightarrow> 'd lhash \<Rightarrow> bool" where
  "lh_for c lh \<longleftrightarrow> lh_ok lh \<and> lh_comp lh = c"

interpretation lh: keyed_table OPENSSL_LH_insert OPENSSL_LH_delete OPENSSL_LH_retrieve
    "\<lambda>t. OPENSSL_LH_error t \<noteq> 0" "\<lambda>a b. c a b = 0" "lh_for c" lh_items LH_MAX_ITEMS for c
proof
  fix t t' :: "'a lhash" and al :: allocator and d r
  assume t: "lh_for c t"
  then have ok: "lh_ok t" "lh_comp t = c" "lh_table t"
    by (simp_all add: lh_for_def lh_ok_def)
  show "lh_for c t' \<and> (if OPENSSL_LH_error t' \<noteq> 0 then lh_items t' = lh_items t \<and> r = None
      else lh_items t' = insert d {x \<in> lh_items t. c x d \<noteq> 0} \<and> finds (\<lambda>a b. c a b = 0) (lh_items t) d r)"
    if "card (lh_items t) < LH_MAX_ITEMS" "OPENSSL_LH_insert al t d = (r, t')"
    using LH_insert_spec [OF ok(1) _ that(2)] that(1) lh_items_card [OF ok(3)] ok(2)
    by (simp add: lh_for_def OPENSSL_LH_error_def finds_def)
  show "lh_for c t' \<and> lh_items t' = {x \<in> lh_items t. c x d \<noteq> 0} \<and> finds (\<lambda>a b. c a b = 0) (lh_items t) d r"
    if "OPENSSL_LH_delete al t d = (r, t')"
    using LH_delete_spec [OF ok(1) that] ok(2) by (simp add: lh_for_def finds_def)
  show "lh_for c t' \<and> lh_items t' = lh_items t \<and> finds (\<lambda>a b. c a b = 0) (lh_items t) d r"
    if "OPENSSL_LH_retrieve t d = (r, t')"
    using LH_retrieve_spec [OF ok(1) that] ok by (simp add: lh_for_def finds_def)
qed (auto simp: lh_for_def OPENSSL_LH_error_def LH_insert_available)

section \<open>Properties\<close>

text \<open>
  C5: the hash table is a set of items with one item per key. From a new table, for any sequence
  of at most \<open>2 ^ 27\<close> insertions, deletions and lookups, with any pattern of allocation failures
  and however the table grows and shrinks, every call returns what the same call on a set returns,
  an insertion that reports an error changes nothing, and a traversal visits every item once.
\<close>

theorem lhash_refines:
  assumes "OPENSSL_LH_new al h c = Some lh" "lh_keys h c" "length ops \<le> LH_MAX_ITEMS"
    and "run_table OPENSSL_LH_insert OPENSSL_LH_delete OPENSSL_LH_retrieve
      (\<lambda>t. OPENSSL_LH_error t \<noteq> 0) lh ops = (rs, lh')"
  shows "table_spec (\<lambda>a b. c a b = 0) {} (map snd ops) rs (lh_items lh') \<and>
    set (OPENSSL_LH_doall lh') = lh_items lh' \<and> distinct (OPENSSL_LH_doall lh')"
proof -
  have new: "lh_for c lh" "lh_items lh = {}"
    using LH_new_ok [OF assms(1,2)] by (simp_all add: lh_for_def)
  from lh.run_table_spec [OF new(1) _ assms(4)] show ?thesis
    using assms(3) new(2) LH_doall_items [of lh'] by (simp add: lh_for_def)
qed

theorem lhash_refines_witness:
  "\<exists>lh rs lh'. OPENSSL_LH_new (\<lambda>_. True) (\<lambda>d :: nat \<times> nat. 7) (\<lambda>a b. if fst a = fst b then 0 else 1) = Some lh \<and>
     run_table OPENSSL_LH_insert OPENSSL_LH_delete OPENSSL_LH_retrieve (\<lambda>t. OPENSSL_LH_error t \<noteq> 0) lh
       [(\<lambda>_. True, Put (1, 5)), (\<lambda>_. False, Put (2, 6)), (\<lambda>_. True, Put (1, 9)), (\<lambda>_. True, Get (1, 0))] = (rs, lh') \<and>
     rs = [(None, False), (None, True), (Some (1, 5), False), (Some (1, 9), False)] \<and>
     set (OPENSSL_LH_doall lh') = lh_items lh' \<and> distinct (OPENSSL_LH_doall lh')"
proof -
  let ?h = "\<lambda>d :: nat \<times> nat. 7 :: u64" and ?c = "\<lambda>a b :: nat \<times> nat. if fst a = fst b then 0 else 1 :: int"
  let ?ops = "[(\<lambda>_ :: nat. True, Put (1 :: nat, 5 :: nat)), (\<lambda>_. False, Put (2, 6)), (\<lambda>_. True, Put (1, 9)), (\<lambda>_. True, Get (1, 0))]"
  obtain lh where new: "OPENSSL_LH_new (\<lambda>_. True) ?h ?c = Some lh"
    by (simp add: OPENSSL_LH_new_def)
  have keys: "lh_keys ?h ?c"
    by (auto simp: lh_keys_def split: if_splits)
  let ?run = "run_table OPENSSL_LH_insert OPENSSL_LH_delete OPENSSL_LH_retrieve (\<lambda>t. OPENSSL_LH_error t \<noteq> 0) lh ?ops"
  have "fst (run_table OPENSSL_LH_insert OPENSSL_LH_delete OPENSSL_LH_retrieve (\<lambda>t. OPENSSL_LH_error t \<noteq> 0)
      (the (OPENSSL_LH_new (\<lambda>_. True) ?h ?c)) ?ops)
    = [(None, False), (None, True), (Some (1, 5), False), (Some (1, 9), False)]"
    by code_simp
  then have fst_run: "fst ?run = [(None, False), (None, True), (Some (1, 5), False), (Some (1, 9), False)]"
    unfolding new option.sel .
  obtain rs lh' where run: "?run = (rs, lh')"
    by (cases ?run)
  have rs: "rs = [(None, False), (None, True), (Some (1, 5), False), (Some (1, 9), False)]"
    using fst_run unfolding run fst_conv .
  have len: "length ?ops \<le> LH_MAX_ITEMS"
    by (simp add: LH_MAX_ITEMS_def)
  show ?thesis
    using new run rs lhash_refines [OF new keys len run, THEN conjunct2] by blast
qed

end
