(* ===== verification/Quic_Ackm.thy ===== *)
theory Quic_Ackm
  imports Ossl_Time Uint_Set Lhash
begin

text \<open>
  The QUIC ACK manager, \<open>ssl/quic/quic_ackm.c\<close>: the history of sent packets, the history of
  received packet numbers, RFC 9002 loss detection and the generation of ACK frames. The state
  \<open>OSSL_ACKM\<close> is the record \<open>ackm\<close>; an array indexed by packet number space is a function of the
  space. Every handler of the source is one function from the state to the state and the value it
  returns.

  Calls that leave the component (the callbacks of a packet, the congestion controller, the
  deadline callbacks) are appended to \<open>ak_trace\<close> in the order in which they are made. Each reading
  of the clock is an argument of its own, because the time may change between two readings in one
  call. Requests for memory go through the allocator \<open>al\<close>.
\<close>

section \<open>Packets and histories\<close>

datatype pn_space = QUIC_PN_SPACE_INITIAL | QUIC_PN_SPACE_HANDSHAKE | QUIC_PN_SPACE_APP

type_synonym QUIC_PN = u64

definition QUIC_PN_INVALID :: QUIC_PN where "QUIC_PN_INVALID = - 1"

definition ossl_quic_pn_max :: "QUIC_PN \<Rightarrow> QUIC_PN \<Rightarrow> QUIC_PN" where
  "ossl_quic_pn_max a b = (if a > b then a else b)"

definition ossl_quic_pn_valid :: "QUIC_PN \<Rightarrow> bool" where
  "ossl_quic_pn_valid pn \<longleftrightarrow> pn < push_bit 62 1"

text \<open>
  \<open>OSSL_ACKM_TX_PKT\<close>. \<open>cb_arg\<close> stands for the callbacks and their argument; the links of the
  history list are the list itself.
\<close>

record tx_pkt =
  pkt_num :: QUIC_PN
  num_bytes :: u64
  tx_time :: OSSL_TIME
  largest_acked :: QUIC_PN
  pkt_space :: pn_space
  is_inflight :: bool
  is_ack_eliciting :: bool
  cb_arg :: nat

record tx_pkt_history =
  th_packets :: "tx_pkt list"
  th_map :: "tx_pkt lhash option"
  th_watermark :: u64
  th_highest_sent :: u64

definition tx_pkt_info_hash :: "tx_pkt \<Rightarrow> u64" where
  "tx_pkt_info_hash pkt = pkt_num pkt"

definition tx_pkt_info_compare :: "tx_pkt \<Rightarrow> tx_pkt \<Rightarrow> int" where
  "tx_pkt_info_compare a b =
     (if pkt_num a < pkt_num b then - 1 else if pkt_num a > pkt_num b then 1 else 0)"

definition tx_pkt_history_init :: "allocator \<Rightarrow> tx_pkt_history option" where
  "tx_pkt_history_init al =
     (case OPENSSL_LH_new al tx_pkt_info_hash tx_pkt_info_compare of
        None \<Rightarrow> None
      | Some m \<Rightarrow> Some \<lparr>th_packets = [], th_map = Some m, th_watermark = 0, th_highest_sent = 0\<rparr>)"

definition tx_pkt_history_destroy :: "tx_pkt_history \<Rightarrow> tx_pkt_history" where
  "tx_pkt_history_destroy h = h\<lparr>th_map := None, th_packets := []\<rparr>"

text \<open>
  The lookups through the map. The map of a history is \<open>NULL\<close> only after it was destroyed, and the
  accessors of the source assert that they are not called then. A packet that is added is not in
  a list yet, which is the second assertion of \<open>tx_pkt_history_add_actual\<close>.
\<close>

definition th_retrieve :: "tx_pkt_history \<Rightarrow> tx_pkt \<Rightarrow> tx_pkt option \<times> tx_pkt_history" where
  "th_retrieve h key =
     (case th_map h of
        None \<Rightarrow> (None, h)
      | Some m \<Rightarrow> (case OPENSSL_LH_retrieve m key of (r, m') \<Rightarrow> (r, h\<lparr>th_map := Some m'\<rparr>)))"

definition tx_pkt_history_add_actual :: "allocator \<Rightarrow> tx_pkt_history \<Rightarrow> tx_pkt \<Rightarrow> bool \<times> tx_pkt_history" where
  "tx_pkt_history_add_actual al h pkt =
     (case th_retrieve h pkt of
        (existing, h) \<Rightarrow>
          if existing \<noteq> None then (False, h)
          else
            (case th_map h of
               None \<Rightarrow> (False, h)
             | Some m \<Rightarrow>
                 (case OPENSSL_LH_insert al m pkt of
                    (_, m') \<Rightarrow>
                      let h = h\<lparr>th_map := Some m'\<rparr>
                      in if OPENSSL_LH_error m' \<noteq> 0 then (False, h)
                         else (True, h\<lparr>th_packets := th_packets h @ [pkt]\<rparr>))))"

definition tx_pkt_history_add :: "allocator \<Rightarrow> tx_pkt_history \<Rightarrow> tx_pkt \<Rightarrow> bool \<times> tx_pkt_history" where
  "tx_pkt_history_add al h pkt =
     (if \<not> pkt_num pkt \<ge> th_watermark h then (False, h)
      else
        (case tx_pkt_history_add_actual al h pkt of
           (ok, h) \<Rightarrow>
             if \<not> ok then (False, h)
             else (True, h\<lparr>th_watermark := pkt_num pkt + 1, th_highest_sent := pkt_num pkt\<rparr>)))"

text \<open>The search key: only \<open>pkt_num\<close> is set.\<close>

definition tx_key :: "QUIC_PN \<Rightarrow> tx_pkt" where
  "tx_key pn = \<lparr>pkt_num = pn, num_bytes = 0, tx_time = 0, largest_acked = 0,
     pkt_space = QUIC_PN_SPACE_INITIAL, is_inflight = False, is_ack_eliciting = False, cb_arg = 0\<rparr>"

definition tx_pkt_history_by_pkt_num :: "tx_pkt_history \<Rightarrow> QUIC_PN \<Rightarrow> tx_pkt option \<times> tx_pkt_history" where
  "tx_pkt_history_by_pkt_num h pn = th_retrieve h (tx_key pn)"

definition tx_pkt_history_remove :: "allocator \<Rightarrow> tx_pkt_history \<Rightarrow> QUIC_PN \<Rightarrow> bool \<times> tx_pkt_history" where
  "tx_pkt_history_remove al h pn =
     (case tx_pkt_history_by_pkt_num h pn of
        (None, h) \<Rightarrow> (False, h)
      | (Some pkt, h) \<Rightarrow>
          (True, h\<lparr>th_packets := remove1 pkt (th_packets h),
                   th_map := map_option (\<lambda>m. snd (OPENSSL_LH_delete al m (tx_key pn))) (th_map h)\<rparr>))"

record rx_pkt_history =
  rh_set :: uint_set
  rh_watermark :: QUIC_PN

definition MAX_RX_ACK_RANGES :: nat where "MAX_RX_ACK_RANGES = 32"

definition rx_pkt_history_init :: rx_pkt_history where
  "rx_pkt_history_init = \<lparr>rh_set = ossl_uint_set_init, rh_watermark = 0\<rparr>"

definition rx_pkt_history_destroy :: "rx_pkt_history \<Rightarrow> rx_pkt_history" where
  "rx_pkt_history_destroy h = h\<lparr>rh_set := []\<rparr>"

definition rx_pkt_history_bump_watermark ::
    "allocator \<Rightarrow> rx_pkt_history \<Rightarrow> QUIC_PN \<Rightarrow> bool \<times> rx_pkt_history" where
  "rx_pkt_history_bump_watermark al h watermark =
     (if watermark \<le> rh_watermark h then (True, h)
      else
        (case ossl_uint_set_remove al (rh_set h) \<lparr>ur_start = 0, ur_end = watermark - 1\<rparr> of
           (ok, s) \<Rightarrow>
             if \<not> ok then (False, h\<lparr>rh_set := s\<rparr>)
             else (True, h\<lparr>rh_set := s, rh_watermark := watermark\<rparr>)))"

text \<open>
  The loop of \<open>rx_pkt_history_trim_range_count\<close> returns the set and \<open>highest\<close>. It would not end
  on a set whose first range cannot be removed.
\<close>

partial_function (option) trim_loop :: "allocator \<Rightarrow> uint_set \<Rightarrow> QUIC_PN \<Rightarrow> (uint_set \<times> QUIC_PN) option" where
  "trim_loop al s highest =
     (if length s > MAX_RX_ACK_RANGES then
        let r = hd s;
            highest = (if highest = QUIC_PN_INVALID then ur_end r else ossl_quic_pn_max highest (ur_end r))
        in trim_loop al (snd (ossl_uint_set_remove al s r)) highest
      else Some (s, highest))"

declare trim_loop.simps [code]

definition rx_pkt_history_trim_range_count :: "allocator \<Rightarrow> rx_pkt_history \<Rightarrow> rx_pkt_history option" where
  "rx_pkt_history_trim_range_count al h =
     (case trim_loop al (rh_set h) QUIC_PN_INVALID of
        None \<Rightarrow> None
      | Some (s, highest) \<Rightarrow>
          let h = h\<lparr>rh_set := s\<rparr>
          in if highest \<noteq> QUIC_PN_INVALID then Some (snd (rx_pkt_history_bump_watermark al h (highest + 1)))
             else Some h)"

definition rx_pkt_history_add_pn :: "allocator \<Rightarrow> rx_pkt_history \<Rightarrow> QUIC_PN \<Rightarrow> (bool \<times> rx_pkt_history) option" where
  "rx_pkt_history_add_pn al h pn =
     (if pn < rh_watermark h then Some (True, h)
      else
        (case ossl_uint_set_insert al (rh_set h) \<lparr>ur_start = pn, ur_end = pn\<rparr> of
           (ok, s) \<Rightarrow>
             let h = h\<lparr>rh_set := s\<rparr>
             in if \<not> ok then Some (False, h)
                else map_option (Pair True) (rx_pkt_history_trim_range_count al h)))"

section \<open>The state\<close>

text \<open>Calls made to the rest of the connection, in the order in which they happen.\<close>

datatype ackm_event =
    On_lost tx_pkt
  | On_acked tx_pkt
  | On_discarded tx_pkt
  | Cc_data_sent u64
  | Cc_data_acked OSSL_TIME u64
  | Cc_data_lost OSSL_TIME u64
  | Cc_data_lost_finished u32
  | Cc_data_invalidated u64
  | Cc_ecn OSSL_TIME
  | Loss_deadline OSSL_TIME
  | Ack_deadline OSSL_TIME pn_space

text \<open>\<open>OSSL_QUIC_FRAME_ACK\<close>: \<open>num_ack_ranges\<close> is the length of the list.\<close>

record ack_frame =
  ack_ranges :: "uint_range list"
  delay_time :: OSSL_TIME
  ect0 :: u64
  ect1 :: u64
  ecnce :: u64
  ecn_present :: bool

datatype ackm_ecn = OSSL_ACKM_ECN_NONE | OSSL_ACKM_ECN_ECT1 | OSSL_ACKM_ECN_ECT0 | OSSL_ACKM_ECN_ECNCE

record rx_pkt =
  rp_pkt_num :: QUIC_PN
  rp_time :: OSSL_TIME
  rp_pkt_space :: pn_space
  rp_is_ack_eliciting :: bool
  rp_ecn :: ackm_ecn

record probe_info =
  anti_deadlock_initial :: u32
  anti_deadlock_handshake :: u32
  pi_pto :: "pn_space \<Rightarrow> u32"

definition K_GRANULARITY :: u64 where "K_GRANULARITY = 1 * OSSL_TIME_MS"
definition K_PKT_THRESHOLD :: u64 where "K_PKT_THRESHOLD = 3"
definition K_TIME_THRESHOLD_NUM :: u64 where "K_TIME_THRESHOLD_NUM = 9"
definition K_TIME_THRESHOLD_DEN :: u64 where "K_TIME_THRESHOLD_DEN = 8"
definition MAX_PTO_COUNT :: u32 where "MAX_PTO_COUNT = 16"
definition QUIC_DEFAULT_MAX_ACK_DELAY :: u64 where "QUIC_DEFAULT_MAX_ACK_DELAY = 25"
definition DEFAULT_TX_MAX_ACK_DELAY :: OSSL_TIME where
  "DEFAULT_TX_MAX_ACK_DELAY = ossl_ms2time QUIC_DEFAULT_MAX_ACK_DELAY"
definition PKTS_BEFORE_ACK :: u32 where "PKTS_BEFORE_ACK = 2"

text \<open>
  \<open>struct ossl_ackm_st\<close>. \<open>loss_cb\<close> and \<open>ack_cb\<close> tell whether a deadline callback is set; \<open>statm\<close>
  is the statistics manager the structure points to.
\<close>

record ackm =
  tx_history :: "pn_space \<Rightarrow> tx_pkt_history"
  rx_history :: "pn_space \<Rightarrow> rx_pkt_history"
  statm :: ossl_statm
  pto_count :: u32
  largest_acked_pkt :: "pn_space \<Rightarrow> QUIC_PN"
  time_of_last_ack_eliciting_pkt :: "pn_space \<Rightarrow> OSSL_TIME"
  loss_time :: "pn_space \<Rightarrow> OSSL_TIME"
  loss_detection_deadline :: OSSL_TIME
  first_rtt_sample :: OSSL_TIME
  bytes_in_flight :: u64
  ack_eliciting_bytes_in_flight :: "pn_space \<Rightarrow> u64"
  peer_ecnce :: "pn_space \<Rightarrow> u64"
  handshake_confirmed :: bool
  is_server :: bool
  peer_completed_addr_validation :: bool
  discarded :: "pn_space \<Rightarrow> bool"
  rx_ack_desired :: "pn_space \<Rightarrow> bool"
  rx_ack_generated :: "pn_space \<Rightarrow> bool"
  pending_probe :: probe_info
  ack :: "pn_space \<Rightarrow> ack_frame"
  rx_largest_pn :: "pn_space \<Rightarrow> QUIC_PN"
  rx_largest_time :: "pn_space \<Rightarrow> OSSL_TIME"
  rx_ect0 :: "pn_space \<Rightarrow> u64"
  rx_ect1 :: "pn_space \<Rightarrow> u64"
  rx_ecnce :: "pn_space \<Rightarrow> u64"
  rx_ack_eliciting_pkts_since_last_ack :: "pn_space \<Rightarrow> u32"
  rx_ack_flush_deadline :: "pn_space \<Rightarrow> OSSL_TIME"
  rx_max_ack_delay :: OSSL_TIME
  tx_max_ack_delay :: OSSL_TIME
  loss_cb :: bool
  ack_cb :: bool
  ak_trace :: "ackm_event list"

definition min_u32 :: "u32 \<Rightarrow> u32 \<Rightarrow> u32" where
  "min_u32 x y = (if x < y then x else y)"

definition emit :: "ackm_event \<Rightarrow> ackm \<Rightarrow> ackm" where
  "emit e a = a\<lparr>ak_trace := ak_trace a @ [e]\<rparr>"

section \<open>Loss detection\<close>

definition ack_includes_ack_eliciting :: "tx_pkt list \<Rightarrow> bool" where
  "ack_includes_ack_eliciting pkts \<longleftrightarrow> list_ex is_ack_eliciting pkts"

definition ackm_ack_eliciting_bytes_in_flight :: "ackm \<Rightarrow> u64" where
  "ackm_ack_eliciting_bytes_in_flight a =
     ack_eliciting_bytes_in_flight a QUIC_PN_SPACE_INITIAL +
     ack_eliciting_bytes_in_flight a QUIC_PN_SPACE_HANDSHAKE +
     ack_eliciting_bytes_in_flight a QUIC_PN_SPACE_APP"

definition range_contains :: "uint_range \<Rightarrow> QUIC_PN \<Rightarrow> bool" where
  "range_contains r pn \<longleftrightarrow> pn \<ge> ur_start r \<and> pn \<le> ur_end r"

text \<open>
  The inner loop of \<open>ackm_detect_and_remove_newly_acked_pkts\<close> for one packet, on the ranges from
  \<open>ridx\<close>: \<open>None\<close> is the jump to \<open>stop\<close>; otherwise whether the packet matched, and the ranges from
  the new \<open>ridx\<close>.
\<close>

fun match_range :: "uint_range list \<Rightarrow> QUIC_PN \<Rightarrow> (bool \<times> uint_range list) option" where
  "match_range [] pn = None"
| "match_range (r # rs) pn =
     (if range_contains r pn then Some (True, r # rs)
      else if pn > ur_end r then Some (False, r # rs)
      else match_range rs pn)"

text \<open>The outer loop, on the packets from the cursor backwards.\<close>

fun newly_acked_walk ::
    "allocator \<Rightarrow> tx_pkt_history \<Rightarrow> uint_range list \<Rightarrow> tx_pkt list \<Rightarrow> tx_pkt list \<times> tx_pkt_history" where
  "newly_acked_walk al h rs [] = ([], h)"
| "newly_acked_walk al h rs (pkt # pprev) =
     (case match_range rs (pkt_num pkt) of
        None \<Rightarrow> ([], h)
      | Some (True, rs') \<Rightarrow>
          (case newly_acked_walk al (snd (tx_pkt_history_remove al h (pkt_num pkt))) rs' pprev of
             (acked, h') \<Rightarrow> (pkt # acked, h'))
      | Some (False, rs') \<Rightarrow> newly_acked_walk al h rs' pprev)"

definition ackm_detect_and_remove_newly_acked_pkts ::
    "allocator \<Rightarrow> ackm \<Rightarrow> ack_frame \<Rightarrow> pn_space \<Rightarrow> tx_pkt list \<times> ackm" where
  "ackm_detect_and_remove_newly_acked_pkts al a ak sp =
     (case tx_pkt_history_by_pkt_num (tx_history a sp) (ur_end (hd (ack_ranges ak))) of
        (found, h) \<Rightarrow>
          let cursor = (case found of
                          None \<Rightarrow> rev (th_packets h)
                        | Some pkt \<Rightarrow> dropWhile (\<lambda>q. q \<noteq> pkt) (rev (th_packets h)))
          in case newly_acked_walk al h (ack_ranges ak) cursor of
               (acked, h) \<Rightarrow> (acked, a\<lparr>tx_history := (tx_history a)(sp := h)\<rparr>))"

fun lost_walk ::
    "allocator \<Rightarrow> QUIC_PN \<Rightarrow> OSSL_TIME \<Rightarrow> OSSL_TIME \<Rightarrow> tx_pkt_history \<Rightarrow> OSSL_TIME \<Rightarrow> tx_pkt list \<Rightarrow>
     tx_pkt list \<times> tx_pkt_history \<times> OSSL_TIME" where
  "lost_walk al largest loss_delay lost_send_time h lt [] = ([], h, lt)"
| "lost_walk al largest loss_delay lost_send_time h lt (pkt # pnext) =
     (if pkt_num pkt > largest then lost_walk al largest loss_delay lost_send_time h lt pnext
      else if ossl_time_compare (tx_time pkt) lost_send_time \<le> 0 \<or> largest \<ge> pkt_num pkt + K_PKT_THRESHOLD then
        (case lost_walk al largest loss_delay lost_send_time
                (snd (tx_pkt_history_remove al h (pkt_num pkt))) lt pnext of
           (lost, h', lt') \<Rightarrow> (pkt # lost, h', lt'))
      else
        lost_walk al largest loss_delay lost_send_time h
          (if ossl_time_is_zero lt then ossl_time_add (tx_time pkt) loss_delay
           else ossl_time_min lt (ossl_time_add (tx_time pkt) loss_delay)) pnext)"

definition ackm_loss_delay :: "ackm \<Rightarrow> OSSL_TIME" where
  "ackm_loss_delay a =
     (let rtt = statm a;
          loss_delay = ossl_time_multiply (ossl_time_max (latest_rtt rtt) (smoothed_rtt rtt)) K_TIME_THRESHOLD_NUM;
          loss_delay = ossl_time_divide loss_delay K_TIME_THRESHOLD_DEN
      in ossl_time_max loss_delay (ossl_ticks2time K_GRANULARITY))"

definition ackm_detect_and_remove_lost_pkts ::
    "allocator \<Rightarrow> OSSL_TIME \<Rightarrow> ackm \<Rightarrow> pn_space \<Rightarrow> tx_pkt list \<times> ackm" where
  "ackm_detect_and_remove_lost_pkts al now a sp =
     (let loss_delay = ackm_loss_delay a;
          lost_send_time = ossl_time_subtract now loss_delay;
          h = tx_history a sp
      in case lost_walk al (largest_acked_pkt a sp) loss_delay lost_send_time h ossl_time_zero (th_packets h) of
           (lost, h, lt) \<Rightarrow>
             (lost, a\<lparr>tx_history := (tx_history a)(sp := h), loss_time := (loss_time a)(sp := lt)\<rparr>))"

definition ackm_get_loss_time_and_space :: "ackm \<Rightarrow> OSSL_TIME \<times> pn_space" where
  "ackm_get_loss_time_and_space a =
     foldl (\<lambda>(t, sp) i. if ossl_time_is_zero t \<or> ossl_time_compare (loss_time a i) t = - 1
                         then (loss_time a i, i) else (t, sp))
       (loss_time a QUIC_PN_SPACE_INITIAL, QUIC_PN_SPACE_INITIAL)
       [QUIC_PN_SPACE_HANDSHAKE, QUIC_PN_SPACE_APP]"

fun pto_walk :: "ackm \<Rightarrow> OSSL_TIME \<Rightarrow> OSSL_TIME \<times> pn_space \<Rightarrow> pn_space list \<Rightarrow> OSSL_TIME \<times> pn_space" where
  "pto_walk a duration (pto_timeout, pto_space) [] = (pto_timeout, pto_space)"
| "pto_walk a duration (pto_timeout, pto_space) (i # is) =
     (if ack_eliciting_bytes_in_flight a i = 0 \<and> (handshake_confirmed a \<or> is_server a) then
        pto_walk a duration (pto_timeout, pto_space) is
      else if i = QUIC_PN_SPACE_APP \<and> \<not> handshake_confirmed a then (pto_timeout, pto_space)
      else
        let duration =
              (if i = QUIC_PN_SPACE_APP \<and> \<not> ossl_time_is_infinite (rx_max_ack_delay a) then
                 ossl_time_add duration
                   (ossl_time_multiply (rx_max_ack_delay a) (push_bit (unat (min_u32 (pto_count a) MAX_PTO_COUNT)) 1))
               else duration);
            t = ossl_time_add (time_of_last_ack_eliciting_pkt a i) duration
        in if \<not> ossl_time_is_zero (time_of_last_ack_eliciting_pkt a i) \<and> ossl_time_compare t pto_timeout < 0 then
             pto_walk a duration (t, i) is
           else pto_walk a duration (pto_timeout, pto_space) is)"

definition ackm_get_pto_time_and_space :: "OSSL_TIME \<Rightarrow> ackm \<Rightarrow> OSSL_TIME \<times> pn_space" where
  "ackm_get_pto_time_and_space now a =
     (let rtt = statm a;
          duration = ossl_time_add (smoothed_rtt rtt)
            (ossl_time_max (ossl_time_multiply (rtt_variance rtt) 4) (ossl_ticks2time K_GRANULARITY));
          duration = ossl_time_multiply duration (push_bit (unat (min_u32 (pto_count a) MAX_PTO_COUNT)) 1)
      in if ackm_ack_eliciting_bytes_in_flight a = 0 then
           (ossl_time_add now duration,
            if discarded a QUIC_PN_SPACE_INITIAL then QUIC_PN_SPACE_HANDSHAKE else QUIC_PN_SPACE_INITIAL)
         else
           pto_walk a duration (ossl_time_infinite, QUIC_PN_SPACE_INITIAL)
             [QUIC_PN_SPACE_INITIAL, QUIC_PN_SPACE_HANDSHAKE, QUIC_PN_SPACE_APP])"

definition ackm_set_loss_detection_timer_actual :: "ackm \<Rightarrow> OSSL_TIME \<Rightarrow> ackm" where
  "ackm_set_loss_detection_timer_actual a deadline =
     (let a = a\<lparr>loss_detection_deadline := deadline\<rparr>
      in if loss_cb a then emit (Loss_deadline deadline) a else a)"

definition ackm_set_loss_detection_timer :: "OSSL_TIME \<Rightarrow> ackm \<Rightarrow> ackm" where
  "ackm_set_loss_detection_timer now a =
     (let earliest_loss_time = fst (ackm_get_loss_time_and_space a)
      in if \<not> ossl_time_is_zero earliest_loss_time then
           ackm_set_loss_detection_timer_actual a earliest_loss_time
         else if ackm_ack_eliciting_bytes_in_flight a = 0 \<and> peer_completed_addr_validation a then
           ackm_set_loss_detection_timer_actual a ossl_time_zero
         else ackm_set_loss_detection_timer_actual a (fst (ackm_get_pto_time_and_space now a)))"

definition ackm_in_persistent_congestion :: "ackm \<Rightarrow> tx_pkt list \<Rightarrow> bool" where
  "ackm_in_persistent_congestion a lpkt = False"

definition OSSL_CC_LOST_FLAG_PERSISTENT_CONGESTION :: u32 where
  "OSSL_CC_LOST_FLAG_PERSISTENT_CONGESTION = 1"

text \<open>The bytes of a packet that leaves the history are taken off the counters.\<close>

definition release_bytes :: "tx_pkt \<Rightarrow> ackm \<Rightarrow> ackm" where
  "release_bytes p a =
     (let a = a\<lparr>bytes_in_flight := bytes_in_flight a - num_bytes p\<rparr>
      in if is_ack_eliciting p then
           a\<lparr>ack_eliciting_bytes_in_flight := (ack_eliciting_bytes_in_flight a)
               (pkt_space p := ack_eliciting_bytes_in_flight a (pkt_space p) - num_bytes p)\<rparr>
         else a)"

definition on_pkt_lost :: "bool \<Rightarrow> tx_pkt \<Rightarrow> ackm \<Rightarrow> ackm" where
  "on_pkt_lost pseudo p a =
     (let a = (if is_inflight p then
                 let a = release_bytes p a
                 in if \<not> pseudo then emit (Cc_data_lost (tx_time p) (num_bytes p)) a else a
               else a)
      in emit (On_lost p) a)"

definition ackm_on_pkts_lost :: "ackm \<Rightarrow> tx_pkt list \<Rightarrow> bool \<Rightarrow> ackm" where
  "ackm_on_pkts_lost a lpkt pseudo =
     (let a = fold (on_pkt_lost pseudo) lpkt a;
          flags = (if \<not> ossl_time_is_zero (first_rtt_sample a) \<and> ackm_in_persistent_congestion a lpkt
                   then OSSL_CC_LOST_FLAG_PERSISTENT_CONGESTION else 0)
      in emit (Cc_data_lost_finished flags) a)"

definition on_pkt_acked :: "allocator \<Rightarrow> tx_pkt \<Rightarrow> ackm \<Rightarrow> ackm" where
  "on_pkt_acked al p a =
     (let a = (if is_inflight p then
                 let a = release_bytes p a
                 in if largest_acked p \<noteq> QUIC_PN_INVALID then
                      a\<lparr>rx_history := (rx_history a)(pkt_space p :=
                          snd (rx_pkt_history_bump_watermark al (rx_history a (pkt_space p)) (largest_acked p + 1)))\<rparr>
                    else a
               else a);
          a = emit (On_acked p) a
      in if is_inflight p then emit (Cc_data_acked (tx_time p) (num_bytes p)) a else a)"

definition ackm_on_pkts_acked :: "allocator \<Rightarrow> ackm \<Rightarrow> tx_pkt list \<Rightarrow> ackm" where
  "ackm_on_pkts_acked al a apkt = fold (on_pkt_acked al) apkt a"

section \<open>Life cycle and transmission\<close>

text \<open>\<open>sizeof(OSSL_ACKM)\<close> with 64-bit pointers.\<close>

definition sizeof_ackm :: nat where "sizeof_ackm = 2400"

definition ossl_ackm_new :: "allocator \<Rightarrow> ossl_statm \<Rightarrow> bool \<Rightarrow> ackm option" where
  "ossl_ackm_new al st server =
     (if \<not> al sizeof_ackm then None
      else
        (case (tx_pkt_history_init al, tx_pkt_history_init al, tx_pkt_history_init al) of
           (Some h0, Some h1, Some h2) \<Rightarrow>
             Some \<lparr>tx_history = (\<lambda>sp. case sp of QUIC_PN_SPACE_INITIAL \<Rightarrow> h0 | QUIC_PN_SPACE_HANDSHAKE \<Rightarrow> h1 | QUIC_PN_SPACE_APP \<Rightarrow> h2),
                   rx_history = (\<lambda>_. rx_pkt_history_init),
                   statm = st,
                   pto_count = 0,
                   largest_acked_pkt = (\<lambda>_. QUIC_PN_INVALID),
                   time_of_last_ack_eliciting_pkt = (\<lambda>_. 0),
                   loss_time = (\<lambda>_. 0),
                   loss_detection_deadline = 0,
                   first_rtt_sample = 0,
                   bytes_in_flight = 0,
                   ack_eliciting_bytes_in_flight = (\<lambda>_. 0),
                   peer_ecnce = (\<lambda>_. 0),
                   handshake_confirmed = False,
                   is_server = server,
                   peer_completed_addr_validation = False,
                   discarded = (\<lambda>_. False),
                   rx_ack_desired = (\<lambda>_. False),
                   rx_ack_generated = (\<lambda>_. False),
                   pending_probe = \<lparr>anti_deadlock_initial = 0, anti_deadlock_handshake = 0, pi_pto = (\<lambda>_. 0)\<rparr>,
                   ack = (\<lambda>_. \<lparr>ack_ranges = [], delay_time = 0, ect0 = 0, ect1 = 0, ecnce = 0, ecn_present = False\<rparr>),
                   rx_largest_pn = (\<lambda>_. 0),
                   rx_largest_time = (\<lambda>_. 0),
                   rx_ect0 = (\<lambda>_. 0), rx_ect1 = (\<lambda>_. 0), rx_ecnce = (\<lambda>_. 0),
                   rx_ack_eliciting_pkts_since_last_ack = (\<lambda>_. 0),
                   rx_ack_flush_deadline = (\<lambda>_. ossl_time_infinite),
                   rx_max_ack_delay = ossl_ms2time QUIC_DEFAULT_MAX_ACK_DELAY,
                   tx_max_ack_delay = DEFAULT_TX_MAX_ACK_DELAY,
                   loss_cb = False, ack_cb = False,
                   ak_trace = []\<rparr>
         | _ \<Rightarrow> None))"

definition ossl_ackm_free :: "ackm \<Rightarrow> ackm" where
  "ossl_ackm_free a =
     a\<lparr>tx_history := (\<lambda>i. if \<not> discarded a i then tx_pkt_history_destroy (tx_history a i) else tx_history a i),
       rx_history := (\<lambda>i. if \<not> discarded a i then rx_pkt_history_destroy (rx_history a i) else rx_history a i)\<rparr>"

definition ossl_ackm_on_tx_packet :: "allocator \<Rightarrow> OSSL_TIME \<Rightarrow> ackm \<Rightarrow> tx_pkt \<Rightarrow> bool \<times> ackm" where
  "ossl_ackm_on_tx_packet al now a pkt =
     (let sp = pkt_space pkt
      in if ossl_time_is_zero (tx_time pkt)
            \<or> ossl_time_compare (time_of_last_ack_eliciting_pkt a sp) (tx_time pkt) > 0 then (False, a)
         else if num_bytes pkt = 0 then (False, a)
         else if \<not> is_inflight pkt \<and> is_ack_eliciting pkt then (False, a)
         else
           (case tx_pkt_history_add al (tx_history a sp) pkt of
              (ok, h) \<Rightarrow>
                let a = a\<lparr>tx_history := (tx_history a)(sp := h)\<rparr>
                in if \<not> ok then (False, a)
                   else if is_inflight pkt then
                     let a = (if is_ack_eliciting pkt then
                                a\<lparr>time_of_last_ack_eliciting_pkt := (time_of_last_ack_eliciting_pkt a)(sp := tx_time pkt),
                                  ack_eliciting_bytes_in_flight := (ack_eliciting_bytes_in_flight a)
                                    (sp := ack_eliciting_bytes_in_flight a sp + num_bytes pkt)\<rparr>
                              else a);
                         a = a\<lparr>bytes_in_flight := bytes_in_flight a + num_bytes pkt\<rparr>;
                         a = ackm_set_loss_detection_timer now a
                     in (True, emit (Cc_data_sent (num_bytes pkt)) a)
                   else (True, a)))"

definition ossl_ackm_on_rx_datagram :: "ackm \<Rightarrow> nat \<Rightarrow> bool \<times> ackm" where
  "ossl_ackm_on_rx_datagram a n = (True, a)"

section \<open>Acknowledgements received\<close>

definition ackm_process_ecn :: "ackm \<Rightarrow> ack_frame \<Rightarrow> pn_space \<Rightarrow> ackm" where
  "ackm_process_ecn a ak sp =
     (if ecnce ak > peer_ecnce a sp then
        let a = a\<lparr>peer_ecnce := (peer_ecnce a)(sp := ecnce ak)\<rparr>
        in case tx_pkt_history_by_pkt_num (tx_history a sp) (ur_end (hd (ack_ranges ak))) of
             (found, h) \<Rightarrow>
               let a = a\<lparr>tx_history := (tx_history a)(sp := h)\<rparr>
               in case found of None \<Rightarrow> a | Some pkt \<Rightarrow> emit (Cc_ecn (tx_time pkt)) a
      else a)"

definition update_rtt_on_ack :: "OSSL_TIME \<Rightarrow> ackm \<Rightarrow> ack_frame \<Rightarrow> tx_pkt list \<Rightarrow> ackm" where
  "update_rtt_on_ack now a ak na_pkts =
     (if pkt_num (hd na_pkts) = ur_end (hd (ack_ranges ak)) \<and> ack_includes_ack_eliciting na_pkts then
        let a = (if ossl_time_is_zero (first_rtt_sample a) then a\<lparr>first_rtt_sample := now\<rparr> else a);
            ack_delay = (if handshake_confirmed a then ossl_time_min (delay_time ak) (rx_max_ack_delay a)
                         else delay_time ak)
        in a\<lparr>statm := ossl_statm_update_rtt (statm a) ack_delay (ossl_time_subtract now (tx_time (hd na_pkts)))\<rparr>
      else a)"

text \<open>The clock is read for the RTT sample, for the detection of losses and for the timer.\<close>

definition ossl_ackm_on_rx_ack_frame ::
    "allocator \<Rightarrow> OSSL_TIME \<Rightarrow> OSSL_TIME \<Rightarrow> OSSL_TIME \<Rightarrow> ackm \<Rightarrow> ack_frame \<Rightarrow> pn_space \<Rightarrow> bool \<times> ackm" where
  "ossl_ackm_on_rx_ack_frame al now_rtt now_loss now_timer a ak sp =
     (let largest = ur_end (hd (ack_ranges ak));
          a = a\<lparr>largest_acked_pkt := (largest_acked_pkt a)(sp :=
                  if largest_acked_pkt a sp = QUIC_PN_INVALID then largest
                  else ossl_quic_pn_max (largest_acked_pkt a sp) largest)\<rparr>;
          must_set_timer = (\<not> peer_completed_addr_validation a \<and> sp = QUIC_PN_SPACE_HANDSHAKE);
          a = (if must_set_timer then a\<lparr>peer_completed_addr_validation := True\<rparr> else a)
      in case ackm_detect_and_remove_newly_acked_pkts al a ak sp of
           (na_pkts, a) \<Rightarrow>
             if na_pkts = [] then
               (True, if must_set_timer then ackm_set_loss_detection_timer now_timer a else a)
             else
               let a = update_rtt_on_ack now_rtt a ak na_pkts;
                   a = (if ecn_present ak then ackm_process_ecn a ak sp else a)
               in case ackm_detect_and_remove_lost_pkts al now_loss a sp of
                    (lost_pkts, a) \<Rightarrow>
                      let a = (if lost_pkts \<noteq> [] then ackm_on_pkts_lost a lost_pkts False else a);
                          a = ackm_on_pkts_acked al a na_pkts;
                          a = (if peer_completed_addr_validation a then a\<lparr>pto_count := 0\<rparr> else a)
                      in (True, ackm_set_loss_detection_timer now_timer a))"

definition on_pkt_discarded :: "tx_pkt \<Rightarrow> ackm \<times> u64 \<Rightarrow> ackm \<times> u64" where
  "on_pkt_discarded p = (\<lambda>(a, num_bytes_invalidated).
     let (a, n) = (if is_inflight p then
                     (a\<lparr>bytes_in_flight := bytes_in_flight a - num_bytes p\<rparr>, num_bytes_invalidated + num_bytes p)
                   else (a, num_bytes_invalidated))
     in (emit (On_discarded p) a, n))"

definition ossl_ackm_on_pkt_space_discarded :: "OSSL_TIME \<Rightarrow> ackm \<Rightarrow> pn_space \<Rightarrow> bool \<times> ackm" where
  "ossl_ackm_on_pkt_space_discarded now a sp =
     (if discarded a sp then (False, a)
      else
        let a = (if sp = QUIC_PN_SPACE_HANDSHAKE then a\<lparr>peer_completed_addr_validation := True\<rparr> else a);
            (a, num_bytes_invalidated) = fold on_pkt_discarded (th_packets (tx_history a sp)) (a, 0);
            a = a\<lparr>tx_history := (tx_history a)(sp := tx_pkt_history_destroy (tx_history a sp)),
                  rx_history := (rx_history a)(sp := rx_pkt_history_destroy (rx_history a sp))\<rparr>;
            a = (if num_bytes_invalidated > 0 then emit (Cc_data_invalidated num_bytes_invalidated) a else a);
            a = a\<lparr>time_of_last_ack_eliciting_pkt := (time_of_last_ack_eliciting_pkt a)(sp := ossl_time_zero),
                  loss_time := (loss_time a)(sp := ossl_time_zero),
                  pto_count := 0,
                  discarded := (discarded a)(sp := True),
                  ack_eliciting_bytes_in_flight := (ack_eliciting_bytes_in_flight a)(sp := 0)\<rparr>
        in (True, ackm_set_loss_detection_timer now a))"

definition ossl_ackm_on_handshake_confirmed :: "OSSL_TIME \<Rightarrow> ackm \<Rightarrow> bool \<times> ackm" where
  "ossl_ackm_on_handshake_confirmed now a =
     (True, ackm_set_loss_detection_timer now
              (a\<lparr>handshake_confirmed := True, peer_completed_addr_validation := True\<rparr>))"

definition ackm_queue_probe_anti_deadlock_handshake :: "ackm \<Rightarrow> ackm" where
  "ackm_queue_probe_anti_deadlock_handshake a =
     a\<lparr>pending_probe := (pending_probe a)\<lparr>anti_deadlock_handshake := anti_deadlock_handshake (pending_probe a) + 1\<rparr>\<rparr>"

definition ackm_queue_probe_anti_deadlock_initial :: "ackm \<Rightarrow> ackm" where
  "ackm_queue_probe_anti_deadlock_initial a =
     a\<lparr>pending_probe := (pending_probe a)\<lparr>anti_deadlock_initial := anti_deadlock_initial (pending_probe a) + 1\<rparr>\<rparr>"

definition ackm_queue_probe :: "ackm \<Rightarrow> pn_space \<Rightarrow> ackm" where
  "ackm_queue_probe a sp =
     a\<lparr>pending_probe := (pending_probe a)\<lparr>pi_pto := (pi_pto (pending_probe a))(sp := pi_pto (pending_probe a) sp + 1)\<rparr>\<rparr>"

definition ossl_ackm_on_timeout :: "allocator \<Rightarrow> OSSL_TIME \<Rightarrow> OSSL_TIME \<Rightarrow> ackm \<Rightarrow> bool \<times> ackm" where
  "ossl_ackm_on_timeout al now_loss now_timer a =
     (case ackm_get_loss_time_and_space a of
        (earliest_loss_time, sp) \<Rightarrow>
          if \<not> ossl_time_is_zero earliest_loss_time then
            (case ackm_detect_and_remove_lost_pkts al now_loss a sp of
               (lost_pkts, a) \<Rightarrow>
                 let a = (if lost_pkts \<noteq> [] then ackm_on_pkts_lost a lost_pkts False else a)
                 in (True, ackm_set_loss_detection_timer now_timer a))
          else
            let a = (if ackm_ack_eliciting_bytes_in_flight a = 0 then
                       if discarded a QUIC_PN_SPACE_INITIAL then ackm_queue_probe_anti_deadlock_handshake a
                       else ackm_queue_probe_anti_deadlock_initial a
                     else ackm_queue_probe a (snd (ackm_get_pto_time_and_space now_loss a)));
                a = a\<lparr>pto_count := pto_count a + 1\<rparr>
            in (True, ackm_set_loss_detection_timer now_timer a))"

definition ossl_ackm_get_loss_detection_deadline :: "ackm \<Rightarrow> OSSL_TIME" where
  "ossl_ackm_get_loss_detection_deadline a = loss_detection_deadline a"

text \<open>The pointer the source returns lets the caller lower the counters of the pending probes.\<close>

definition ossl_ackm_get0_probe_request :: "ackm \<Rightarrow> probe_info" where
  "ossl_ackm_get0_probe_request a = pending_probe a"

definition ossl_ackm_get_largest_unacked :: "ackm \<Rightarrow> pn_space \<Rightarrow> QUIC_PN option" where
  "ossl_ackm_get_largest_unacked a sp =
     (if th_packets (tx_history a sp) = [] then None else Some (pkt_num (last (th_packets (tx_history a sp)))))"

definition ossl_ackm_mark_packet_pseudo_lost :: "allocator \<Rightarrow> ackm \<Rightarrow> pn_space \<Rightarrow> QUIC_PN \<Rightarrow> bool \<times> ackm" where
  "ossl_ackm_mark_packet_pseudo_lost al a sp pn =
     (case tx_pkt_history_by_pkt_num (tx_history a sp) pn of
        (found, h) \<Rightarrow>
          let a = a\<lparr>tx_history := (tx_history a)(sp := h)\<rparr>
          in case found of
               None \<Rightarrow> (False, a)
             | Some pkt \<Rightarrow>
                 let a = a\<lparr>tx_history := (tx_history a)(sp := snd (tx_pkt_history_remove al h (pkt_num pkt)))\<rparr>
                 in (True, ackm_on_pkts_lost a [pkt] True))"

definition ossl_ackm_get_pto_duration :: "ackm \<Rightarrow> OSSL_TIME" where
  "ossl_ackm_get_pto_duration a =
     (let rtt = statm a;
          duration = ossl_time_add (smoothed_rtt rtt)
            (ossl_time_max (ossl_time_multiply (rtt_variance rtt) 4) (ossl_ticks2time K_GRANULARITY))
      in if \<not> ossl_time_is_infinite (rx_max_ack_delay a) then ossl_time_add duration (rx_max_ack_delay a)
         else duration)"

definition ossl_ackm_get_largest_acked :: "ackm \<Rightarrow> pn_space \<Rightarrow> QUIC_PN" where
  "ossl_ackm_get_largest_acked a sp = largest_acked_pkt a sp"

definition ossl_ackm_set_rx_max_ack_delay :: "ackm \<Rightarrow> OSSL_TIME \<Rightarrow> ackm" where
  "ossl_ackm_set_rx_max_ack_delay a d = a\<lparr>rx_max_ack_delay := d\<rparr>"

definition ossl_ackm_set_tx_max_ack_delay :: "ackm \<Rightarrow> OSSL_TIME \<Rightarrow> ackm" where
  "ossl_ackm_set_tx_max_ack_delay a d = a\<lparr>tx_max_ack_delay := d\<rparr>"

definition ossl_ackm_set_loss_detection_deadline_callback :: "ackm \<Rightarrow> bool \<Rightarrow> ackm" where
  "ossl_ackm_set_loss_detection_deadline_callback a b = a\<lparr>loss_cb := b\<rparr>"

definition ossl_ackm_set_ack_deadline_callback :: "ackm \<Rightarrow> bool \<Rightarrow> ackm" where
  "ossl_ackm_set_ack_deadline_callback a b = a\<lparr>ack_cb := b\<rparr>"

section \<open>Packets received and ACK frames sent\<close>

definition ossl_ackm_is_ack_desired :: "OSSL_TIME \<Rightarrow> ackm \<Rightarrow> pn_space \<Rightarrow> bool" where
  "ossl_ackm_is_ack_desired now a sp \<longleftrightarrow>
     rx_ack_desired a sp \<or>
     (\<not> ossl_time_is_infinite (rx_ack_flush_deadline a sp) \<and>
      ossl_time_compare now (rx_ack_flush_deadline a sp) \<ge> 0)"

definition ack_contains :: "ack_frame \<Rightarrow> QUIC_PN \<Rightarrow> bool" where
  "ack_contains ak pn \<longleftrightarrow> list_ex (\<lambda>r. range_contains r pn) (ack_ranges ak)"

definition ackm_is_missing :: "ackm \<Rightarrow> pn_space \<Rightarrow> QUIC_PN \<Rightarrow> bool" where
  "ackm_is_missing a sp pn \<longleftrightarrow>
     length (ack_ranges (ack a sp)) > 0 \<and> pn \<le> ur_end (hd (ack_ranges (ack a sp))) \<and> \<not> ack_contains (ack a sp) pn"

definition ackm_has_newly_missing :: "ackm \<Rightarrow> pn_space \<Rightarrow> bool" where
  "ackm_has_newly_missing a sp \<longleftrightarrow>
     (let s = rh_set (rx_history a sp)
      in s \<noteq> [] \<and> length (ack_ranges (ack a sp)) > 0 \<and> ur_start (last s) = ur_end (last s) \<and>
         ur_start (last s) > ur_end (hd (ack_ranges (ack a sp))) + 1)"

definition ossl_ackm_get_ack_deadline :: "ackm \<Rightarrow> pn_space \<Rightarrow> OSSL_TIME" where
  "ossl_ackm_get_ack_deadline a sp =
     (if rx_ack_desired a sp then ossl_time_zero else rx_ack_flush_deadline a sp)"

definition ackm_set_flush_deadline :: "ackm \<Rightarrow> pn_space \<Rightarrow> OSSL_TIME \<Rightarrow> ackm" where
  "ackm_set_flush_deadline a sp deadline =
     (let a = a\<lparr>rx_ack_flush_deadline := (rx_ack_flush_deadline a)(sp := deadline)\<rparr>
      in if ack_cb a then emit (Ack_deadline (ossl_ackm_get_ack_deadline a sp) sp) a else a)"

definition ackm_queue_ack :: "ackm \<Rightarrow> pn_space \<Rightarrow> ackm" where
  "ackm_queue_ack a sp =
     ackm_set_flush_deadline (a\<lparr>rx_ack_desired := (rx_ack_desired a)(sp := True)\<rparr>) sp ossl_time_infinite"

definition ackm_on_rx_ack_eliciting :: "ackm \<Rightarrow> OSSL_TIME \<Rightarrow> pn_space \<Rightarrow> bool \<Rightarrow> ackm" where
  "ackm_on_rx_ack_eliciting a rx_time sp was_missing =
     (if rx_ack_desired a sp then a
      else
        let a = a\<lparr>rx_ack_eliciting_pkts_since_last_ack := (rx_ack_eliciting_pkts_since_last_ack a)
                    (sp := rx_ack_eliciting_pkts_since_last_ack a sp + 1)\<rparr>
        in if \<not> rx_ack_generated a sp \<or> was_missing
              \<or> rx_ack_eliciting_pkts_since_last_ack a sp \<ge> PKTS_BEFORE_ACK
              \<or> ackm_has_newly_missing a sp then ackm_queue_ack a sp
           else
             let delay = (if sp = QUIC_PN_SPACE_INITIAL \<or> sp = QUIC_PN_SPACE_HANDSHAKE then ossl_time_zero
                          else tx_max_ack_delay a)
             in if ossl_time_is_infinite (rx_ack_flush_deadline a sp) then
                  ackm_set_flush_deadline a sp (ossl_time_add rx_time delay)
                else
                  ackm_set_flush_deadline a sp
                    (ossl_time_min (rx_ack_flush_deadline a sp) (ossl_time_add rx_time delay)))"

definition ossl_ackm_is_rx_pn_processable :: "ackm \<Rightarrow> QUIC_PN \<Rightarrow> pn_space \<Rightarrow> bool" where
  "ossl_ackm_is_rx_pn_processable a pn sp \<longleftrightarrow>
     pn \<ge> rh_watermark (rx_history a sp) \<and> \<not> ossl_uint_set_query (rh_set (rx_history a sp)) pn"

definition count_ecn :: "ackm \<Rightarrow> pn_space \<Rightarrow> ackm_ecn \<Rightarrow> ackm" where
  "count_ecn a sp e =
     (case e of
        OSSL_ACKM_ECN_ECT0 \<Rightarrow> a\<lparr>rx_ect0 := (rx_ect0 a)(sp := rx_ect0 a sp + 1)\<rparr>
      | OSSL_ACKM_ECN_ECT1 \<Rightarrow> a\<lparr>rx_ect1 := (rx_ect1 a)(sp := rx_ect1 a sp + 1)\<rparr>
      | OSSL_ACKM_ECN_ECNCE \<Rightarrow> a\<lparr>rx_ecnce := (rx_ecnce a)(sp := rx_ecnce a sp + 1)\<rparr>
      | OSSL_ACKM_ECN_NONE \<Rightarrow> a)"

definition ossl_ackm_on_rx_packet :: "allocator \<Rightarrow> ackm \<Rightarrow> rx_pkt \<Rightarrow> (bool \<times> ackm) option" where
  "ossl_ackm_on_rx_packet al a pkt =
     (let sp = rp_pkt_space pkt; pn = rp_pkt_num pkt
      in if \<not> ossl_ackm_is_rx_pn_processable a pn sp then Some (True, a)
         else
           let a = (if pn > rx_largest_pn a sp then
                      a\<lparr>rx_largest_pn := (rx_largest_pn a)(sp := pn),
                        rx_largest_time := (rx_largest_time a)(sp := rp_time pkt)\<rparr>
                    else a);
               was_missing = ackm_is_missing a sp pn
           in case rx_pkt_history_add_pn al (rx_history a sp) pn of
                None \<Rightarrow> None
              | Some (ok, h) \<Rightarrow>
                  let a = a\<lparr>rx_history := (rx_history a)(sp := h)\<rparr>
                  in if \<not> ok then Some (False, a)
                     else
                       let a = (if rp_is_ack_eliciting pkt then ackm_on_rx_ack_eliciting a (rp_time pkt) sp was_missing
                                else a)
                       in Some (True, count_ecn a sp (rp_ecn pkt)))"

text \<open>
  \<open>ackm_fill_rx_ack_ranges\<close>: the bound of the loop is \<open>OSSL_NELEM(ackm->ack_ranges)\<close>, which is the
  number of packet number spaces, because \<open>ack_ranges\<close> is an array of arrays.
\<close>

definition NELEM_ack_ranges :: nat where "NELEM_ack_ranges = 3"

fun fill_walk :: "nat \<Rightarrow> uint_range list \<Rightarrow> uint_range list" where
  "fill_walk i [] = []"
| "fill_walk i (x # prevs) = (if i < NELEM_ack_ranges then x # fill_walk (i + 1) prevs else [])"

definition ackm_fill_rx_ack_ranges :: "ackm \<Rightarrow> pn_space \<Rightarrow> uint_range list" where
  "ackm_fill_rx_ack_ranges a sp = fill_walk 0 (rev (rh_set (rx_history a sp)))"

definition ossl_ackm_get_ack_frame :: "OSSL_TIME \<Rightarrow> ackm \<Rightarrow> pn_space \<Rightarrow> ack_frame \<times> ackm" where
  "ossl_ackm_get_ack_frame now a sp =
     (let ak = \<lparr>ack_ranges = ackm_fill_rx_ack_ranges a sp,
                delay_time =
                  (if \<not> ossl_time_is_zero (rx_largest_time a sp)
                      \<and> ossl_time_compare now (rx_largest_time a sp) > 0 \<and> sp = QUIC_PN_SPACE_APP
                   then ossl_time_subtract now (rx_largest_time a sp) else ossl_time_zero),
                ect0 = rx_ect0 a sp, ect1 = rx_ect1 a sp, ecnce = rx_ecnce a sp, ecn_present = True\<rparr>;
          a = a\<lparr>ack := (ack a)(sp := ak),
                rx_ack_eliciting_pkts_since_last_ack := (rx_ack_eliciting_pkts_since_last_ack a)(sp := 0),
                rx_ack_generated := (rx_ack_generated a)(sp := True),
                rx_ack_desired := (rx_ack_desired a)(sp := False)\<rparr>
      in (ak, ackm_set_flush_deadline a sp ossl_time_infinite))"

end
