(* ===== verification/Ackm_Rx.thy ===== *)
theory Ackm_Rx
  imports Quic_Ackm
begin

text \<open>
  The receiving half of the ACK manager: removal of a prefix of a set of ranges, the invariant of
  \<open>rx_pkt_history_st\<close>, and that every operation on it ends, keeps the invariant and only adds to
  the packet numbers that are not processed again.
\<close>

section \<open>Removal of a prefix\<close>

lemma remove_walk_below:
  "uint_set_ok (rev (zs @ [r])) \<Longrightarrow> remove_walk al r (zs @ [r]) nexts = (True, rev zs @ nexts)"
proof (induction zs arbitrary: nexts)
  case (Cons z zs)
  have "ur_end r < ur_start z" "ur_start r \<le> ur_end r" "ur_start z \<le> ur_end z" "uint_set_ok (rev (zs @ [r]))"
    using Cons.prems by (auto simp: uint_set_ok_simps)
  then have "\<not> ur_end z < ur_start r" "\<not> ur_start z \<le> ur_end r" "\<not> ur_end z \<le> ur_end r" "\<not> ur_start z < ur_start r"
    by order+
  with \<open>uint_set_ok (rev (zs @ [r]))\<close> show ?case
    using Cons.IH [of "z # nexts"] by simp
qed (simp add: uint_set_ok_simps)

lemma remove_first: "uint_set_ok (r # s) \<Longrightarrow> ossl_uint_set_remove al (r # s) r = (True, s)"
  using remove_walk_below [of "rev s" r al "[]"] by (simp add: ossl_uint_set_remove_def uint_set_ok_simps)

lemma remove_walk_prefix_length:
  "ur_start r = 0 \<Longrightarrow> length (snd (remove_walk al r zs nexts)) \<le> length zs + length nexts \<and> fst (remove_walk al r zs nexts)"
proof (induction zs arbitrary: nexts)
  case (Cons z zs)
  have "\<not> ur_start r > x" for x
    using Cons.prems by simp
  then show ?case
    using Cons.IH [of nexts] Cons.IH [of "z # nexts"] Cons.IH [of "z\<lparr>ur_start := ur_end r + 1\<rparr> # nexts"] Cons.prems
    by auto
qed simp

lemma remove_prefix:
  assumes "uint_set_ok s"
  shows "fst (ossl_uint_set_remove al s \<lparr>ur_start = 0, ur_end = e\<rparr>)"
    "length (snd (ossl_uint_set_remove al s \<lparr>ur_start = 0, ur_end = e\<rparr>)) \<le> length s"
  using remove_walk_prefix_length [of "\<lparr>ur_start = 0, ur_end = e\<rparr>" al "rev s" "[]"]
  by (simp_all add: ossl_uint_set_remove_def)

section \<open>The history of received packets\<close>

text \<open>
  The invariants the source states for \<open>rx_pkt_history_st\<close>, the bound on the number of ranges, and
  the order of the ranges.
\<close>

definition rx_history_ok :: "rx_pkt_history \<Rightarrow> bool" where
  "rx_history_ok h \<longleftrightarrow>
     uint_set_ok (rh_set h) \<and> uint_set_gaps (rh_set h) \<and> length (rh_set h) \<le> MAX_RX_ACK_RANGES \<and>
     (\<forall>v \<in> uint_set_abs (rh_set h). rh_watermark h \<le> v \<and> ossl_quic_pn_valid v)"

text \<open>The packet numbers that are not to be processed: those in the set, and those written off.\<close>

definition rx_seen :: "rx_pkt_history \<Rightarrow> QUIC_PN set" where
  "rx_seen h = {v. v < rh_watermark h} \<union> uint_set_abs (rh_set h)"

lemma pn_valid_less: "ossl_quic_pn_valid pn \<Longrightarrow> pn < - 1"
  unfolding ossl_quic_pn_valid_def by (simp add: word_less_nat_alt unat_max64)

lemma bump_watermark_ok:
  assumes "uint_set_ok (rh_set h)" "uint_set_gaps (rh_set h)"
    "rx_pkt_history_bump_watermark al h (v + 1) = (ok, h')" "v \<noteq> QUIC_PN_INVALID"
  shows "ok \<and> uint_set_ok (rh_set h') \<and> uint_set_gaps (rh_set h') \<and>
    length (rh_set h') \<le> length (rh_set h) \<and> uint_set_abs (rh_set h') \<subseteq> uint_set_abs (rh_set h) \<and>
    rh_watermark h' = max (rh_watermark h) (v + 1) \<and>
    (if v < rh_watermark h then h' = h else uint_set_abs (rh_set h') = uint_set_abs (rh_set h) - {..v}) \<and>
    rx_seen h' = rx_seen h \<union> {..v}"
proof -
  have "v < - 1"
    using assms(4) word_n1_ge [of v] by (simp add: QUIC_PN_INVALID_def order_less_le)
  then have v: "v < v + 1"
    using word_inc [of v "- 1"] by (simp add: word_less_nat_alt)
  let ?r = "\<lparr>ur_start = 0, ur_end = v\<rparr> :: uint_range"
  obtain ok' s where r: "ossl_uint_set_remove al (rh_set h) ?r = (ok', s)"
    by (cases "ossl_uint_set_remove al (rh_set h) ?r")
  have e: "range_set ?r = {..v}"
    unfolding range_set_def by auto
  have ok': "ok'" and len: "length s \<le> length (rh_set h)"
    using remove_prefix [OF assms(1), of al v] r by simp_all
  have ord: "uint_set_ok s" and abs: "uint_set_abs s = uint_set_abs (rh_set h) - {..v}"
    using ossl_uint_set_remove_spec [OF r assms(1)] ok' e by simp_all
  have gaps: "uint_set_gaps s"
    using remove_gaps [OF assms(2), of al ?r] r by simp
  show ?thesis
  proof (cases "v + 1 \<le> rh_watermark h")
    case True
    then have "ok" "h' = h" "v < rh_watermark h"
      using assms(3) v by (auto simp: rx_pkt_history_bump_watermark_def)
    moreover have "{..v} \<subseteq> {x. x < rh_watermark h}"
      using \<open>v < rh_watermark h\<close> by auto
    ultimately show ?thesis
      using assms(1,2) True by (auto simp: rx_seen_def max_def)
  next
    case False
    then have w: "rh_watermark h \<le> v"
      using word_less_inc [OF v, of "rh_watermark h"] by (simp add: not_le)
    have h': "h' = h\<lparr>rh_set := s, rh_watermark := v + 1\<rparr>" ok
      using assms(3) False r ok' by (auto simp: rx_pkt_history_bump_watermark_def)
    have "rx_seen h' = {..v} \<union> (uint_set_abs (rh_set h) - {..v})"
      using word_less_inc [OF v] by (simp add: rx_seen_def h' abs atMost_def)
    also have "\<dots> = rx_seen h \<union> {..v}"
      using w by (auto simp: rx_seen_def)
    finally show ?thesis
      using h' False w abs ord gaps len by (auto simp: max_def not_le)
  qed
qed
lemma trim_loop_eq:
  assumes "uint_set_ok s" "\<forall>r \<in> set s. ur_end r \<noteq> QUIC_PN_INVALID"
    "hi = QUIC_PN_INVALID \<or> (\<forall>r \<in> set s. hi < ur_end r)"
  shows "trim_loop al s hi =
    Some (drop (length s - MAX_RX_ACK_RANGES) s,
          if length s \<le> MAX_RX_ACK_RANGES then hi else ur_end (s ! (length s - MAX_RX_ACK_RANGES - 1)))"
  using assms
proof (induction s arbitrary: hi)
  case Nil
  then show ?case by (subst trim_loop.simps) simp
next
  case (Cons r s)
  have r: "ur_start r \<le> ur_end r" "\<forall>b \<in> set s. ur_end r < ur_start b" "uint_set_ok s"
    "\<forall>b \<in> set s. ur_start b \<le> ur_end b"
    using Cons.prems(1) by (auto simp: uint_set_ok_def)
  have hi: "(if hi = QUIC_PN_INVALID then ur_end r else ossl_quic_pn_max hi (ur_end r)) = ur_end r"
    using Cons.prems(3) by (auto simp: ossl_quic_pn_max_def)
  have "\<forall>b \<in> set s. ur_end r < ur_end b"
    using r(2,4) by (meson less_le_trans)
  then have "trim_loop al s (ur_end r) =
    Some (drop (length s - MAX_RX_ACK_RANGES) s,
          if length s \<le> MAX_RX_ACK_RANGES then ur_end r else ur_end (s ! (length s - MAX_RX_ACK_RANGES - 1)))"
    using Cons.IH [of "ur_end r"] Cons.prems(2) r(3) by simp
  moreover have "trim_loop al (r # s) hi =
      (if length (r # s) > MAX_RX_ACK_RANGES then trim_loop al s (ur_end r) else Some (r # s, hi))"
    using hi remove_first [OF Cons.prems(1), of al] by (subst trim_loop.simps) (simp add: Let_def)
  ultimately show ?case
    by (auto simp: not_le Suc_diff_le nth_Cons' le_Suc_eq)
qed

lemma word_less_suc: "v \<noteq> QUIC_PN_INVALID \<Longrightarrow> x < v + 1 \<longleftrightarrow> x \<le> v"
proof -
  assume "v \<noteq> QUIC_PN_INVALID"
  then have "v < - 1"
    using word_n1_ge [of v] by (simp add: QUIC_PN_INVALID_def order_less_le)
  then show ?thesis
    using word_less_inc by blast
qed

text \<open>The trimmed history writes off what it forgets, and the trimming ends.\<close>

lemma trim_range_count_ok:
  assumes "uint_set_ok (rh_set h)" "uint_set_gaps (rh_set h)"
    "\<forall>v \<in> uint_set_abs (rh_set h). rh_watermark h \<le> v \<and> ossl_quic_pn_valid v"
  shows "\<exists>h'. rx_pkt_history_trim_range_count al h = Some h' \<and> rx_history_ok h' \<and>
    rx_seen h \<subseteq> rx_seen h' \<and> rh_watermark h \<le> rh_watermark h' \<and>
    uint_set_abs (rh_set h') \<subseteq> uint_set_abs (rh_set h) \<and>
    (length (rh_set h) \<le> MAX_RX_ACK_RANGES \<longrightarrow> h' = h)"
proof -
  let ?s = "rh_set h" and ?n = "length (rh_set h) - MAX_RX_ACK_RANGES"
  have "ur_end r \<in> uint_set_abs ?s" if "r \<in> set ?s" for r
    using that assms(1) by (auto simp: uint_set_abs_def uint_set_ok_def intro!: bexI [of _ r])
  then have e: "\<forall>r \<in> set ?s. ur_end r \<noteq> QUIC_PN_INVALID \<and> rh_watermark h \<le> ur_end r"
    using assms(3) pn_valid_less by (fastforce simp: QUIC_PN_INVALID_def)
  let ?hi = "if length ?s \<le> MAX_RX_ACK_RANGES then QUIC_PN_INVALID else ur_end (?s ! (?n - 1))"
  have loop: "trim_loop al ?s QUIC_PN_INVALID = Some (drop ?n ?s, ?hi)"
    using trim_loop_eq [OF assms(1), of QUIC_PN_INVALID al] e by simp
  show ?thesis
  proof (cases "length ?s \<le> MAX_RX_ACK_RANGES")
    case True
    then show ?thesis
      using loop assms by (simp add: rx_pkt_history_trim_range_count_def rx_history_ok_def)
  next
    case False
    let ?r = "?s ! (?n - 1)" and ?h = "h\<lparr>rh_set := drop ?n ?s\<rparr>"
    have n: "0 < ?n" "?n - 1 < length ?s"
      using False by (simp_all add: MAX_RX_ACK_RANGES_def)
    then have r: "?r \<in> set ?s" "ur_end ?r \<noteq> QUIC_PN_INVALID" "rh_watermark h \<le> ur_end ?r"
      using e nth_mem [OF n(2)] by auto
    have split: "?s = take ?n ?s @ drop ?n ?s"
      by simp
    have tk: "take ?n ?s = take (?n - 1) ?s @ [?r]"
      using take_Suc_conv_app_nth [OF n(2)] Suc_pred [OF n(1)] by (simp only: One_nat_def)
    have okd: "uint_set_ok (take ?n ?s)" "uint_set_ok (drop ?n ?s)"
      "\<forall>a \<in> set (take ?n ?s). \<forall>b \<in> set (drop ?n ?s). ur_end a < ur_start b"
      using assms(1) uint_set_ok_append [of "take ?n ?s" "drop ?n ?s"] by simp_all
    have gap: "uint_set_gaps (drop ?n ?s)"
      using assms(2) uint_set_gaps_simps(3) [of "take ?n ?s" "drop ?n ?s"] by simp
    have abs: "uint_set_abs ?s = uint_set_abs (take ?n ?s) \<union> uint_set_abs (drop ?n ?s)"
      by (metis split uint_set_abs_simps(3))
    have low: "v \<le> ur_end ?r" if "v \<in> uint_set_abs (take ?n ?s)" for v
    proof -
      have "\<forall>a \<in> set (take (?n - 1) ?s). ur_end a < ur_start ?r" "ur_start ?r \<le> ur_end ?r"
        using okd(1) unfolding tk uint_set_ok_append by (simp_all add: uint_set_ok_Cons)
      then show ?thesis
        using that unfolding tk by (auto simp: uint_set_abs_def)
    qed
    have high: "ur_end ?r < v" if "v \<in> uint_set_abs (drop ?n ?s)" for v
      using that okd(3) unfolding tk by (auto simp: uint_set_abs_def)
    obtain ok h' where b: "rx_pkt_history_bump_watermark al ?h (ur_end ?r + 1) = (ok, h')"
      by (cases "rx_pkt_history_bump_watermark al ?h (ur_end ?r + 1)")
    have h': "uint_set_ok (rh_set h')" "uint_set_gaps (rh_set h')" "length (rh_set h') \<le> length (drop ?n ?s)"
      "uint_set_abs (rh_set h') \<subseteq> uint_set_abs (drop ?n ?s)" "rh_watermark h' = max (rh_watermark h) (ur_end ?r + 1)"
      "rx_seen h' = rx_seen ?h \<union> {..ur_end ?r}"
      using bump_watermark_ok [OF _ _ b r(2)] okd(2) gap by simp_all
    have w: "rh_watermark h' = ur_end ?r + 1"
      using h'(5) r(3) word_less_suc [OF r(2), of "rh_watermark h"] max_absorb2 [OF less_imp_le] by metis
    have "rh_watermark h' \<le> v \<and> ossl_quic_pn_valid v" if v: "v \<in> uint_set_abs (rh_set h')" for v
    proof -
      have d: "v \<in> uint_set_abs (drop ?n ?s)"
        using v h'(4) by blast
      then have "\<not> v \<le> ur_end ?r"
        using high [of v] by (simp only: not_le)
      then have "\<not> v < rh_watermark h'"
        unfolding w word_less_suc [OF r(2)] .
      moreover have "ossl_quic_pn_valid v"
        using d assms(3) unfolding abs by blast
      ultimately show ?thesis
        by (simp only: not_less)
    qed
    then have "rx_history_ok h'"
      using h'(1-3) False unfolding rx_history_ok_def by simp
    moreover have "rx_seen h \<subseteq> rx_seen h'"
      using low unfolding h'(6) by (auto simp: rx_seen_def abs)
    moreover have "rx_pkt_history_trim_range_count al h = Some h'"
      using loop False r(2) b by (simp add: rx_pkt_history_trim_range_count_def Let_def)
    ultimately show ?thesis
      using h'(4,5) abs False by auto
  qed
qed
lemma insert_available:
  "\<lbrakk>al sizeof_uint_set_item; ur_start r \<le> ur_end r\<rbrakk> \<Longrightarrow> fst (ossl_uint_set_insert al s r)"
  by (simp add: ossl_uint_set_insert_def create_set_item_def insert_walk_available)

lemma add_pn_ok:
  assumes "rx_history_ok h" "ossl_quic_pn_valid pn" "pn \<notin> rx_seen h"
  shows "\<exists>ok h'. rx_pkt_history_add_pn al h pn = Some (ok, h') \<and> rx_history_ok h' \<and>
    rx_seen h \<subseteq> rx_seen h' \<and> rh_watermark h \<le> rh_watermark h' \<and> (al sizeof_uint_set_item \<longrightarrow> ok) \<and>
    uint_set_abs (rh_set h') \<subseteq> insert pn (uint_set_abs (rh_set h)) \<and>
    (if ok then pn \<in> rx_seen h' else h' = h)"
proof -
  let ?r = "\<lparr>ur_start = pn, ur_end = pn\<rparr> :: uint_range"
  have h: "uint_set_ok (rh_set h)" "uint_set_gaps (rh_set h)"
    "\<forall>v \<in> uint_set_abs (rh_set h). rh_watermark h \<le> v \<and> ossl_quic_pn_valid v" and pn: "\<not> pn < rh_watermark h"
    using assms(1,3) by (auto simp: rx_history_ok_def rx_seen_def)
  obtain ok s where i: "ossl_uint_set_insert al (rh_set h) ?r = (ok, s)"
    by (cases "ossl_uint_set_insert al (rh_set h) ?r")
  have s: "uint_set_ok s" "if ok then uint_set_abs s = uint_set_abs (rh_set h) \<union> range_set ?r else s = rh_set h"
    using ossl_uint_set_insert_spec [OF i h(1)] by simp_all
  have g: "uint_set_gaps s"
    using insert_single_gaps [OF h(2,1), of ?r al] i by simp
  have one: "range_set ?r = {pn}"
    by (simp add: range_set_def)
  show ?thesis
  proof (cases ok)
    case False
    then have "\<not> al sizeof_uint_set_item"
      using insert_available [of al ?r "rh_set h"] i by auto
    then show ?thesis
      using i s(2) False pn assms(1) by (auto simp: rx_pkt_history_add_pn_def)
  next
    case True
    let ?h = "h\<lparr>rh_set := s\<rparr>"
    have abs: "uint_set_abs s = insert pn (uint_set_abs (rh_set h))"
      using s(2) True one by auto
    have "\<exists>h'. rx_pkt_history_trim_range_count al ?h = Some h' \<and> rx_history_ok h' \<and>
      rx_seen ?h \<subseteq> rx_seen h' \<and> rh_watermark ?h \<le> rh_watermark h' \<and>
      uint_set_abs (rh_set h') \<subseteq> uint_set_abs (rh_set ?h) \<and>
      (length (rh_set ?h) \<le> MAX_RX_ACK_RANGES \<longrightarrow> h' = ?h)"
      using s(1) g h(3) pn assms(2) by (intro trim_range_count_ok) (simp_all add: abs not_less)
    then obtain h' where t: "rx_pkt_history_trim_range_count al ?h = Some h'" "rx_history_ok h'"
      "rx_seen ?h \<subseteq> rx_seen h'" "rh_watermark h \<le> rh_watermark h'"
      "uint_set_abs (rh_set h') \<subseteq> uint_set_abs s"
      by auto
    have "rx_seen ?h = insert pn (rx_seen h)"
      by (auto simp: rx_seen_def abs)
    then show ?thesis
      using t i True pn abs by (auto simp: rx_pkt_history_add_pn_def)
  qed
qed

lemma processable_iff:
  "rx_history_ok (rx_history a sp) \<Longrightarrow>
     ossl_ackm_is_rx_pn_processable a pn sp \<longleftrightarrow> pn \<notin> rx_seen (rx_history a sp)"
  by (auto simp: ossl_ackm_is_rx_pn_processable_def rx_seen_def rx_history_ok_def ossl_uint_set_query_spec not_less)

lemma fill_walk_eq: "fill_walk i xs = take (NELEM_ack_ranges - i) xs"
proof (induction xs arbitrary: i)
  case (Cons x xs)
  then show ?case
    by (cases "NELEM_ack_ranges - i") (auto simp: Suc_diff_Suc [symmetric] diff_Suc split: nat.splits)
qed simp

end
