(* ===== verification/Ackm_Tx.thy ===== *)
theory Ackm_Tx
  imports Quic_Ackm
begin

text \<open>
  The sending half of the ACK manager: the invariant of \<open>tx_pkt_history_st\<close> and its operations, and
  what the two detection walks over the history compute, as filters on the list of packets.
\<close>

section \<open>The history of sent packets\<close>

text \<open>
  The list and the map hold the same packets, in ascending order of packet number and below the
  watermark; a packet is in the history of its own space, and only a packet in flight elicits an
  acknowledgement.
\<close>

definition tx_history_ok :: "pn_space \<Rightarrow> tx_pkt_history \<Rightarrow> bool" where
  "tx_history_ok sp h \<longleftrightarrow>
     (\<exists>m. th_map h = Some m \<and> lh_for tx_pkt_info_compare m \<and> lh_items m = set (th_packets h)) \<and>
     sorted_wrt (\<lambda>p q. pkt_num p < pkt_num q) (th_packets h) \<and>
     (\<forall>p \<in> set (th_packets h). pkt_num p < th_watermark h \<and> ossl_quic_pn_valid (pkt_num p) \<and>
        pkt_space p = sp \<and> (is_ack_eliciting p \<longrightarrow> is_inflight p))"

lemma tx_compare_eq [simp]: "tx_pkt_info_compare a b = 0 \<longleftrightarrow> pkt_num a = pkt_num b"
  by (auto simp: tx_pkt_info_compare_def)

lemma tx_keys: "lh_keys tx_pkt_info_hash tx_pkt_info_compare"
  by (simp add: lh_keys_def tx_pkt_info_hash_def)

lemma tx_key_num [simp]: "pkt_num (tx_key pn) = pn"
  by (simp add: tx_key_def)

lemma tx_history_init_ok:
  "tx_pkt_history_init al = Some h \<Longrightarrow> tx_history_ok sp h \<and> th_packets h = [] \<and> th_watermark h = 0"
  using LH_new_ok [OF _ tx_keys, of al]
  by (auto simp: tx_pkt_history_init_def tx_history_ok_def lh_for_def split: option.splits)

lemma sorted_pn_unique:
  "\<lbrakk>sorted_wrt (\<lambda>p q. pkt_num p < pkt_num q) ps; p \<in> set ps; q \<in> set ps; pkt_num p = pkt_num q\<rbrakk> \<Longrightarrow> p = q"
  by (induction ps) auto

lemma sorted_pn_distinct: "sorted_wrt (\<lambda>p q. pkt_num p < pkt_num q) ps \<Longrightarrow> distinct ps"
  by (induction ps) auto

lemma tx_history_unique:
  "\<lbrakk>tx_history_ok sp h; p \<in> set (th_packets h); q \<in> set (th_packets h); pkt_num p = pkt_num q\<rbrakk> \<Longrightarrow> p = q"
  unfolding tx_history_ok_def by (blast intro: sorted_pn_unique)

lemma tx_history_distinct: "tx_history_ok sp h \<Longrightarrow> distinct (th_packets h)"
  unfolding tx_history_ok_def by (blast intro: sorted_pn_distinct)

lemma th_retrieve_ok:
  assumes "tx_history_ok sp h" "th_retrieve h key = (r, h')"
  shows "tx_history_ok sp h' \<and> th_packets h' = th_packets h \<and> th_watermark h' = th_watermark h \<and>
    th_highest_sent h' = th_highest_sent h \<and>
    (\<forall>p. r = Some p \<longleftrightarrow> p \<in> set (th_packets h) \<and> pkt_num p = pkt_num key)"
proof -
  obtain m where m: "th_map h = Some m" "lh_for tx_pkt_info_compare m" "lh_items m = set (th_packets h)"
    using assms(1) by (auto simp: tx_history_ok_def)
  obtain r' m' where e: "OPENSSL_LH_retrieve m key = (r', m')"
    by (cases "OPENSSL_LH_retrieve m key")
  have "lh_for tx_pkt_info_compare m'" "lh_items m' = lh_items m"
    "\<forall>p. r' = Some p \<longleftrightarrow> p \<in> lh_items m \<and> tx_pkt_info_compare p key = 0"
    using lh.get_law [OF m(2) e] by (auto simp: finds_def)
  moreover have "r = r'" "h' = h\<lparr>th_map := Some m'\<rparr>"
    using assms(2) m(1) e by (auto simp: th_retrieve_def)
  ultimately show ?thesis
    using assms(1) m by (simp add: tx_history_ok_def)
qed

lemma by_pkt_num_ok:
  assumes "tx_history_ok sp h" "tx_pkt_history_by_pkt_num h pn = (r, h')"
  shows "tx_history_ok sp h' \<and> th_packets h' = th_packets h \<and> th_watermark h' = th_watermark h \<and>
    (\<forall>p. r = Some p \<longleftrightarrow> p \<in> set (th_packets h) \<and> pkt_num p = pn)"
  using th_retrieve_ok [OF assms(1), of "tx_key pn" r h'] assms(2) by (simp add: tx_pkt_history_by_pkt_num_def)

lemma tx_history_remove_ok:
  assumes "tx_history_ok sp h" "p \<in> set (th_packets h)"
  shows "\<exists>h'. tx_pkt_history_remove al h (pkt_num p) = (True, h') \<and> tx_history_ok sp h' \<and>
    th_packets h' = filter (\<lambda>q. q \<noteq> p) (th_packets h) \<and> th_watermark h' = th_watermark h"
proof -
  obtain r h1 where f: "tx_pkt_history_by_pkt_num h (pkt_num p) = (r, h1)"
    by (cases "tx_pkt_history_by_pkt_num h (pkt_num p)")
  have h1: "tx_history_ok sp h1" "th_packets h1 = th_packets h" "th_watermark h1 = th_watermark h" "r = Some p"
    using by_pkt_num_ok [OF assms(1) f] assms(2) by auto
  obtain m where m: "th_map h1 = Some m" "lh_for tx_pkt_info_compare m" "lh_items m = set (th_packets h)"
    using h1(1,2) by (auto simp: tx_history_ok_def)
  obtain r' m' where d: "OPENSSL_LH_delete al m (tx_key (pkt_num p)) = (r', m')"
    by (cases "OPENSSL_LH_delete al m (tx_key (pkt_num p))")
  have "lh_for tx_pkt_info_compare m'" "lh_items m' = {x \<in> set (th_packets h). pkt_num x \<noteq> pkt_num p}"
    using lh.del_law [OF m(2) d] m(3) by auto
  moreover have "{x \<in> set (th_packets h). pkt_num x \<noteq> pkt_num p} = set (filter (\<lambda>q. q \<noteq> p) (th_packets h))"
    using tx_history_unique [OF assms(1) _ assms(2)] by auto
  moreover have "remove1 p (th_packets h) = filter (\<lambda>q. q \<noteq> p) (th_packets h)"
    using distinct_remove1_removeAll [OF tx_history_distinct [OF assms(1)]] by (simp add: removeAll_filter_not_eq eq_commute)
  moreover have "tx_pkt_history_remove al h (pkt_num p) =
    (True, h1\<lparr>th_packets := remove1 p (th_packets h), th_map := Some m'\<rparr>)"
    using f h1(2,4) m(1) d by (simp add: tx_pkt_history_remove_def)
  ultimately show ?thesis
    using assms(1) h1(3) by (simp add: tx_history_ok_def sorted_wrt_filter)
qed

lemma tx_history_add_ok:
  assumes "tx_history_ok sp h" "ossl_quic_pn_valid (pkt_num pkt)" "pkt_space pkt = sp"
    "is_ack_eliciting pkt \<longrightarrow> is_inflight pkt" "length (th_packets h) < LH_MAX_ITEMS"
    "tx_pkt_history_add al h pkt = (ok, h')"
  shows "tx_history_ok sp h' \<and> th_packets h' = (if ok then th_packets h @ [pkt] else th_packets h) \<and>
    th_watermark h' = (if ok then pkt_num pkt + 1 else th_watermark h) \<and>
    (ok \<longrightarrow> th_watermark h \<le> pkt_num pkt) \<and>
    ((\<forall>n. al n) \<and> th_watermark h \<le> pkt_num pkt \<longrightarrow> ok)"
proof (cases "th_watermark h \<le> pkt_num pkt")
  case False
  then show ?thesis
    using assms(1,6) by (auto simp: tx_pkt_history_add_def)
next
  case True
  obtain r h1 where f: "th_retrieve h pkt = (r, h1)"
    by (cases "th_retrieve h pkt")
  have h1: "tx_history_ok sp h1" "th_packets h1 = th_packets h" "th_watermark h1 = th_watermark h"
    "\<forall>p. r = Some p \<longleftrightarrow> p \<in> set (th_packets h) \<and> pkt_num p = pkt_num pkt"
    using th_retrieve_ok [OF assms(1) f] by auto
  have below: "\<forall>p \<in> set (th_packets h). pkt_num p < pkt_num pkt"
    using assms(1) True by (auto simp: tx_history_ok_def)
  then have r: "r = None"
    using h1(4) by (metis less_irrefl option.exhaust)
  obtain m where m: "th_map h1 = Some m" "lh_for tx_pkt_info_compare m" "lh_items m = set (th_packets h)"
    using h1(1,2) by (auto simp: tx_history_ok_def)
  obtain r' m' where i: "OPENSSL_LH_insert al m pkt = (r', m')"
    by (cases "OPENSSL_LH_insert al m pkt")
  have "card (lh_items m) < LH_MAX_ITEMS"
    using assms(5) m(3) card_length [of "th_packets h"] by simp
  then have m': "lh_for tx_pkt_info_compare m'"
    "if OPENSSL_LH_error m' \<noteq> 0 then lh_items m' = set (th_packets h)
     else lh_items m' = insert pkt {x \<in> set (th_packets h). pkt_num x \<noteq> pkt_num pkt}"
    using lh.ins_law [OF m(2) _ i] m(3) by auto
  have same: "{x \<in> set (th_packets h). pkt_num x \<noteq> pkt_num pkt} = set (th_packets h)"
    using below by auto
  have add: "tx_pkt_history_add al h pkt =
    (if OPENSSL_LH_error m' \<noteq> 0 then (False, h1\<lparr>th_map := Some m'\<rparr>)
     else (True, h1\<lparr>th_map := Some m', th_packets := th_packets h @ [pkt], th_watermark := pkt_num pkt + 1,
                    th_highest_sent := pkt_num pkt\<rparr>))"
    using True f r m(1) i h1(2) by (simp add: tx_pkt_history_add_def tx_pkt_history_add_actual_def Let_def)
  have avail: "OPENSSL_LH_error m' = 0" if "\<forall>n. al n"
    using lh.ins_available [OF m(2), of al pkt] that i by simp
  have next_pn: "x < pkt_num pkt + 1 \<longleftrightarrow> x \<le> pkt_num pkt" for x
    using word_less_inc [of "pkt_num pkt" "- 1"] assms(2) by (simp add: ossl_quic_pn_valid_def word_less_nat_alt unat_max64)
  show ?thesis
  proof (cases "OPENSSL_LH_error m' = 0")
    case err: False
    then show ?thesis
      using add assms(1,6) h1 m' avail by (auto simp: tx_history_ok_def)
  next
    case ok: True
    then have h': "ok" "h' = h1\<lparr>th_map := Some m', th_packets := th_packets h @ [pkt], th_watermark := pkt_num pkt + 1,
                    th_highest_sent := pkt_num pkt\<rparr>"
      using add assms(6) by simp_all
    have "\<forall>p \<in> set (th_packets h). pkt_num p < pkt_num pkt + 1"
      using below by (auto simp: next_pn)
    moreover have "lh_items m' = set (th_packets h @ [pkt])"
      using m'(2) ok same by simp
    ultimately have "tx_history_ok sp h'"
      using assms(1-4) below h'(2) m'(1) by (auto simp: tx_history_ok_def sorted_wrt_append next_pn)
    then show ?thesis
      using h' True by simp
  qed
qed
section \<open>Detection of acknowledged packets\<close>

text \<open>What the source asks of the ranges of an ACK frame: no range is empty, and they descend.\<close>

definition ack_ranges_ok :: "uint_range list \<Rightarrow> bool" where
  "ack_ranges_ok rs \<longleftrightarrow> rs \<noteq> [] \<and> uint_set_ok (rev rs)"

abbreviation acks :: "uint_range list \<Rightarrow> tx_pkt \<Rightarrow> bool" where
  "acks rs p \<equiv> pkt_num p \<in> uint_set_abs rs"

lemma match_range_spec:
  assumes "uint_set_ok (rev rs)"
  shows "match_range rs pn =
    (case dropWhile (\<lambda>r. pn < ur_start r) rs of
       [] \<Rightarrow> None
     | r # rs' \<Rightarrow> Some (pn \<in> uint_set_abs rs, r # rs'))"
  using assms
proof (induction rs)
  case (Cons r rs)
  have r: "ur_start r \<le> ur_end r" "uint_set_ok (rev rs)" "\<forall>b \<in> set rs. ur_end b < ur_start r"
    using Cons.prems by (auto simp: uint_set_ok_simps)
  have below: "v < ur_start r" if "v \<in> uint_set_abs rs" for v
    using that r(3) by (auto simp: uint_set_abs_def dest: le_less_trans)
  consider "pn < ur_start r" | "range_contains r pn" | "ur_end r < pn"
    unfolding range_contains_def by (meson leI)
  then show ?case
  proof cases
    case 1
    then have "\<not> range_contains r pn" "\<not> ur_end r < pn"
      using r(1) by (auto simp: range_contains_def)
    then show ?thesis
      using 1 Cons.IH [OF r(2)] by (cases "dropWhile (\<lambda>r. pn < ur_start r) rs") (auto simp del: dropWhile_eq_Nil_conv)
  next
    case 2
    then show ?thesis
      by (auto simp: range_contains_def not_less)
  next
    case 3
    then have "\<not> range_contains r pn" "\<not> pn < ur_start r" "pn \<notin> uint_set_abs rs"
      using below [of pn] r(1) by (auto simp: range_contains_def)
    then show ?thesis
      using 3 by auto
  qed
qed simp

text \<open>The ranges that are skipped lie above the packet, and so above all packets before it.\<close>

lemma dropWhile_abs:
  assumes "uint_set_ok (rev rs)" "x \<le> pn"
  shows "x \<in> uint_set_abs (dropWhile (\<lambda>r. pn < ur_start r) rs) \<longleftrightarrow> x \<in> uint_set_abs rs"
    "uint_set_ok (rev (dropWhile (\<lambda>r. pn < ur_start r) rs))"
  using assms by (induction rs) (auto simp: uint_set_ok_simps)

lemma newly_acked_walk_spec:
  assumes "tx_history_ok sp h" "uint_set_ok (rev rs)" "sorted_wrt (\<lambda>p q. pkt_num q < pkt_num p) ps"
    "set ps \<subseteq> set (th_packets h)"
  shows "\<exists>h'. newly_acked_walk al h rs ps = (filter (acks rs) ps, h') \<and> tx_history_ok sp h' \<and>
    th_packets h' = filter (\<lambda>p. \<not> (p \<in> set ps \<and> acks rs p)) (th_packets h) \<and> th_watermark h' = th_watermark h"
  using assms
proof (induction ps arbitrary: h rs)
  case (Cons p ps)
  let ?rs = "dropWhile (\<lambda>r. pkt_num p < ur_start r) rs"
  have down: "sorted_wrt (\<lambda>p q. pkt_num q < pkt_num p) ps" "\<forall>q \<in> set ps. pkt_num q < pkt_num p"
    using Cons.prems(3) by auto
  have p: "p \<in> set (th_packets h)" "p \<notin> set ps"
    using Cons.prems(4) down(2) by auto
  have rs: "uint_set_ok (rev ?rs)" "acks ?rs q \<longleftrightarrow> acks rs q" if "q \<in> set (p # ps)" for q
    using dropWhile_abs [OF Cons.prems(2), of "pkt_num q" "pkt_num p"] that down(2) by auto
  have f: "filter (acks ?rs) ps = filter (acks rs) ps"
    using rs(2) by (intro filter_cong) auto
  show ?case
  proof (cases "?rs = []")
    case True
    then have "\<not> acks rs q" if "q \<in> set (p # ps)" for q
      using rs(2) [OF that] unfolding True by simp
    moreover have "newly_acked_walk al h rs (p # ps) = ([], h)"
      by (simp add: match_range_spec [OF Cons.prems(2)] True del: dropWhile_eq_Nil_conv)
    moreover have "filter (acks rs) (p # ps) = []"
      "filter (\<lambda>q. \<not> (q \<in> set (p # ps) \<and> acks rs q)) (th_packets h) = th_packets h"
      using calculation(1) by (auto simp: filter_empty_conv filter_id_conv)
    ultimately show ?thesis
      using Cons.prems(1) by simp
  next
    case False
    then have m: "match_range rs (pkt_num p) = Some (acks rs p, ?rs)"
      by (auto simp: match_range_spec [OF Cons.prems(2)] split: list.splits)
    show ?thesis
    proof (cases "acks rs p")
      case no: False
      have "\<exists>h'. newly_acked_walk al h ?rs ps = (filter (acks ?rs) ps, h') \<and> tx_history_ok sp h' \<and>
        th_packets h' = filter (\<lambda>q. \<not> (q \<in> set ps \<and> acks ?rs q)) (th_packets h) \<and> th_watermark h' = th_watermark h"
        using Cons.prems rs(1) [of p] down by (intro Cons.IH) auto
      moreover have "filter (\<lambda>q. \<not> (q \<in> set ps \<and> acks ?rs q)) (th_packets h) =
          filter (\<lambda>q. \<not> (q \<in> set (p # ps) \<and> acks rs q)) (th_packets h)"
        using no rs(2) by (intro filter_cong) auto
      ultimately show ?thesis
        using m no f by auto
    next
      case yes: True
      obtain h1 where h1: "tx_pkt_history_remove al h (pkt_num p) = (True, h1)" "tx_history_ok sp h1"
        "th_packets h1 = filter (\<lambda>q. q \<noteq> p) (th_packets h)" "th_watermark h1 = th_watermark h"
        using tx_history_remove_ok [OF Cons.prems(1) p(1), of al] by auto
      have "\<exists>h'. newly_acked_walk al h1 ?rs ps = (filter (acks ?rs) ps, h') \<and> tx_history_ok sp h' \<and>
        th_packets h' = filter (\<lambda>q. \<not> (q \<in> set ps \<and> acks ?rs q)) (th_packets h1) \<and> th_watermark h' = th_watermark h1"
        using Cons.prems rs(1) [of p] down h1(2,3) p(2) by (intro Cons.IH) auto
      moreover have "filter (\<lambda>q. \<not> (q \<in> set ps \<and> acks ?rs q)) (th_packets h1) =
          filter (\<lambda>q. \<not> (q \<in> set (p # ps) \<and> acks rs q)) (th_packets h)"
        using yes rs(2) unfolding h1(3) filter_filter by (intro filter_cong) auto
      ultimately show ?thesis
        using m yes f h1 by auto
    qed
  qed
qed simp
lemma above_largest:
  assumes "ack_ranges_ok rs" "v \<in> uint_set_abs rs"
  shows "v \<le> ur_end (hd rs)"
proof -
  obtain r rs' where rs: "rs = r # rs'"
    using assms(1) by (cases rs) (auto simp: ack_ranges_ok_def)
  then have "\<forall>b \<in> set rs'. ur_end b < ur_start r" "ur_start r \<le> ur_end r"
    using assms(1) by (auto simp: ack_ranges_ok_def uint_set_ok_simps)
  then show ?thesis
    using assms(2) rs by (auto simp: uint_set_abs_def)
qed

lemma largest_acked_in: "ack_ranges_ok rs \<Longrightarrow> ur_end (hd rs) \<in> uint_set_abs rs"
  by (cases rs) (auto simp: ack_ranges_ok_def uint_set_ok_simps)

lemma skip_to_largest:
  assumes "sorted_wrt (\<lambda>p q. pkt_num q < pkt_num p) ps" "p \<in> set ps" "pkt_num p = ur_end (hd rs)" "ack_ranges_ok rs"
  shows "filter (acks rs) (dropWhile (\<lambda>q. q \<noteq> p) ps) = filter (acks rs) ps"
  using assms(1,2)
proof (induction ps)
  case (Cons q ps)
  have "\<not> acks rs q" if "q \<noteq> p"
    using Cons.prems that above_largest [OF assms(4), of "pkt_num q"] assms(3) by auto
  then show ?case
    using Cons by auto
qed simp

lemma sorted_wrt_dropWhile: "sorted_wrt P xs \<Longrightarrow> sorted_wrt P (dropWhile Q xs)"
  by (induction xs) auto

text \<open>
  The walk with its two shortcuts, the start at the packet with the largest acknowledged number
  and the shared position in the ranges, finds what a test of every packet against every range
  finds.
\<close>

lemma detect_acked_spec:
  assumes "tx_history_ok sp (tx_history a sp)" "ack_ranges_ok (ack_ranges ak)"
  shows "\<exists>h. ackm_detect_and_remove_newly_acked_pkts al a ak sp =
      (rev (filter (acks (ack_ranges ak)) (th_packets (tx_history a sp))), a\<lparr>tx_history := (tx_history a)(sp := h)\<rparr>) \<and>
    tx_history_ok sp h \<and> th_watermark h = th_watermark (tx_history a sp) \<and>
    th_packets h = filter (\<lambda>p. \<not> acks (ack_ranges ak) p) (th_packets (tx_history a sp))"
proof -
  let ?rs = "ack_ranges ak" and ?ps = "th_packets (tx_history a sp)"
  obtain r h1 where f: "tx_pkt_history_by_pkt_num (tx_history a sp) (ur_end (hd ?rs)) = (r, h1)"
    by (cases "tx_pkt_history_by_pkt_num (tx_history a sp) (ur_end (hd ?rs))")
  have h1: "tx_history_ok sp h1" "th_packets h1 = ?ps" "th_watermark h1 = th_watermark (tx_history a sp)"
    "\<forall>p. r = Some p \<longleftrightarrow> p \<in> set ?ps \<and> pkt_num p = ur_end (hd ?rs)"
    using by_pkt_num_ok [OF assms(1) f] by auto
  have down: "sorted_wrt (\<lambda>p q. pkt_num q < pkt_num p) (rev ?ps)"
    using assms(1) by (simp add: tx_history_ok_def sorted_wrt_rev)
  define cur where "cur = (case r of None \<Rightarrow> rev ?ps | Some p \<Rightarrow> dropWhile (\<lambda>q. q \<noteq> p) (rev ?ps))"
  have c: "sorted_wrt (\<lambda>p q. pkt_num q < pkt_num p) cur" "set cur \<subseteq> set ?ps"
    "filter (acks ?rs) cur = filter (acks ?rs) (rev ?ps)"
    using down sorted_wrt_dropWhile [OF down] skip_to_largest [OF down _ _ assms(2)] h1(4)
    by (auto simp: cur_def split: option.splits dest: set_dropWhileD)
  have "set (filter (acks ?rs) cur) = set (filter (acks ?rs) ?ps)"
    unfolding c(3) by simp
  then have same: "p \<in> set cur \<and> acks ?rs p \<longleftrightarrow> p \<in> set ?ps \<and> acks ?rs p" for p
    unfolding set_filter by blast
  have "\<exists>h. newly_acked_walk al h1 ?rs cur = (filter (acks ?rs) cur, h) \<and> tx_history_ok sp h \<and>
      th_packets h = filter (\<lambda>p. \<not> (p \<in> set cur \<and> acks ?rs p)) (th_packets h1) \<and> th_watermark h = th_watermark h1"
    using assms(2) c(2) unfolding ack_ranges_ok_def h1(2) [symmetric]
    by (intro newly_acked_walk_spec [OF h1(1) _ c(1)]) auto
  then obtain h where w: "newly_acked_walk al h1 ?rs cur = (filter (acks ?rs) cur, h)" "tx_history_ok sp h"
      "th_packets h = filter (\<lambda>p. \<not> (p \<in> set cur \<and> acks ?rs p)) (th_packets h1)" "th_watermark h = th_watermark h1"
    by blast
  have "filter (\<lambda>p. \<not> (p \<in> set cur \<and> acks ?rs p)) (th_packets h1) = filter (\<lambda>p. \<not> acks ?rs p) ?ps"
    unfolding h1(2) same by (intro filter_cong) auto
  with w show ?thesis
    using h1(3) c(3)
    unfolding ackm_detect_and_remove_newly_acked_pkts_def f prod.case Let_def h1(2) cur_def [symmetric] w(1)
    by (intro exI [of _ h]) (simp add: rev_filter)
qed

section \<open>Detection of lost packets\<close>

text \<open>
  Lost is a packet that is not above the largest acknowledged number and was sent long enough ago
  or is at least three numbers below it.
\<close>

definition deemed_lost :: "QUIC_PN \<Rightarrow> OSSL_TIME \<Rightarrow> tx_pkt \<Rightarrow> bool" where
  "deemed_lost largest lost_send_time p \<longleftrightarrow>
     pkt_num p \<le> largest \<and> (tx_time p \<le> lost_send_time \<or> unat (pkt_num p) + 3 \<le> unat largest)"

definition may_be_lost :: "QUIC_PN \<Rightarrow> OSSL_TIME \<Rightarrow> tx_pkt \<Rightarrow> bool" where
  "may_be_lost largest lost_send_time p \<longleftrightarrow> pkt_num p \<le> largest \<and> \<not> deemed_lost largest lost_send_time p"

definition earlier_loss :: "OSSL_TIME \<Rightarrow> tx_pkt \<Rightarrow> OSSL_TIME \<Rightarrow> OSSL_TIME" where
  "earlier_loss loss_delay p lt =
     (if ossl_time_is_zero lt then ossl_time_add (tx_time p) loss_delay
      else ossl_time_min lt (ossl_time_add (tx_time p) loss_delay))"

lemma pn_threshold:
  assumes "ossl_quic_pn_valid pn"
  shows "pn + K_PKT_THRESHOLD \<le> largest \<longleftrightarrow> unat pn + 3 \<le> unat largest"
proof -
  have "unat pn < 2 ^ 62"
    using assms by (simp add: ossl_quic_pn_valid_def word_less_nat_alt)
  then have "unat (pn + K_PKT_THRESHOLD) = unat pn + 3"
    by (simp add: K_PKT_THRESHOLD_def unat_word_ariths)
  then show ?thesis
    by (simp add: word_le_nat_alt)
qed

lemma lost_walk_spec:
  assumes "tx_history_ok sp h" "distinct ps" "set ps \<subseteq> set (th_packets h)"
  shows "\<exists>h'. lost_walk al largest ld lst h lt ps =
      (filter (deemed_lost largest lst) ps, h', fold (earlier_loss ld) (filter (may_be_lost largest lst) ps) lt) \<and>
    tx_history_ok sp h' \<and> th_watermark h' = th_watermark h \<and>
    th_packets h' = filter (\<lambda>p. \<not> (p \<in> set ps \<and> deemed_lost largest lst p)) (th_packets h)"
  using assms
proof (induction ps arbitrary: h lt)
  case (Cons p ps)
  have p: "p \<in> set (th_packets h)" "p \<notin> set ps" "distinct ps"
    using Cons.prems by auto
  then have v: "ossl_quic_pn_valid (pkt_num p)"
    using Cons.prems(1) unfolding tx_history_ok_def by blast
  have cond: "(ossl_time_compare (tx_time p) lst \<le> 0 \<or> pkt_num p + K_PKT_THRESHOLD \<le> largest) \<longleftrightarrow>
      tx_time p \<le> lst \<or> unat (pkt_num p) + 3 \<le> unat largest"
    unfolding pn_threshold [OF v] time_compare_simps ..
  show ?case
  proof (cases "deemed_lost largest lst p")
    case no: False
    let ?lt = "if may_be_lost largest lst p then earlier_loss ld p lt else lt"
    have "lost_walk al largest ld lst h lt (p # ps) = lost_walk al largest ld lst h ?lt ps"
      using no cond by (auto simp: deemed_lost_def may_be_lost_def earlier_loss_def not_le)
    moreover have "filter (\<lambda>q. \<not> (q \<in> set ps \<and> deemed_lost largest lst q)) (th_packets h) =
        filter (\<lambda>q. \<not> (q \<in> set (p # ps) \<and> deemed_lost largest lst q)) (th_packets h)"
      using no by (intro filter_cong) auto
    ultimately show ?thesis
      using Cons.IH [of h ?lt] Cons.prems no by auto
  next
    case yes: True
    obtain h1 where h1: "tx_pkt_history_remove al h (pkt_num p) = (True, h1)" "tx_history_ok sp h1"
      "th_packets h1 = filter (\<lambda>q. q \<noteq> p) (th_packets h)" "th_watermark h1 = th_watermark h"
      using tx_history_remove_ok [OF Cons.prems(1) p(1), of al] by auto
    have "\<not> may_be_lost largest lst p"
      using yes by (simp add: may_be_lost_def)
    moreover have "\<not> pkt_num p > largest" "ossl_time_compare (tx_time p) lst \<le> 0 \<or> pkt_num p + K_PKT_THRESHOLD \<le> largest"
      using yes unfolding cond by (simp_all add: deemed_lost_def not_less)
    then have "lost_walk al largest ld lst h lt (p # ps) =
        (case lost_walk al largest ld lst h1 lt ps of (lost, h', lt') \<Rightarrow> (p # lost, h', lt'))"
      using h1(1) by simp
    moreover have "filter (\<lambda>q. \<not> (q \<in> set ps \<and> deemed_lost largest lst q)) (th_packets h1) =
        filter (\<lambda>q. \<not> (q \<in> set (p # ps) \<and> deemed_lost largest lst q)) (th_packets h)"
      using yes unfolding h1(3) filter_filter by (intro filter_cong) auto
    moreover have "set ps \<subseteq> set (th_packets h1)"
      using Cons.prems(3) p(2) h1(3) by auto
    ultimately show ?thesis
      using Cons.IH [OF h1(2) p(3), of lt] h1(4) yes by (auto simp del: lost_walk.simps)
  qed
qed simp

definition lost_send_time :: "OSSL_TIME \<Rightarrow> ackm \<Rightarrow> OSSL_TIME" where
  "lost_send_time now a = ossl_time_subtract now (ackm_loss_delay a)"

lemma detect_lost_spec:
  assumes "tx_history_ok sp (tx_history a sp)"
  shows "\<exists>h. ackm_detect_and_remove_lost_pkts al now a sp =
      (filter (deemed_lost (largest_acked_pkt a sp) (lost_send_time now a)) (th_packets (tx_history a sp)),
       a\<lparr>tx_history := (tx_history a)(sp := h), loss_time := (loss_time a)(sp :=
           fold (earlier_loss (ackm_loss_delay a))
             (filter (may_be_lost (largest_acked_pkt a sp) (lost_send_time now a)) (th_packets (tx_history a sp))) 0)\<rparr>) \<and>
    tx_history_ok sp h \<and> th_watermark h = th_watermark (tx_history a sp) \<and>
    th_packets h = filter (\<lambda>p. \<not> deemed_lost (largest_acked_pkt a sp) (lost_send_time now a) p) (th_packets (tx_history a sp))"
proof -
  let ?h = "tx_history a sp" and ?P = "deemed_lost (largest_acked_pkt a sp) (lost_send_time now a)"
  have "filter (\<lambda>p. \<not> (p \<in> set (th_packets ?h) \<and> ?P p)) (th_packets ?h) = filter (\<lambda>p. \<not> ?P p) (th_packets ?h)"
    by (intro filter_cong) auto
  then show ?thesis
    using lost_walk_spec [OF assms tx_history_distinct [OF assms] order_refl, of al "largest_acked_pkt a sp"
        "ackm_loss_delay a" "lost_send_time now a" 0]
    by (auto simp: ackm_detect_and_remove_lost_pkts_def lost_send_time_def Let_def ossl_time_zero_def ossl_ticks2time_def)
qed

end
