(* ===== verification/Ackm_State.thy ===== *)
theory Ackm_State
  imports Ackm_Rx Ackm_Tx
begin

text \<open>
  The state of the ACK manager between two calls: what the helpers do to it, the invariant that ties
  the counters, the histories and the calls made to the rest of the connection together, and that
  every operation keeps it.
\<close>

section \<open>Effects of the helpers\<close>

definition bytes_of :: "(tx_pkt \<Rightarrow> bool) \<Rightarrow> tx_pkt list \<Rightarrow> u64" where
  "bytes_of P ps = sum_list (map num_bytes (filter P ps))"

lemma bytes_of_simps [simp]:
  "bytes_of P [] = 0" "bytes_of P (p # ps) = (if P p then num_bytes p else 0) + bytes_of P ps"
  "bytes_of P (ps @ qs) = bytes_of P ps + bytes_of P qs"
  "bytes_of P (rev ps) = bytes_of P ps"
  by (simp_all add: bytes_of_def rev_filter [symmetric] rev_map [symmetric] sum_list_rev)

lemma bytes_of_split: "bytes_of P ps = bytes_of P (filter Q ps) + bytes_of P (filter (\<lambda>p. \<not> Q p) ps)"
  by (induction ps) (simp_all add: algebra_simps)

lemma bytes_of_cong: "\<lbrakk>\<And>p. p \<in> set ps \<Longrightarrow> P p \<longleftrightarrow> Q p\<rbrakk> \<Longrightarrow> bytes_of P ps = bytes_of Q ps"
  unfolding bytes_of_def by (metis filter_cong)

text \<open>The counters after the packets \<open>ps\<close> have left the history, and the calls that are made.\<close>

definition released :: "tx_pkt list \<Rightarrow> ackm \<Rightarrow> ackm" where
  "released ps a =
     a\<lparr>bytes_in_flight := bytes_in_flight a - bytes_of is_inflight ps,
       ack_eliciting_bytes_in_flight := (\<lambda>sp. ack_eliciting_bytes_in_flight a sp -
         bytes_of (\<lambda>p. is_inflight p \<and> is_ack_eliciting p \<and> pkt_space p = sp) ps)\<rparr>"

definition lost_events :: "bool \<Rightarrow> tx_pkt \<Rightarrow> ackm_event list" where
  "lost_events pseudo p =
     (if is_inflight p \<and> \<not> pseudo then [Cc_data_lost (tx_time p) (num_bytes p)] else []) @ [On_lost p]"

definition acked_events :: "tx_pkt \<Rightarrow> ackm_event list" where
  "acked_events p = On_acked p # (if is_inflight p then [Cc_data_acked (tx_time p) (num_bytes p)] else [])"

definition traced :: "ackm_event list \<Rightarrow> ackm \<Rightarrow> ackm" where
  "traced es a = a\<lparr>ak_trace := ak_trace a @ es\<rparr>"

lemma traced_simps [simp]:
  "traced [] a = a" "traced es (traced ds a) = traced (ds @ es) a" "emit e a = traced [e] a"
  "released ps (traced es a) = traced es (released ps a)"
  by (simp_all add: traced_def emit_def released_def)

lemma released_simps [simp]:
  "released [] a = a" "released ps (released qs a) = released (qs @ ps) a"
  by (simp_all add: released_def algebra_simps)

lemma released_one:
  "is_inflight p \<Longrightarrow> release_bytes p a = released [p] a" "\<not> is_inflight p \<Longrightarrow> released [p] a = a"
  by (simp_all add: release_bytes_def released_def Let_def fun_upd_def fun_eq_iff)

lemma on_pkt_lost_eq: "on_pkt_lost pseudo p a = traced (lost_events pseudo p) (released [p] a)"
  by (cases "is_inflight p") (simp_all add: on_pkt_lost_def lost_events_def released_one Let_def)

lemma fold_lost:
  "fold (on_pkt_lost pseudo) ps a = traced (concat (map (lost_events pseudo) ps)) (released ps a)"
  by (induction ps arbitrary: a) (simp_all add: on_pkt_lost_eq)

lemma on_pkts_lost_eq:
  "ackm_on_pkts_lost a ps pseudo =
     traced (concat (map (lost_events pseudo) ps) @ [Cc_data_lost_finished 0]) (released ps a)"
  by (simp add: ackm_on_pkts_lost_def fold_lost ackm_in_persistent_congestion_def Let_def)

text \<open>How a history of received packets may change when sent packets are acknowledged.\<close>

definition rx_grows :: "rx_pkt_history \<Rightarrow> rx_pkt_history \<Rightarrow> bool" where
  "rx_grows h h' \<longleftrightarrow> (rx_history_ok h \<longrightarrow> rx_history_ok h' \<and> rx_seen h \<subseteq> rx_seen h' \<and>
     rh_watermark h \<le> rh_watermark h' \<and> uint_set_abs (rh_set h') \<subseteq> uint_set_abs (rh_set h))"

lemma rx_grows_refl [simp]: "rx_grows h h"
  by (simp add: rx_grows_def)

lemma rx_grows_trans: "\<lbrakk>rx_grows h1 h2; rx_grows h2 h3\<rbrakk> \<Longrightarrow> rx_grows h1 h3"
  unfolding rx_grows_def by (meson order_trans)

lemma bump_grows:
  assumes "v \<noteq> QUIC_PN_INVALID"
  shows "rx_grows h (snd (rx_pkt_history_bump_watermark al h (v + 1)))"
proof -
  obtain ok h' where b: "rx_pkt_history_bump_watermark al h (v + 1) = (ok, h')"
    by (cases "rx_pkt_history_bump_watermark al h (v + 1)")
  have "rx_history_ok h' \<and> rx_seen h \<subseteq> rx_seen h' \<and> rh_watermark h \<le> rh_watermark h' \<and>
      uint_set_abs (rh_set h') \<subseteq> uint_set_abs (rh_set h)" if ok: "rx_history_ok h"
  proof -
    have h: "uint_set_ok (rh_set h)" "uint_set_gaps (rh_set h)" "length (rh_set h) \<le> MAX_RX_ACK_RANGES"
      "\<forall>x \<in> uint_set_abs (rh_set h). rh_watermark h \<le> x \<and> ossl_quic_pn_valid x"
      using ok by (simp_all add: rx_history_ok_def)
    have h': "uint_set_ok (rh_set h')" "uint_set_gaps (rh_set h')" "length (rh_set h') \<le> length (rh_set h)"
      "uint_set_abs (rh_set h') \<subseteq> uint_set_abs (rh_set h)" "rh_watermark h' = max (rh_watermark h) (v + 1)"
      "if v < rh_watermark h then h' = h else uint_set_abs (rh_set h') = uint_set_abs (rh_set h) - {..v}"
      "rx_seen h' = rx_seen h \<union> {..v}"
      using bump_watermark_ok [OF h(1,2) b assms] by auto
    have "rh_watermark h' \<le> x" if "x \<in> uint_set_abs (rh_set h')" for x
    proof (cases "v < rh_watermark h")
      case True
      then show ?thesis
        using h'(6) h(4) that by simp
    next
      case False
      then have "\<not> x \<le> v"
        using h'(6) that by simp
      then have "\<not> x < v + 1" "rh_watermark h \<le> x"
        using word_less_suc [OF assms] h(4) h'(4) that by auto
      then show ?thesis
        unfolding h'(5) by simp
    qed
    moreover have "rx_seen h \<subseteq> rx_seen h'" "rh_watermark h \<le> rh_watermark h'"
      unfolding h'(5,7) by simp_all
    moreover have "\<forall>x \<in> uint_set_abs (rh_set h'). ossl_quic_pn_valid x"
      using h(4) h'(4) by blast
    ultimately show ?thesis
      using h(3) h'(1-4) by (simp add: rx_history_ok_def)
  qed
  then show ?thesis
    using b by (simp add: rx_grows_def)
qed

lemma on_pkts_acked_eq:
  "\<exists>rx. ackm_on_pkts_acked al a ps =
     (traced (concat (map acked_events ps)) (released ps a))\<lparr>rx_history := rx\<rparr> \<and>
     (\<forall>sp. rx_grows (rx_history a sp) (rx sp))"
proof (induction ps arbitrary: a)
  case Nil
  then show ?case
    by (auto simp: ackm_on_pkts_acked_def intro!: exI [of _ "rx_history a"])
next
  case (Cons p ps)
  define rx where "rx = (if is_inflight p \<and> largest_acked p \<noteq> QUIC_PN_INVALID then
      (rx_history a)(pkt_space p :=
         snd (rx_pkt_history_bump_watermark al (rx_history a (pkt_space p)) (largest_acked p + 1)))
      else rx_history a)"
  define a1 where "a1 = (traced (acked_events p) (released [p] a))\<lparr>rx_history := rx\<rparr>"
  have "on_pkt_acked al p a = a1"
    by (cases "is_inflight p")
      (simp_all add: a1_def rx_def on_pkt_acked_def released_one acked_events_def Let_def traced_def emit_def released_def
        release_bytes_def fun_eq_iff)
  then have "ackm_on_pkts_acked al a (p # ps) = ackm_on_pkts_acked al a1 ps"
    by (simp add: ackm_on_pkts_acked_def)
  moreover have "rx_grows (rx_history a sp) (rx sp)" for sp
    using bump_grows by (simp add: rx_def)
  moreover obtain rx' where "ackm_on_pkts_acked al a1 ps =
      (traced (concat (map acked_events ps)) (released ps a1))\<lparr>rx_history := rx'\<rparr>"
      "\<forall>sp. rx_grows (rx_history a1 sp) (rx' sp)"
    using Cons.IH by blast
  moreover have "released ps a1 = (traced (acked_events p) (released (p # ps) a))\<lparr>rx_history := rx\<rparr>"
    by (simp add: a1_def released_def traced_def algebra_simps)
  ultimately show ?case
    by (intro exI [of _ rx']) (auto simp: a1_def traced_def intro: rx_grows_trans)
qed

lemma set_timer_eq:
  "\<exists>d. ackm_set_loss_detection_timer now a =
     traced (if loss_cb a then [Loss_deadline d] else []) (a\<lparr>loss_detection_deadline := d\<rparr>)"
  by (auto simp: ackm_set_loss_detection_timer_def ackm_set_loss_detection_timer_actual_def Let_def)

lemma fold_discarded:
  "fold on_pkt_discarded ps (a, n) =
     (traced (map On_discarded ps) (a\<lparr>bytes_in_flight := bytes_in_flight a - bytes_of is_inflight ps\<rparr>),
      n + bytes_of is_inflight ps)"
proof (induction ps arbitrary: a n)
  case (Cons p ps)
  then show ?case
    by (cases "is_inflight p") (simp_all add: on_pkt_discarded_def Let_def traced_def algebra_simps)
qed simp
section \<open>The invariant\<close>

text \<open>The packets that are sent and not yet resolved, and the events that resolve a packet.\<close>

definition outstanding :: "ackm \<Rightarrow> tx_pkt list" where
  "outstanding a =
     th_packets (tx_history a QUIC_PN_SPACE_INITIAL) @ th_packets (tx_history a QUIC_PN_SPACE_HANDSHAKE) @
     th_packets (tx_history a QUIC_PN_SPACE_APP)"

fun resolves :: "ackm_event \<Rightarrow> tx_pkt list" where
  "resolves (On_lost p) = [p]"
| "resolves (On_acked p) = [p]"
| "resolves (On_discarded p) = [p]"
| "resolves _ = []"

definition resolved :: "ackm_event list \<Rightarrow> tx_pkt list" where
  "resolved es = concat (map resolves es)"

text \<open>
  The bytes in flight as the congestion controller counts them from the calls it gets, and the
  bytes of lost packets it was not told about.
\<close>

fun cc_delta :: "ackm_event \<Rightarrow> u64" where
  "cc_delta (Cc_data_sent n) = n"
| "cc_delta (Cc_data_acked _ n) = - n"
| "cc_delta (Cc_data_lost _ n) = - n"
| "cc_delta (Cc_data_invalidated n) = - n"
| "cc_delta _ = 0"

fun unreported_delta :: "ackm_event \<Rightarrow> u64" where
  "unreported_delta (On_lost p) = (if is_inflight p then num_bytes p else 0)"
| "unreported_delta (Cc_data_lost _ n) = - n"
| "unreported_delta _ = 0"

definition cc_in_flight :: "ackm_event list \<Rightarrow> u64" where
  "cc_in_flight es = sum_list (map cc_delta es)"

definition unreported_loss :: "ackm_event list \<Rightarrow> u64" where
  "unreported_loss es = sum_list (map unreported_delta es)"

lemma trace_simps [simp]:
  "resolved [] = []" "resolved (e # es) = resolves e @ resolved es" "resolved (es @ ds) = resolved es @ resolved ds"
  "cc_in_flight [] = 0" "cc_in_flight (e # es) = cc_delta e + cc_in_flight es"
  "cc_in_flight (es @ ds) = cc_in_flight es + cc_in_flight ds"
  "unreported_loss [] = 0" "unreported_loss (e # es) = unreported_delta e + unreported_loss es"
  "unreported_loss (es @ ds) = unreported_loss es + unreported_loss ds"
  by (simp_all add: resolved_def cc_in_flight_def unreported_loss_def)

text \<open>
  The state of one packet number space, and the invariant of the whole state. The packets \<open>qs\<close> have
  been taken out of a history and are not yet accounted for; between two calls there are none.
  The list \<open>sent\<close> holds every packet accepted so far.
\<close>

definition space_ok :: "ackm \<Rightarrow> pn_space \<Rightarrow> bool" where
  "space_ok a sp \<longleftrightarrow> rx_history_ok (rx_history a sp) \<and>
     (if discarded a sp then th_packets (tx_history a sp) = [] \<and> loss_time a sp = 0
      else tx_history_ok sp (tx_history a sp))"

definition ackm_inv :: "tx_pkt list \<Rightarrow> tx_pkt list \<Rightarrow> ackm \<Rightarrow> bool" where
  "ackm_inv sent qs a \<longleftrightarrow>
     (\<forall>sp. space_ok a sp) \<and>
     (\<forall>sp. ack_eliciting_bytes_in_flight a sp =
        bytes_of is_ack_eliciting (th_packets (tx_history a sp)) +
        bytes_of (\<lambda>p. is_ack_eliciting p \<and> pkt_space p = sp) qs) \<and>
     bytes_in_flight a = bytes_of is_inflight (outstanding a @ qs) \<and>
     (\<forall>q \<in> set qs. is_ack_eliciting q \<longrightarrow> is_inflight q) \<and>
     mset (resolved (ak_trace a)) + mset (outstanding a @ qs) = mset sent \<and>
     cc_in_flight (ak_trace a) = bytes_in_flight a + unreported_loss (ak_trace a)"

lemma bytes_of_mset: "mset ps = mset qs + mset rs \<Longrightarrow> bytes_of P ps = bytes_of P qs + bytes_of P rs"
proof -
  assume "mset ps = mset qs + mset rs"
  then have "mset (map num_bytes (filter P ps)) = mset (map num_bytes (filter P (qs @ rs)))"
    by (simp add: mset_map mset_filter)
  then have "bytes_of P ps = bytes_of P (qs @ rs)"
    unfolding bytes_of_def by (metis sum_mset_sum_list)
  then show ?thesis
    by simp
qed

lemma outstanding_upd:
  "mset (outstanding (a\<lparr>tx_history := (tx_history a)(sp := h)\<rparr>)) + mset (th_packets (tx_history a sp)) =
     mset (outstanding a) + mset (th_packets h)"
  by (cases sp) (simp_all add: outstanding_def)

lemma outstanding_sub: "set (th_packets (tx_history a sp)) \<subseteq> set (outstanding a)"
  by (cases sp) (auto simp: outstanding_def)

definition neutral :: "ackm_event \<Rightarrow> bool" where
  "neutral e \<longleftrightarrow> resolves e = [] \<and> cc_delta e = 0 \<and> unreported_delta e = 0"

lemma neutral_trace:
  "\<forall>e \<in> set es. neutral e \<Longrightarrow> resolved es = [] \<and> cc_in_flight es = 0 \<and> unreported_loss es = 0"
  by (induction es) (auto simp: neutral_def)

lemma neutral_simps [simp]:
  "neutral (Loss_deadline d)" "neutral (Ack_deadline d sp)" "neutral (Cc_ecn t)" "neutral (Cc_data_lost_finished f)"
  by (simp_all add: neutral_def)

text \<open>What a step may change without touching the packets.\<close>

lemma inv_frame:
  assumes "ackm_inv sent qs a" "\<And>sp. th_packets (tx_history a' sp) = th_packets (tx_history a sp)"
    "\<And>sp. tx_history_ok sp (tx_history a sp) \<Longrightarrow> tx_history_ok sp (tx_history a' sp)"
    "discarded a' = discarded a"
    "ack_eliciting_bytes_in_flight a' = ack_eliciting_bytes_in_flight a" "bytes_in_flight a' = bytes_in_flight a"
    "\<And>sp. rx_history_ok (rx_history a sp) \<Longrightarrow> rx_history_ok (rx_history a' sp)"
    "\<And>sp. discarded a sp \<Longrightarrow> loss_time a sp = 0 \<Longrightarrow> loss_time a' sp = 0"
    "ak_trace a' = ak_trace a @ es" "\<forall>e \<in> set es. neutral e"
  shows "ackm_inv sent qs a'"
proof -
  have "outstanding a' = outstanding a"
    using assms(2) by (simp add: outstanding_def)
  moreover have "space_ok a' sp" for sp
    using assms(1,4) assms(2,3,7,8) [of sp] by (auto simp: ackm_inv_def space_ok_def)
  ultimately show ?thesis
    using assms(1,2,5,6,9) neutral_trace [OF assms(10)] by (simp add: ackm_inv_def)
qed

lemma inv_leave:
  assumes "ackm_inv sent qs a" "\<not> discarded a sp" "tx_history_ok sp h"
    "mset (th_packets (tx_history a sp)) = mset ps + mset (th_packets h)"
  shows "ackm_inv sent (qs @ ps) (a\<lparr>tx_history := (tx_history a)(sp := h)\<rparr>)"
proof -
  let ?a = "a\<lparr>tx_history := (tx_history a)(sp := h)\<rparr>"
  have ok: "tx_history_ok sp (tx_history a sp)"
    using assms(1,2) by (auto simp: ackm_inv_def space_ok_def)
  have sub: "set ps \<subseteq> set (th_packets (tx_history a sp))"
    using arg_cong [OF assms(4), of set_mset] by auto
  then have ps: "\<forall>p \<in> set ps. pkt_space p = sp \<and> (is_ack_eliciting p \<longrightarrow> is_inflight p)"
    using ok unfolding tx_history_ok_def by blast
  have out: "mset (outstanding a) = mset (outstanding ?a) + mset ps"
    using outstanding_upd [of a sp h] assms(4) by (simp add: add_ac)
  then have "bytes_of is_inflight (outstanding a) = bytes_of is_inflight (outstanding ?a) + bytes_of is_inflight ps"
    by (rule bytes_of_mset)
  moreover have "bytes_of is_ack_eliciting (th_packets (tx_history a sp)) =
      bytes_of is_ack_eliciting ps + bytes_of is_ack_eliciting (th_packets h)"
    using assms(4) by (rule bytes_of_mset)
  moreover have "bytes_of (\<lambda>p. is_ack_eliciting p \<and> pkt_space p = sp') ps =
      (if sp' = sp then bytes_of is_ack_eliciting ps else 0)" for sp'
    using ps bytes_of_cong [of ps "\<lambda>p. is_ack_eliciting p \<and> pkt_space p = sp'" is_ack_eliciting]
      bytes_of_cong [of ps "\<lambda>p. is_ack_eliciting p \<and> pkt_space p = sp'" "\<lambda>_. False"]
    by (auto simp: bytes_of_def)
  moreover have "space_ok ?a sp'" for sp'
    using assms(1-3) by (auto simp: ackm_inv_def space_ok_def)
  ultimately show ?thesis
    using assms(1) ps out by (simp add: ackm_inv_def add_ac ball_Un)
qed
lemma lost_trace:
  "resolved (concat (map (lost_events b) ps)) = ps"
  "cc_in_flight (concat (map (lost_events b) ps)) = (if b then 0 else - bytes_of is_inflight ps)"
  "unreported_loss (concat (map (lost_events b) ps)) = (if b then bytes_of is_inflight ps else 0)"
  by (induction ps) (auto simp: lost_events_def)

lemma acked_trace:
  "resolved (concat (map acked_events ps)) = ps"
  "cc_in_flight (concat (map acked_events ps)) = - bytes_of is_inflight ps"
  "unreported_loss (concat (map acked_events ps)) = 0"
  by (induction ps) (auto simp: acked_events_def)

lemma discarded_trace:
  "resolved (map On_discarded ps) = ps" "cc_in_flight (map On_discarded ps) = 0"
  "unreported_loss (map On_discarded ps) = 0"
  by (induction ps) auto

lemma released_fields [simp]:
  "tx_history (released ps a) = tx_history a" "rx_history (released ps a) = rx_history a"
  "discarded (released ps a) = discarded a" "loss_time (released ps a) = loss_time a"
  "ak_trace (released ps a) = ak_trace a"
  "tx_history (traced es a) = tx_history a" "rx_history (traced es a) = rx_history a"
  "discarded (traced es a) = discarded a" "loss_time (traced es a) = loss_time a"
  "ak_trace (traced es a) = ak_trace a @ es"
  "bytes_in_flight (traced es a) = bytes_in_flight a"
  "ack_eliciting_bytes_in_flight (traced es a) = ack_eliciting_bytes_in_flight a"
  "rx_ack_desired (traced es a) = rx_ack_desired a" "rx_ack_desired (released ps a) = rx_ack_desired a"
  "rx_ack_flush_deadline (traced es a) = rx_ack_flush_deadline a"
  "rx_ack_flush_deadline (released ps a) = rx_ack_flush_deadline a"
  by (simp_all add: released_def traced_def)

lemma inv_release:
  assumes "ackm_inv sent (qs @ ps) a" "resolved es = ps"
    "cc_in_flight es = unreported_loss es - bytes_of is_inflight ps"
  shows "ackm_inv sent qs (traced es (released ps a))"
proof -
  let ?a = "traced es (released ps a)"
  have out: "outstanding ?a = outstanding a"
    by (simp add: outstanding_def)
  have "space_ok ?a sp" for sp
    using assms(1) by (auto simp: ackm_inv_def space_ok_def)
  moreover have "bytes_of (\<lambda>p. is_inflight p \<and> is_ack_eliciting p \<and> pkt_space p = sp) ps =
      bytes_of (\<lambda>p. is_ack_eliciting p \<and> pkt_space p = sp) ps" for sp
    using assms(1) by (intro bytes_of_cong) (auto simp: ackm_inv_def)
  then have "ack_eliciting_bytes_in_flight ?a sp = bytes_of is_ack_eliciting (th_packets (tx_history a sp)) +
        bytes_of (\<lambda>p. is_ack_eliciting p \<and> pkt_space p = sp) qs" for sp
    using assms(1) by (simp add: ackm_inv_def released_def)
  moreover have "bytes_in_flight ?a = bytes_in_flight a - bytes_of is_inflight ps"
    by (simp add: released_def)
  ultimately show ?thesis
    using assms by (simp add: ackm_inv_def out add_ac ball_Un algebra_simps)
qed

text \<open>The part of the state that belongs to the receiving side.\<close>

definition rx_kept :: "ackm \<Rightarrow> ackm \<Rightarrow> bool" where
  "rx_kept a a' \<longleftrightarrow> discarded a' = discarded a \<and> (\<forall>sp. rx_grows (rx_history a sp) (rx_history a' sp)) \<and>
     rx_ack_desired a' = rx_ack_desired a \<and> rx_ack_flush_deadline a' = rx_ack_flush_deadline a"

lemma rx_kept_refl [simp]: "rx_kept a a"
  by (simp add: rx_kept_def)

lemma rx_kept_trans: "\<lbrakk>rx_kept a b; rx_kept b c\<rbrakk> \<Longrightarrow> rx_kept a c"
  unfolding rx_kept_def by (metis rx_grows_trans)

lemma rx_kept_fields:
  "\<lbrakk>discarded a' = discarded a; rx_history a' = rx_history a; rx_ack_desired a' = rx_ack_desired a;
    rx_ack_flush_deadline a' = rx_ack_flush_deadline a\<rbrakk> \<Longrightarrow> rx_kept a a'"
  by (simp add: rx_kept_def)

lemma set_timer_ok:
  "ackm_inv sent qs a \<Longrightarrow> ackm_inv sent qs (ackm_set_loss_detection_timer now a)"
  "rx_kept a (ackm_set_loss_detection_timer now a)"
  "\<exists>es. ak_trace (ackm_set_loss_detection_timer now a) = ak_trace a @ es \<and> (\<forall>e \<in> set es. neutral e)"
proof -
  obtain d where d: "ackm_set_loss_detection_timer now a =
     traced (if loss_cb a then [Loss_deadline d] else []) (a\<lparr>loss_detection_deadline := d\<rparr>)"
    using set_timer_eq by blast
  show "ackm_inv sent qs (ackm_set_loss_detection_timer now a)" if "ackm_inv sent qs a"
    using that unfolding d
    by (rule inv_frame [where es = "if loss_cb a then [Loss_deadline d] else []"]) simp_all
  show "rx_kept a (ackm_set_loss_detection_timer now a)"
    unfolding d by (rule rx_kept_fields) (simp_all add: traced_def)
  show "\<exists>es. ak_trace (ackm_set_loss_detection_timer now a) = ak_trace a @ es \<and> (\<forall>e \<in> set es. neutral e)"
    unfolding d by auto
qed

lemma set_timer_fields [simp]:
  "tx_history (ackm_set_loss_detection_timer now a) = tx_history a"
  "rx_history (ackm_set_loss_detection_timer now a) = rx_history a"
  "discarded (ackm_set_loss_detection_timer now a) = discarded a"
  "loss_time (ackm_set_loss_detection_timer now a) = loss_time a"
  "bytes_in_flight (ackm_set_loss_detection_timer now a) = bytes_in_flight a"
  "ack_eliciting_bytes_in_flight (ackm_set_loss_detection_timer now a) = ack_eliciting_bytes_in_flight a"
  "rx_ack_desired (ackm_set_loss_detection_timer now a) = rx_ack_desired a"
  "rx_ack_flush_deadline (ackm_set_loss_detection_timer now a) = rx_ack_flush_deadline a"
  by (simp_all add: ackm_set_loss_detection_timer_def ackm_set_loss_detection_timer_actual_def Let_def traced_def)

fun acked_in :: "ackm_event list \<Rightarrow> tx_pkt list" where
  "acked_in [] = []"
| "acked_in (On_acked p # es) = p # acked_in es"
| "acked_in (_ # es) = acked_in es"

lemma acked_in_append [simp]: "acked_in (es @ ds) = acked_in es @ acked_in ds"
  by (induction es rule: acked_in.induct) simp_all

text \<open>
  The trace grows by events that acknowledge the packets \<open>ps\<close>, report no ECN mark and hide no loss
  from the congestion controller.
\<close>

definition grows :: "tx_pkt list \<Rightarrow> ackm \<Rightarrow> ackm \<Rightarrow> bool" where
  "grows ps a a' \<longleftrightarrow> (\<exists>es. ak_trace a' = ak_trace a @ es \<and> acked_in es = ps \<and> unreported_loss es = 0 \<and>
     (\<forall>t. Cc_ecn t \<notin> set es))"

lemma grows_append:
  assumes "grows ps a b" "grows qs b c"
  shows "grows (ps @ qs) a c"
proof -
  obtain es ds where "ak_trace b = ak_trace a @ es" "acked_in es = ps" "unreported_loss es = 0" "\<forall>t. Cc_ecn t \<notin> set es"
    "ak_trace c = ak_trace b @ ds" "acked_in ds = qs" "unreported_loss ds = 0" "\<forall>t. Cc_ecn t \<notin> set ds"
    using assms by (auto simp: grows_def)
  then show ?thesis
    unfolding grows_def by (intro exI [of _ "es @ ds"]) auto
qed

lemma grows_trans: "\<lbrakk>grows [] a b; grows [] b c\<rbrakk> \<Longrightarrow> grows [] a c"
  using grows_append [of "[]" a b "[]" c] by simp

lemma grows_same: "ak_trace a' = ak_trace a \<Longrightarrow> grows [] a a'"
  by (auto simp: grows_def)

lemma grows_refl [simp]: "grows [] a a"
  by (simp add: grows_same)

lemma grows_timer: "grows [] a (ackm_set_loss_detection_timer now a)"
proof -
  obtain d where d: "ackm_set_loss_detection_timer now a =
     traced (if loss_cb a then [Loss_deadline d] else []) (a\<lparr>loss_detection_deadline := d\<rparr>)"
    using set_timer_eq by blast
  show ?thesis
    unfolding grows_def d by (auto intro!: exI [of _ "if loss_cb a then [Loss_deadline d] else []"])
qed

lemma lost_no_ecn: "Cc_ecn t \<notin> set (concat (map (lost_events b) ps))"
  by (auto simp: lost_events_def)

lemma acked_no_ecn: "Cc_ecn t \<notin> set (concat (map acked_events ps))"
  by (auto simp: acked_events_def)

lemma acked_in_events:
  "acked_in (concat (map (lost_events b) ps)) = []" "acked_in (concat (map acked_events ps)) = ps"
  "acked_in (map On_discarded ps) = []"
  by (induction ps) (auto simp: lost_events_def acked_events_def)

lemma mset_partition: "mset xs = mset (filter P xs) + mset (filter (\<lambda>x. \<not> P x) xs)"
  by (induction xs) auto

lemma filter_single: "\<lbrakk>distinct xs; x \<in> set xs\<rbrakk> \<Longrightarrow> filter (\<lambda>y. y = x) xs = [x]"
  by (induction xs) (auto simp: filter_empty_conv)

section \<open>Every operation keeps the invariant\<close>

lemma inv_tx_history: "\<lbrakk>ackm_inv sent qs a; \<not> discarded a sp\<rbrakk> \<Longrightarrow> tx_history_ok sp (tx_history a sp)"
  by (auto simp: ackm_inv_def space_ok_def)

lemma inv_enter:
  assumes "ackm_inv sent [] a" "tx_history_ok sp h" "th_packets h = th_packets (tx_history a sp) @ [pkt]"
    "\<not> discarded a sp" "tx_history a' = (tx_history a)(sp := h)" "discarded a' = discarded a"
    "rx_history a' = rx_history a" "loss_time a' = loss_time a"
    "ack_eliciting_bytes_in_flight a' = (ack_eliciting_bytes_in_flight a)
       (sp := ack_eliciting_bytes_in_flight a sp + (if is_ack_eliciting pkt then num_bytes pkt else 0))"
    "bytes_in_flight a' = bytes_in_flight a + (if is_inflight pkt then num_bytes pkt else 0)"
    "ak_trace a' = ak_trace a @ es" "resolved es = []" "unreported_loss es = 0"
    "cc_in_flight es = (if is_inflight pkt then num_bytes pkt else 0)"
  shows "ackm_inv (sent @ [pkt]) [] a'"
proof -
  have "mset (outstanding a') = mset (outstanding a) + {#pkt#}"
    using outstanding_upd [of a sp h] assms(3,5) by (simp add: outstanding_def)
  moreover from this have "bytes_of is_inflight (outstanding a') = bytes_of is_inflight (outstanding a) + bytes_of is_inflight [pkt]"
    by (intro bytes_of_mset) simp
  moreover have "space_ok a' sp'" for sp'
    using assms(1,2,4-8) by (auto simp: ackm_inv_def space_ok_def)
  ultimately show ?thesis
    using assms(1,3) unfolding ackm_inv_def assms(5,9-11)
    by (auto simp: assms(12-14) add_ac)
qed

lemma on_tx_packet_ok:
  assumes "ackm_inv sent [] a" "\<not> discarded a (pkt_space pkt)" "ossl_quic_pn_valid (pkt_num pkt)"
    "length (th_packets (tx_history a (pkt_space pkt))) < LH_MAX_ITEMS"
    "ossl_ackm_on_tx_packet al now a pkt = (ok, a')"
  shows "ackm_inv (if ok then sent @ [pkt] else sent) [] a' \<and> rx_kept a a' \<and> grows [] a a'"
proof -
  let ?sp = "pkt_space pkt"
  obtain ok' h where h: "tx_pkt_history_add al (tx_history a ?sp) pkt = (ok', h)"
    by (cases "tx_pkt_history_add al (tx_history a ?sp) pkt")
  consider "ok = False" "a' = a"
    | "is_ack_eliciting pkt \<longrightarrow> is_inflight pkt" "\<not> ok'" "ok = False" "a' = a\<lparr>tx_history := (tx_history a)(?sp := h)\<rparr>"
    | "is_ack_eliciting pkt \<longrightarrow> is_inflight pkt" ok' "ok = True"
      "a' = (if is_inflight pkt then
         traced [Cc_data_sent (num_bytes pkt)] (ackm_set_loss_detection_timer now
           ((if is_ack_eliciting pkt then
              a\<lparr>tx_history := (tx_history a)(?sp := h),
                time_of_last_ack_eliciting_pkt := (time_of_last_ack_eliciting_pkt a)(?sp := tx_time pkt),
                ack_eliciting_bytes_in_flight := (ack_eliciting_bytes_in_flight a)
                  (?sp := ack_eliciting_bytes_in_flight a ?sp + num_bytes pkt),
                bytes_in_flight := bytes_in_flight a + num_bytes pkt\<rparr>
            else a\<lparr>tx_history := (tx_history a)(?sp := h), bytes_in_flight := bytes_in_flight a + num_bytes pkt\<rparr>)))
         else a\<lparr>tx_history := (tx_history a)(?sp := h)\<rparr>)"
    using assms(5) h by (auto simp: ossl_ackm_on_tx_packet_def Let_def split: if_splits)
  then show ?thesis
  proof cases
    case 1
    then show ?thesis
      using assms(1) by simp
  next
    case 2
    then have "tx_history_ok ?sp h" "th_packets h = th_packets (tx_history a ?sp)"
      using tx_history_add_ok [OF inv_tx_history [OF assms(1,2)] assms(3) refl _ assms(4) h] by auto
    then have "ackm_inv sent [] a'"
      unfolding 2(4) by (intro inv_frame [OF assms(1), where es = "[]"]) auto
    then show ?thesis
      using 2(3,4) by (simp add: rx_kept_fields grows_same)
  next
    case 3
    have h': "tx_history_ok ?sp h" "th_packets h = th_packets (tx_history a ?sp) @ [pkt]"
      using tx_history_add_ok [OF inv_tx_history [OF assms(1,2)] assms(3) refl 3(1) assms(4) h] 3(2) by auto
    have ack: "(if is_ack_eliciting pkt then num_bytes pkt else 0) = 0" if "\<not> is_inflight pkt"
      using that 3(1) by auto
    show ?thesis
    proof (cases "is_inflight pkt")
      case False
      have "ackm_inv (sent @ [pkt]) [] a'"
        using False 3(1,4) by (intro inv_enter [OF assms(1) h' assms(2), where es = "[]"]) auto
      then show ?thesis
        using 3(3,4) False by (simp add: rx_kept_fields grows_same)
    next
      case True
      let ?b = "if is_ack_eliciting pkt then
              a\<lparr>tx_history := (tx_history a)(?sp := h),
                time_of_last_ack_eliciting_pkt := (time_of_last_ack_eliciting_pkt a)(?sp := tx_time pkt),
                ack_eliciting_bytes_in_flight := (ack_eliciting_bytes_in_flight a)
                  (?sp := ack_eliciting_bytes_in_flight a ?sp + num_bytes pkt),
                bytes_in_flight := bytes_in_flight a + num_bytes pkt\<rparr>
            else a\<lparr>tx_history := (tx_history a)(?sp := h), bytes_in_flight := bytes_in_flight a + num_bytes pkt\<rparr>"
      have a': "a' = traced [Cc_data_sent (num_bytes pkt)] (ackm_set_loss_detection_timer now ?b)"
        using 3(4) True by simp
      obtain es where es: "ak_trace (ackm_set_loss_detection_timer now ?b) = ak_trace a @ es" "\<forall>e \<in> set es. neutral e"
        using set_timer_ok(3) [of now ?b] by auto
      have "ackm_inv (sent @ [pkt]) [] a'"
        using True es(1) neutral_trace [OF es(2)] unfolding a'
        by (intro inv_enter [OF assms(1) h' assms(2), where es = "es @ [Cc_data_sent (num_bytes pkt)]"]) simp_all
      moreover have "rx_kept a a'"
        unfolding a' by (rule rx_kept_fields) simp_all
      moreover have "grows [] (ackm_set_loss_detection_timer now ?b) a'" "grows [] a ?b"
        unfolding a' grows_def by simp_all
      then have "grows [] a a'"
        using grows_trans [OF _ grows_timer] grows_trans by blast
      ultimately show ?thesis
        using 3(3) by simp
    qed
  qed
qed

text \<open>Detection of losses, as it is done on an acknowledgement and on a timeout.\<close>

lemma lost_step_ok:
  assumes "ackm_inv sent qs a" "\<not> discarded a sp" "ackm_detect_and_remove_lost_pkts al now a sp = (lost, a1)"
    "a2 = (if lost \<noteq> [] then ackm_on_pkts_lost a1 lost False else a1)"
  shows "ackm_inv sent qs a2 \<and> rx_kept a a2 \<and> grows [] a a2"
proof -
  obtain h lt where d: "lost = filter (deemed_lost (largest_acked_pkt a sp) (lost_send_time now a)) (th_packets (tx_history a sp))"
    "a1 = a\<lparr>tx_history := (tx_history a)(sp := h), loss_time := (loss_time a)(sp := lt)\<rparr>" "tx_history_ok sp h"
    "th_packets h = filter (\<lambda>p. \<not> deemed_lost (largest_acked_pkt a sp) (lost_send_time now a) p) (th_packets (tx_history a sp))"
    using detect_lost_spec [OF inv_tx_history [OF assms(1,2)], of al now] assms(3) by auto
  have "ackm_inv sent (qs @ lost) (a\<lparr>tx_history := (tx_history a)(sp := h)\<rparr>)"
    using mset_partition unfolding d(1,4) by (intro inv_leave [OF assms(1,2) d(3)]) (simp add: d(4))
  then have i1: "ackm_inv sent (qs @ lost) a1"
    unfolding d(2) by (rule inv_frame [where es = "[]"]) (use assms(2) in auto)
  have k1: "rx_kept a a1"
    unfolding d(2) by (rule rx_kept_fields) simp_all
  let ?es = "concat (map (lost_events False) lost) @ [Cc_data_lost_finished 0]"
  have l: "ackm_on_pkts_lost a1 lost False = traced ?es (released lost a1)"
    by (rule on_pkts_lost_eq)
  show ?thesis
  proof (cases "lost = []")
    case True
    then show ?thesis
      using i1 k1 assms(4) d(2) by (simp add: grows_same)
  next
    case False
    then have a2: "a2 = traced ?es (released lost a1)"
      using assms(4) l by simp
    have "ackm_inv sent qs a2"
      unfolding a2 by (rule inv_release [OF i1]) (simp_all add: lost_trace)
    moreover have "rx_kept a1 a2"
      unfolding a2 by (rule rx_kept_fields) simp_all
    moreover have "grows [] a a2"
      unfolding grows_def using lost_no_ecn [of _ False lost]
      by (intro exI [of _ ?es]) (simp add: a2 d(2) lost_trace acked_in_events)
    ultimately show ?thesis
      using k1 rx_kept_trans by blast
  qed
qed

lemma on_timeout_ok:
  assumes "ackm_inv sent [] a" "ossl_ackm_on_timeout al n1 n2 a = (ok, a')"
  shows "ok \<and> ackm_inv sent [] a' \<and> rx_kept a a' \<and> grows [] a a'"
proof -
  have probes: "ackm_inv sent [] (b\<lparr>pto_count := c\<rparr>) \<and> rx_kept a (b\<lparr>pto_count := c\<rparr>) \<and> grows [] a (b\<lparr>pto_count := c\<rparr>)"
    if "b = a\<lparr>pending_probe := p\<rparr>" for b p c
    using inv_frame [OF assms(1), where es = "[]" and a' = "b\<lparr>pto_count := c\<rparr>"] that
    by (simp add: rx_kept_fields grows_same)
  have timer: "ackm_inv sent [] (ackm_set_loss_detection_timer n2 b) \<and>
      rx_kept a (ackm_set_loss_detection_timer n2 b) \<and> grows [] a (ackm_set_loss_detection_timer n2 b)"
    if "ackm_inv sent [] b \<and> rx_kept a b \<and> grows [] a b" for b
    using that set_timer_ok(1,2) grows_timer rx_kept_trans grows_trans by blast
  obtain t sp where t: "ackm_get_loss_time_and_space a = (t, sp)"
    by (cases "ackm_get_loss_time_and_space a")
  show ?thesis
  proof (cases "ossl_time_is_zero t")
    case False
    obtain lost a1 where d: "ackm_detect_and_remove_lost_pkts al n1 a sp = (lost, a1)"
      by (cases "ackm_detect_and_remove_lost_pkts al n1 a sp")
    have "t = loss_time a sp"
      using t by (auto simp: ackm_get_loss_time_and_space_def split: if_splits)
    then have "\<not> discarded a sp"
      using False assms(1) by (auto simp: ackm_inv_def space_ok_def ossl_time_is_zero_def ossl_time_zero_def ossl_ticks2time_def)
    then have "ackm_inv sent [] b \<and> rx_kept a b \<and> grows [] a b"
      if "b = (if lost \<noteq> [] then ackm_on_pkts_lost a1 lost False else a1)" for b
      using lost_step_ok [OF assms(1) _ d that] by blast
    then show ?thesis
      using assms(2) timer False d t by (auto simp: ossl_ackm_on_timeout_def Let_def)
  next
    case True
    define b where "b = (if ackm_ack_eliciting_bytes_in_flight a = 0 then
                       if discarded a QUIC_PN_SPACE_INITIAL then ackm_queue_probe_anti_deadlock_handshake a
                       else ackm_queue_probe_anti_deadlock_initial a
                     else ackm_queue_probe a (snd (ackm_get_pto_time_and_space n1 a)))"
    obtain p where p: "b = a\<lparr>pending_probe := p\<rparr>"
      unfolding b_def ackm_queue_probe_anti_deadlock_handshake_def ackm_queue_probe_anti_deadlock_initial_def
        ackm_queue_probe_def by metis
    have "ok" "a' = ackm_set_loss_detection_timer n2 (b\<lparr>pto_count := pto_count b + 1\<rparr>)"
      using assms(2) t True unfolding ossl_ackm_on_timeout_def b_def [symmetric] by (simp_all add: Let_def b_def)
    then show ?thesis
      using timer [OF probes [OF p]] by blast
  qed
qed

lemma on_handshake_confirmed_ok:
  assumes "ackm_inv sent [] a" "ossl_ackm_on_handshake_confirmed now a = (ok, a')"
  shows "ok \<and> ackm_inv sent [] a' \<and> rx_kept a a' \<and> grows [] a a'"
proof -
  let ?b = "a\<lparr>handshake_confirmed := True, peer_completed_addr_validation := True\<rparr>"
  have "ackm_inv sent [] ?b" "rx_kept a ?b" "grows [] a ?b"
    using inv_frame [OF assms(1), where es = "[]" and a' = ?b] by (simp_all add: rx_kept_fields grows_same)
  then show ?thesis
    using assms(2) set_timer_ok(1,2) grows_timer rx_kept_trans grows_trans
    unfolding ossl_ackm_on_handshake_confirmed_def by blast
qed

lemma pseudo_lost_ok:
  assumes "ackm_inv sent [] a" "\<not> discarded a sp" "ossl_ackm_mark_packet_pseudo_lost al a sp pn = (ok, a')"
  shows "ackm_inv sent [] a' \<and> rx_kept a a' \<and>
    (\<exists>es. ak_trace a' = ak_trace a @ es \<and> (\<forall>t. Cc_ecn t \<notin> set es))"
proof -
  obtain r h where f: "tx_pkt_history_by_pkt_num (tx_history a sp) pn = (r, h)"
    by (cases "tx_pkt_history_by_pkt_num (tx_history a sp) pn")
  have h: "tx_history_ok sp h" "th_packets h = th_packets (tx_history a sp)"
    "\<forall>p. r = Some p \<longleftrightarrow> p \<in> set (th_packets (tx_history a sp)) \<and> pkt_num p = pn"
    using by_pkt_num_ok [OF inv_tx_history [OF assms(1,2)] f] by auto
  show ?thesis
  proof (cases r)
    case None
    then have a': "a' = a\<lparr>tx_history := (tx_history a)(sp := h)\<rparr>"
      using assms(3) f by (simp add: ossl_ackm_mark_packet_pseudo_lost_def Let_def)
    have "ackm_inv sent [] a'"
      using h(1,2) unfolding a' by (intro inv_frame [OF assms(1), where es = "[]"]) auto
    then show ?thesis
      by (simp add: a' rx_kept_fields)
  next
    case (Some p)
    then have p: "p \<in> set (th_packets h)"
      using h(2,3) by simp
    obtain h1 where h1: "tx_pkt_history_remove al h (pkt_num p) = (True, h1)" "tx_history_ok sp h1"
      "th_packets h1 = filter (\<lambda>q. q \<noteq> p) (th_packets h)"
      using tx_history_remove_ok [OF h(1) p, of al] by auto
    let ?b = "a\<lparr>tx_history := (tx_history a)(sp := h1)\<rparr>"
    let ?es = "concat (map (lost_events True) [p]) @ [Cc_data_lost_finished 0]"
    have "filter (\<lambda>q. \<not> q \<noteq> p) (th_packets h) = [p]"
      using filter_single [OF tx_history_distinct [OF h(1)] p] by simp
    then have "mset (th_packets (tx_history a sp)) = mset [p] + mset (th_packets h1)"
      using mset_partition [of "th_packets h" "\<lambda>q. \<not> q \<noteq> p"] by (simp add: h1(3) h(2))
    then have "ackm_inv sent ([] @ [p]) ?b"
      by (rule inv_leave [OF assms(1,2) h1(2)])
    then have "ackm_inv sent [] (traced ?es (released [p] ?b))"
      by (rule inv_release) (simp_all add: lost_trace del: list.map concat.simps)
    moreover have a': "a' = traced ?es (released [p] ?b)"
      using assms(3) f Some h1(1) on_pkts_lost_eq [of ?b "[p]" True]
      by (simp add: ossl_ackm_mark_packet_pseudo_lost_def Let_def)
    ultimately show ?thesis
      by (simp add: rx_kept_fields lost_events_def)
  qed
qed

lemma on_discarded_ok:
  assumes "ackm_inv sent [] a" "ossl_ackm_on_pkt_space_discarded now a sp = (ok, a')"
  shows "ackm_inv sent [] a' \<and> discarded a' sp \<and> grows [] a a' \<and>
    uint_set_abs (rh_set (rx_history a' sp)) \<subseteq> uint_set_abs (rh_set (rx_history a sp)) \<and>
    (\<forall>sp'. sp' \<noteq> sp \<longrightarrow> discarded a' sp' = discarded a sp' \<and> rx_history a' sp' = rx_history a sp') \<and>
    rx_ack_desired a' = rx_ack_desired a \<and> rx_ack_flush_deadline a' = rx_ack_flush_deadline a"
proof (cases "discarded a sp")
  case True
  then show ?thesis
    using assms by (auto simp: ossl_ackm_on_pkt_space_discarded_def)
next
  case False
  let ?ps = "th_packets (tx_history a sp)"
  let ?n = "bytes_of is_inflight ?ps"
  let ?es = "map On_discarded ?ps @ (if 0 < ?n then [Cc_data_invalidated ?n] else [])"
  obtain b where a': "a' = ackm_set_loss_detection_timer now b" and b:
    "tx_history b = (tx_history a)(sp := tx_pkt_history_destroy (tx_history a sp))"
    "rx_history b = (rx_history a)(sp := rx_pkt_history_destroy (rx_history a sp))"
    "discarded b = (discarded a)(sp := True)" "loss_time b = (loss_time a)(sp := 0)"
    "ack_eliciting_bytes_in_flight b = (ack_eliciting_bytes_in_flight a)(sp := 0)"
    "bytes_in_flight b = bytes_in_flight a - ?n" "ak_trace b = ak_trace a @ ?es"
    "rx_ack_desired b = rx_ack_desired a" "rx_ack_flush_deadline b = rx_ack_flush_deadline a"
    using assms(2) False
    by (auto simp: ossl_ackm_on_pkt_space_discarded_def fold_discarded Let_def ossl_time_zero_def ossl_ticks2time_def)
  have out: "mset (outstanding a) = mset (outstanding b) + mset ?ps"
    using outstanding_upd [of a sp "tx_pkt_history_destroy (tx_history a sp)"] b(1)
    by (simp add: outstanding_def tx_pkt_history_destroy_def)
  then have "bytes_of is_inflight (outstanding a) = bytes_of is_inflight (outstanding b) + ?n"
    by (rule bytes_of_mset)
  moreover have "space_ok b sp'" for sp'
    using assms(1) by (auto simp: ackm_inv_def space_ok_def b tx_pkt_history_destroy_def rx_pkt_history_destroy_def
        rx_history_ok_def uint_set_gaps_simps)
  moreover have "cc_in_flight ?es = - ?n" "unreported_loss ?es = 0" "resolved ?es = ?ps"
    by (auto simp: discarded_trace word_gt_0)
  ultimately have "ackm_inv sent [] b"
    using assms(1) out unfolding ackm_inv_def b(1,5-7)
    by (auto simp: add_ac tx_pkt_history_destroy_def)
  moreover have "grows [] a b"
    unfolding grows_def b(7) by (intro exI [of _ ?es]) (auto simp: discarded_trace acked_in_events)
  ultimately show ?thesis
    using set_timer_ok(1) grows_trans [OF _ grows_timer] unfolding a' by (simp add: b rx_pkt_history_destroy_def)
qed

text \<open>
  A packet with the largest acknowledged number is among the packets that have just been taken out
  of the history, so the search in \<open>ackm_process_ecn\<close> finds none.
\<close>

lemma process_ecn_ok:
  assumes "ackm_inv sent qs a" "\<not> discarded a sp" "\<forall>p \<in> set (th_packets (tx_history a sp)). \<not> acks (ack_ranges ak) p"
    "ack_ranges_ok (ack_ranges ak)"
  shows "ackm_inv sent qs (ackm_process_ecn a ak sp) \<and> rx_kept a (ackm_process_ecn a ak sp) \<and>
    grows [] a (ackm_process_ecn a ak sp)"
proof -
  obtain r h where f: "tx_pkt_history_by_pkt_num (tx_history a sp) (ur_end (hd (ack_ranges ak))) = (r, h)"
    by (cases "tx_pkt_history_by_pkt_num (tx_history a sp) (ur_end (hd (ack_ranges ak)))")
  have h: "tx_history_ok sp h" "th_packets h = th_packets (tx_history a sp)"
    "\<forall>p. r = Some p \<longleftrightarrow> p \<in> set (th_packets (tx_history a sp)) \<and> pkt_num p = ur_end (hd (ack_ranges ak))"
    using by_pkt_num_ok [OF inv_tx_history [OF assms(1,2)] f] by auto
  have "r = None"
    using h(3) assms(3) largest_acked_in [OF assms(4)] by (metis option.exhaust)
  show ?thesis
  proof (cases "ecnce ak > peer_ecnce a sp")
    case False
    then show ?thesis
      using assms(1) by (simp add: ackm_process_ecn_def)
  next
    case True
    then have b: "ackm_process_ecn a ak sp =
        a\<lparr>peer_ecnce := (peer_ecnce a)(sp := ecnce ak), tx_history := (tx_history a)(sp := h)\<rparr>"
      using f \<open>r = None\<close> by (simp add: ackm_process_ecn_def Let_def)
    have "ackm_inv sent qs (ackm_process_ecn a ak sp)"
      using h(1,2) unfolding b by (intro inv_frame [OF assms(1), where es = "[]"]) auto
    then show ?thesis
      by (simp add: b rx_kept_fields grows_same)
  qed
qed
lemma update_rtt_ok:
  assumes "ackm_inv sent qs a"
  shows "ackm_inv sent qs (update_rtt_on_ack now a ak na) \<and> rx_kept a (update_rtt_on_ack now a ak na) \<and>
    grows [] a (update_rtt_on_ack now a ak na) \<and> tx_history (update_rtt_on_ack now a ak na) = tx_history a"
proof -
  let ?b = "update_rtt_on_ack now a ak na"
  have "tx_history ?b = tx_history a" "rx_history ?b = rx_history a" "discarded ?b = discarded a"
    "loss_time ?b = loss_time a" "bytes_in_flight ?b = bytes_in_flight a" "rx_ack_desired ?b = rx_ack_desired a"
    "ack_eliciting_bytes_in_flight ?b = ack_eliciting_bytes_in_flight a" "ak_trace ?b = ak_trace a"
    "rx_ack_flush_deadline ?b = rx_ack_flush_deadline a"
    by (simp_all add: update_rtt_on_ack_def Let_def)
  then show ?thesis
    using inv_frame [OF assms, where es = "[]" and a' = ?b] by (simp add: rx_kept_fields grows_same)
qed

lemma on_rx_ack_frame_ok:
  assumes "ackm_inv sent [] a" "\<not> discarded a sp" "ack_ranges_ok (ack_ranges ak)"
    "ossl_ackm_on_rx_ack_frame al n1 n2 n3 a ak sp = (ok, a')"
  shows "ok \<and> ackm_inv sent [] a' \<and> rx_kept a a' \<and>
    grows (rev (filter (acks (ack_ranges ak)) (th_packets (tx_history a sp)))) a a'"
proof -
  let ?na = "rev (filter (acks (ack_ranges ak)) (th_packets (tx_history a sp)))"
  define must where "must \<longleftrightarrow> \<not> peer_completed_addr_validation a \<and> sp = QUIC_PN_SPACE_HANDSHAKE"
  define a0 where "a0 = (let a = a\<lparr>largest_acked_pkt := (largest_acked_pkt a)(sp :=
                  if largest_acked_pkt a sp = QUIC_PN_INVALID then ur_end (hd (ack_ranges ak))
                  else ossl_quic_pn_max (largest_acked_pkt a sp) (ur_end (hd (ack_ranges ak))))\<rparr>
     in if must then a\<lparr>peer_completed_addr_validation := True\<rparr> else a)"
  have f0: "tx_history a0 = tx_history a" "rx_history a0 = rx_history a" "discarded a0 = discarded a"
    "loss_time a0 = loss_time a" "bytes_in_flight a0 = bytes_in_flight a" "rx_ack_desired a0 = rx_ack_desired a"
    "ack_eliciting_bytes_in_flight a0 = ack_eliciting_bytes_in_flight a" "ak_trace a0 = ak_trace a"
    "rx_ack_flush_deadline a0 = rx_ack_flush_deadline a"
    by (simp_all add: a0_def Let_def)
  have i0: "ackm_inv sent [] a0"
    by (rule inv_frame [OF assms(1), where es = "[]"]) (simp_all add: f0)
  have d0: "\<not> discarded a0 sp"
    using assms(2) f0(3) by simp
  obtain h where h: "ackm_detect_and_remove_newly_acked_pkts al a0 ak sp = (?na, a0\<lparr>tx_history := (tx_history a0)(sp := h)\<rparr>)"
    "tx_history_ok sp h" "th_packets h = filter (\<lambda>p. \<not> acks (ack_ranges ak) p) (th_packets (tx_history a sp))"
    using detect_acked_spec [OF inv_tx_history [OF i0 d0] assms(3), of al] f0(1) by auto
  define a1 where "a1 = a0\<lparr>tx_history := (tx_history a0)(sp := h)\<rparr>"
  have "ackm_inv sent ([] @ ?na) a1"
    unfolding a1_def using mset_partition [of "th_packets (tx_history a sp)" "acks (ack_ranges ak)"]
    by (intro inv_leave [OF i0 d0 h(2)]) (simp add: h(3) f0(1))
  then have i1: "ackm_inv sent ?na a1"
    by simp
  have k1: "rx_kept a a1" "grows [] a a1" "\<not> discarded a1 sp"
    using assms(2) f0 by (simp_all add: a1_def rx_kept_fields grows_same)
  have e: "ossl_ackm_on_rx_ack_frame al n1 n2 n3 a ak sp =
      (if ?na = [] then (True, if must then ackm_set_loss_detection_timer n3 a1 else a1)
       else
         let a = update_rtt_on_ack n1 a1 ak ?na;
             a = (if ecn_present ak then ackm_process_ecn a ak sp else a)
         in case ackm_detect_and_remove_lost_pkts al n2 a sp of
              (lost_pkts, a) \<Rightarrow>
                let a = (if lost_pkts \<noteq> [] then ackm_on_pkts_lost a lost_pkts False else a);
                    a = ackm_on_pkts_acked al a ?na;
                    a = (if peer_completed_addr_validation a then a\<lparr>pto_count := 0\<rparr> else a)
                in (True, ackm_set_loss_detection_timer n3 a))"
  proof -
    have validation: "peer_completed_addr_validation (a\<lparr>largest_acked_pkt := x\<rparr>) = peer_completed_addr_validation a" for x
      by simp
    have "ossl_ackm_on_rx_ack_frame al n1 n2 n3 a ak sp =
        (case ackm_detect_and_remove_newly_acked_pkts al a0 ak sp of
           (na_pkts, a) \<Rightarrow>
             if na_pkts = [] then
               (True, if must then ackm_set_loss_detection_timer n3 a else a)
             else
               let a = update_rtt_on_ack n1 a ak na_pkts;
                   a = (if ecn_present ak then ackm_process_ecn a ak sp else a)
               in case ackm_detect_and_remove_lost_pkts al n2 a sp of
                    (lost_pkts, a) \<Rightarrow>
                      let a = (if lost_pkts \<noteq> [] then ackm_on_pkts_lost a lost_pkts False else a);
                          a = ackm_on_pkts_acked al a na_pkts;
                          a = (if peer_completed_addr_validation a then a\<lparr>pto_count := 0\<rparr> else a)
                      in (True, ackm_set_loss_detection_timer n3 a))"
      unfolding ossl_ackm_on_rx_ack_frame_def a0_def must_def Let_def validation by (rule refl)
    then show ?thesis
      unfolding h(1) prod.case a1_def .
  qed
  show ?thesis
  proof (cases "?na = []")
    case True
    then have "ok" "a' = (if must then ackm_set_loss_detection_timer n3 a1 else a1)"
      using e assms(4) by simp_all
    moreover have "ackm_inv sent [] a1"
      using i1 True by simp
    moreover have "rx_kept a (ackm_set_loss_detection_timer n3 a1)" "grows [] a (ackm_set_loss_detection_timer n3 a1)"
      using rx_kept_trans [OF k1(1) set_timer_ok(2)] grows_trans [OF k1(2) grows_timer] by simp_all
    ultimately show ?thesis
      using k1 set_timer_ok(1) True by simp
  next
    case False
    define a2 where "a2 = update_rtt_on_ack n1 a1 ak ?na"
    define a3 where "a3 = (if ecn_present ak then ackm_process_ecn a2 ak sp else a2)"
    obtain lost a4 where d: "ackm_detect_and_remove_lost_pkts al n2 a3 sp = (lost, a4)"
      by (cases "ackm_detect_and_remove_lost_pkts al n2 a3 sp")
    define a5 where "a5 = (if lost \<noteq> [] then ackm_on_pkts_lost a4 lost False else a4)"
    define a6 where "a6 = ackm_on_pkts_acked al a5 ?na"
    define a7 where "a7 = (if peer_completed_addr_validation a6 then a6\<lparr>pto_count := 0\<rparr> else a6)"
    have ok: "ok" "a' = ackm_set_loss_detection_timer n3 a7"
      using e assms(4) False d unfolding a7_def a6_def a5_def a3_def a2_def by (simp_all add: Let_def)
    have s2: "ackm_inv sent ?na a2" "rx_kept a1 a2" "grows [] a1 a2" "tx_history a2 = tx_history a1"
      using update_rtt_ok [OF i1] by (simp_all add: a2_def)
    have "\<not> discarded a2 sp"
      using s2(2) k1(3) by (simp add: rx_kept_def)
    moreover have "\<forall>p \<in> set (th_packets (tx_history a2 sp)). \<not> acks (ack_ranges ak) p"
      using s2(4) h(3) by (auto simp: a1_def)
    ultimately have s3: "ackm_inv sent ?na a3" "rx_kept a2 a3" "grows [] a2 a3"
      using process_ecn_ok [OF s2(1) _ _ assms(3)] s2(1) by (simp_all add: a3_def)
    then have "\<not> discarded a3 sp"
      using \<open>\<not> discarded a2 sp\<close> by (simp add: rx_kept_def)
    then have s5: "ackm_inv sent ?na a5" "rx_kept a3 a5" "grows [] a3 a5"
      using lost_step_ok [OF s3(1) _ d a5_def] by simp_all
    obtain rx where rx: "a6 = (traced (concat (map acked_events ?na)) (released ?na a5))\<lparr>rx_history := rx\<rparr>"
      "\<forall>sp. rx_grows (rx_history a5 sp) (rx sp)"
      using on_pkts_acked_eq [of al a5 ?na] a6_def by auto
    have "ackm_inv sent [] (traced (concat (map acked_events ?na)) (released ?na a5))"
      by (rule inv_release) (use s5(1) in \<open>simp_all add: acked_trace\<close>)
    then have "ackm_inv sent [] a6"
      unfolding rx(1) by (rule inv_frame [where es = "[]"]) (use rx(2) in \<open>simp_all add: rx_grows_def\<close>)
    then have "ackm_inv sent [] a7"
      by (rule inv_frame [where es = "[]"]) (simp_all add: a7_def)
    moreover have "rx_kept a5 a7"
      using rx(2) by (simp add: rx_kept_def a7_def rx(1))
    moreover have "grows ?na a5 a7"
      unfolding grows_def using acked_no_ecn [of _ ?na]
      by (intro exI [of _ "concat (map acked_events ?na)"]) (simp add: a7_def rx(1) acked_in_events acked_trace)
    moreover have "grows [] a a5" "rx_kept a a5"
      using k1 s2 s3 s5 grows_trans rx_kept_trans by blast+
    ultimately have s7: "ackm_inv sent [] a7" "rx_kept a a7" "grows ?na a a7"
      using rx_kept_trans [of a a5 a7] grows_append [of "[]" a a5 ?na a7] by simp_all
    show ?thesis
      using ok(1) set_timer_ok(1) [OF s7(1)] rx_kept_trans [OF s7(2) set_timer_ok(2)]
        grows_append [OF s7(3) grows_timer, of n3] unfolding ok(2) by simp
  qed
qed

end
