(* ===== verification/Ackm_Deadline.thy ===== *)
theory Ackm_Deadline
  imports Ackm_State
begin

text \<open>
  Packets received and ACK frames sent: that recording a packet ends, keeps the invariant and makes
  an acknowledgement due, and that a due acknowledgement stays due until a frame is generated.
\<close>

section \<open>Packets received\<close>

text \<open>An acknowledgement is due at \<open>t\<close>: it is asked for already, or its deadline is not after \<open>t\<close>.\<close>

definition due :: "ackm \<Rightarrow> pn_space \<Rightarrow> OSSL_TIME \<Rightarrow> bool" where
  "due a sp t \<longleftrightarrow> t < ossl_time_infinite \<and> (rx_ack_desired a sp \<or> rx_ack_flush_deadline a sp \<le> t)"

lemma due_desired:
  assumes "due a sp t" "t \<le> now"
  shows "ossl_ackm_is_ack_desired now a sp" "ossl_ackm_get_ack_deadline a sp \<le> t"
  using assms by (auto simp: due_def ossl_ackm_is_ack_desired_def ossl_ackm_get_ack_deadline_def
      ossl_time_is_infinite_def ossl_time_zero_def ossl_ticks2time_def)

text \<open>The longest time an acknowledgement in a space is held back.\<close>

definition ack_delay_of :: "ackm \<Rightarrow> pn_space \<Rightarrow> OSSL_TIME" where
  "ack_delay_of a sp = (if sp = QUIC_PN_SPACE_APP then tx_max_ack_delay a else 0)"

text \<open>
  What the receiving half may change: its flags, counters and the trace, which grows by deadline
  updates only. A due acknowledgement stays due.
\<close>

definition rx_only :: "ackm \<Rightarrow> ackm \<Rightarrow> bool" where
  "rx_only a a' \<longleftrightarrow> tx_history a' = tx_history a \<and> discarded a' = discarded a \<and> loss_time a' = loss_time a \<and>
     bytes_in_flight a' = bytes_in_flight a \<and>
     ack_eliciting_bytes_in_flight a' = ack_eliciting_bytes_in_flight a \<and>
     (\<exists>es. ak_trace a' = ak_trace a @ es \<and> (\<forall>e \<in> set es. \<exists>d sp. e = Ack_deadline d sp))"

lemma rx_only_refl [simp]: "rx_only a a"
  by (simp add: rx_only_def)

lemma rx_only_trans: "\<lbrakk>rx_only a b; rx_only b c\<rbrakk> \<Longrightarrow> rx_only a c"
  unfolding rx_only_def by (metis (no_types, lifting) Un_iff append.assoc set_append)

lemma rx_only_inv:
  assumes "rx_only a a'" "ackm_inv sent [] a"
    "\<And>sp. rx_history_ok (rx_history a sp) \<Longrightarrow> rx_history_ok (rx_history a' sp)"
  shows "ackm_inv sent [] a'"
proof -
  obtain es where es: "ak_trace a' = ak_trace a @ es" "\<forall>e \<in> set es. \<exists>d sp. e = Ack_deadline d sp"
    using assms(1) by (auto simp: rx_only_def)
  have "\<forall>e \<in> set es. neutral e"
    using es(2) by auto
  then show ?thesis
    using assms(1) by (intro inv_frame [OF assms(2) _ _ _ _ _ assms(3) _ es(1)]) (auto simp: rx_only_def)
qed

lemma rx_only_grows:
  assumes "rx_only a a'"
  shows "grows [] a a'"
proof -
  obtain es where es: "ak_trace a' = ak_trace a @ es" "\<forall>e \<in> set es. \<exists>d sp. e = Ack_deadline d sp"
    using assms(1) by (auto simp: rx_only_def)
  from es(2) have "acked_in es = [] \<and> unreported_loss es = 0 \<and> (\<forall>t. Cc_ecn t \<notin> set es)"
    by (induction es) auto
  then show ?thesis
    using es(1) by (auto simp: grows_def)
qed

lemma set_flush_deadline_ok:
  "rx_only a (ackm_set_flush_deadline a sp d)"
  "rx_ack_desired (ackm_set_flush_deadline a sp d) = rx_ack_desired a"
  "rx_ack_flush_deadline (ackm_set_flush_deadline a sp d) = (rx_ack_flush_deadline a)(sp := d)"
  "rx_history (ackm_set_flush_deadline a sp d) = rx_history a"
  by (auto simp: rx_only_def ackm_set_flush_deadline_def Let_def traced_def)

lemma time_add_zero: "ossl_time_add t 0 = t"
  by (simp add: ossl_time_add_def safe_add_time_def word_n1_ge)

lemma rx_ack_eliciting_ok:
  fixes a :: ackm and sp t w
  defines "a' \<equiv> ackm_on_rx_ack_eliciting a t sp w"
  shows "rx_only a a'" "rx_history a' = rx_history a" "due a sp' u \<Longrightarrow> due a' sp' u"
    "ossl_time_add t (ack_delay_of a sp) < ossl_time_infinite \<Longrightarrow> due a' sp (ossl_time_add t (ack_delay_of a sp))"
proof -
  let ?b = "a\<lparr>rx_ack_eliciting_pkts_since_last_ack := (rx_ack_eliciting_pkts_since_last_ack a)
                    (sp := rx_ack_eliciting_pkts_since_last_ack a sp + 1)\<rparr>"
  let ?d = "ossl_time_add t (ack_delay_of a sp)"
  have b: "rx_only a ?b" "rx_only a (?b\<lparr>rx_ack_desired := (rx_ack_desired a)(sp := True)\<rparr>)"
    by (simp_all add: rx_only_def)
  define early where "early \<longleftrightarrow> \<not> rx_ack_generated ?b sp \<or> w \<or>
      rx_ack_eliciting_pkts_since_last_ack ?b sp \<ge> PKTS_BEFORE_ACK \<or> ackm_has_newly_missing ?b sp"
  have delay: "(if sp = QUIC_PN_SPACE_INITIAL \<or> sp = QUIC_PN_SPACE_HANDSHAKE then ossl_time_zero
      else tx_max_ack_delay ?b) = ack_delay_of a sp"
    by (cases sp) (simp_all add: ack_delay_of_def ossl_time_zero_def ossl_ticks2time_def)
  have "a' = (if rx_ack_desired a sp then a
     else if early then ackm_set_flush_deadline (?b\<lparr>rx_ack_desired := (rx_ack_desired ?b)(sp := True)\<rparr>) sp ossl_time_infinite
     else if ossl_time_is_infinite (rx_ack_flush_deadline ?b sp) then ackm_set_flush_deadline ?b sp ?d
     else ackm_set_flush_deadline ?b sp (ossl_time_min (rx_ack_flush_deadline ?b sp) ?d))"
    unfolding a'_def ackm_on_rx_ack_eliciting_def Let_def early_def ackm_queue_ack_def delay ..
  then consider "rx_ack_desired a sp" "a' = a"
    | "a' = ackm_set_flush_deadline (?b\<lparr>rx_ack_desired := (rx_ack_desired a)(sp := True)\<rparr>) sp ossl_time_infinite"
    | "a' = ackm_set_flush_deadline ?b sp
         (if ossl_time_is_infinite (rx_ack_flush_deadline a sp) then ?d else ossl_time_min (rx_ack_flush_deadline a sp) ?d)"
    by (cases "rx_ack_desired a sp"; cases early; cases "ossl_time_is_infinite (rx_ack_flush_deadline a sp)") simp_all
  note c = this
  show "rx_only a a'"
    using c rx_only_trans [OF b(1) set_flush_deadline_ok(1)] rx_only_trans [OF b(2) set_flush_deadline_ok(1)]
    by cases (simp_all only: rx_only_refl)
  show "rx_history a' = rx_history a"
    using c by cases (simp_all add: set_flush_deadline_ok)
  have low: "(if ossl_time_is_infinite (rx_ack_flush_deadline a sp) then ?d else ossl_time_min (rx_ack_flush_deadline a sp) ?d)
      \<le> rx_ack_flush_deadline a sp"
    "(if ossl_time_is_infinite (rx_ack_flush_deadline a sp) then ?d else ossl_time_min (rx_ack_flush_deadline a sp) ?d) \<le> ?d"
    by (auto simp: ossl_time_is_infinite_def ossl_time_infinite_def ossl_ticks2time_def ossl_time_min_def word_n1_ge)
  show "due a' sp' u" if "due a sp' u"
    using c that low(1) by cases (auto simp: due_def set_flush_deadline_ok intro: order_trans)
  show "due a' sp ?d" if "?d < ossl_time_infinite"
    using c that low(2) by cases (auto simp: due_def set_flush_deadline_ok)
qed

lemma count_ecn_ok:
  "rx_only a (count_ecn a sp e)" "rx_history (count_ecn a sp e) = rx_history a"
  "due (count_ecn a sp e) sp' u = due a sp' u"
  by (cases e; simp add: count_ecn_def rx_only_def due_def)+

text \<open>
  \<open>ossl_ackm_on_rx_packet\<close> returns, adds the packet number to those that are not processed again
  unless memory runs out, and makes an acknowledgement due.
\<close>

lemma on_rx_packet_ok:
  assumes "ackm_inv sent [] a" "ossl_quic_pn_valid (rp_pkt_num pkt)"
  shows "\<exists>ok a'. ossl_ackm_on_rx_packet al a pkt = Some (ok, a') \<and> ackm_inv sent [] a' \<and> rx_only a a' \<and>
    (\<forall>sp. rx_seen (rx_history a sp) \<subseteq> rx_seen (rx_history a' sp)) \<and>
    (if ok then rp_pkt_num pkt \<in> rx_seen (rx_history a' (rp_pkt_space pkt)) else rx_history a' = rx_history a) \<and>
    (\<forall>sp. uint_set_abs (rh_set (rx_history a' sp)) \<subseteq>
       uint_set_abs (rh_set (rx_history a sp)) \<union> (if ok \<and> sp = rp_pkt_space pkt then {rp_pkt_num pkt} else {})) \<and>
    (al sizeof_uint_set_item \<longrightarrow> ok) \<and>
    (\<forall>sp u. due a sp u \<longrightarrow> due a' sp u) \<and>
    (ok \<and> rp_is_ack_eliciting pkt \<and> ossl_ackm_is_rx_pn_processable a (rp_pkt_num pkt) (rp_pkt_space pkt) \<longrightarrow>
       (let t = ossl_time_add (rp_time pkt) (ack_delay_of a (rp_pkt_space pkt))
        in t < ossl_time_infinite \<longrightarrow> due a' (rp_pkt_space pkt) t))"
proof -
  let ?sp = "rp_pkt_space pkt" and ?pn = "rp_pkt_num pkt"
  have hok: "rx_history_ok (rx_history a sp)" for sp
    using assms(1) by (simp add: ackm_inv_def space_ok_def)
  show ?thesis
  proof (cases "ossl_ackm_is_rx_pn_processable a ?pn ?sp")
    case False
    then show ?thesis
      using assms(1) processable_iff [OF hok]
      by (intro exI [of _ True] exI [of _ a]) (simp add: ossl_ackm_on_rx_packet_def)
  next
    case True
    define b where "b = (if ?pn > rx_largest_pn a ?sp then
                      a\<lparr>rx_largest_pn := (rx_largest_pn a)(?sp := ?pn),
                        rx_largest_time := (rx_largest_time a)(?sp := rp_time pkt)\<rparr> else a)"
    have b: "rx_only a b" "rx_history b = rx_history a" "due b sp u = due a sp u" "ack_delay_of b sp = ack_delay_of a sp" for sp u
      by (simp_all add: b_def rx_only_def due_def ack_delay_of_def)
    have "?pn \<notin> rx_seen (rx_history a ?sp)"
      using True processable_iff [OF hok] by simp
    then obtain ok h where h: "rx_pkt_history_add_pn al (rx_history a ?sp) ?pn = Some (ok, h)" "rx_history_ok h"
      "rx_seen (rx_history a ?sp) \<subseteq> rx_seen h" "al sizeof_uint_set_item \<longrightarrow> ok"
      "if ok then ?pn \<in> rx_seen h else h = rx_history a ?sp"
      "uint_set_abs (rh_set h) \<subseteq> insert ?pn (uint_set_abs (rh_set (rx_history a ?sp)))"
      using add_pn_ok [OF hok assms(2), of ?sp al] by blast
    define c where "c = b\<lparr>rx_history := (rx_history b)(?sp := h)\<rparr>"
    have c: "rx_only a c" "rx_history c = (rx_history a)(?sp := h)" "due c sp u = due a sp u"
      "ack_delay_of c sp = ack_delay_of a sp" for sp u
      by (simp_all add: c_def b_def rx_only_def due_def ack_delay_of_def)
    define w where "w = ackm_is_missing b ?sp ?pn"
    define d where "d = (if rp_is_ack_eliciting pkt then ackm_on_rx_ack_eliciting c (rp_time pkt) ?sp w else c)"
    have d: "rx_only a d" "rx_history d = (rx_history a)(?sp := h)" "due a sp u \<Longrightarrow> due d sp u" for sp u
      using c(1-3) rx_only_trans [OF c(1) rx_ack_eliciting_ok(1)] rx_ack_eliciting_ok(2,3) [of c]
      by (simp_all add: d_def)
    have soon: "due d ?sp (ossl_time_add (rp_time pkt) (ack_delay_of a ?sp))"
      if "rp_is_ack_eliciting pkt" "ossl_time_add (rp_time pkt) (ack_delay_of a ?sp) < ossl_time_infinite"
      using rx_ack_eliciting_ok(4) [of "rp_time pkt" c ?sp w] that by (simp add: d_def c(4))
    have e: "ossl_ackm_on_rx_packet al a pkt = Some (if ok then (True, count_ecn d ?sp (rp_ecn pkt)) else (False, c))"
      using True h(1) b(2)
      by (simp add: ossl_ackm_on_rx_packet_def Let_def d_def c_def w_def b_def)
    show ?thesis
    proof (cases ok)
      case no: False
      have "ackm_inv sent [] c"
        using h(2) c(2) by (intro rx_only_inv [OF c(1) assms(1)]) simp
      then show ?thesis
        using e no c h(3-5) by (auto simp: fun_upd_idem)
    next
      case yes: True
      let ?a = "count_ecn d ?sp (rp_ecn pkt)"
      have r: "rx_only a ?a" "rx_history ?a = (rx_history a)(?sp := h)"
        using rx_only_trans [OF d(1) count_ecn_ok(1)] d(2) by (simp_all add: count_ecn_ok)
      moreover have "ackm_inv sent [] ?a"
        using h(2) r(2) by (intro rx_only_inv [OF r(1) assms(1)]) simp
      ultimately show ?thesis
        using e yes h(3,5,6) d(3) soon by (auto simp: count_ecn_ok Let_def)
    qed
  qed
qed

lemma get_ack_frame_ok:
  assumes "ackm_inv sent [] a" "ossl_ackm_get_ack_frame now a sp = (ak, a')"
  shows "ackm_inv sent [] a' \<and> rx_only a a' \<and> rx_history a' = rx_history a \<and>
    (\<forall>sp' u. sp' \<noteq> sp \<longrightarrow> due a' sp' u = due a sp' u)"
proof -
  let ?b = "a\<lparr>ack := (ack a)(sp := ak),
                rx_ack_eliciting_pkts_since_last_ack := (rx_ack_eliciting_pkts_since_last_ack a)(sp := 0),
                rx_ack_generated := (rx_ack_generated a)(sp := True),
                rx_ack_desired := (rx_ack_desired a)(sp := False)\<rparr>"
  have a': "a' = ackm_set_flush_deadline ?b sp ossl_time_infinite"
    using assms(2) by (auto simp: ossl_ackm_get_ack_frame_def Let_def)
  have "rx_only a ?b"
    by (simp add: rx_only_def)
  then have "rx_only a a'" "rx_history a' = rx_history a"
    unfolding a' using rx_only_trans [OF _ set_flush_deadline_ok(1)] by (auto simp: set_flush_deadline_ok)
  then show ?thesis
    using rx_only_inv [OF _ assms(1)] unfolding a' by (auto simp: due_def set_flush_deadline_ok)
qed

end
