(* ===== verification/Ackm_Run.thy ===== *)
theory Ackm_Run
  imports Ackm_Deadline
begin

text \<open>
  The ACK manager as a state machine: the step relation of the calls that the connection makes, its
  runs, and the properties of every run from a new ACK manager.
\<close>

section \<open>Runs\<close>

text \<open>
  The calls the rest of the connection makes. The allocator and the readings of the clock are left
  open in every step.
\<close>

datatype ackm_op =
    Tx tx_pkt
  | Rx_ack ack_frame pn_space
  | Discard pn_space
  | Confirm
  | Timeout
  | Pseudo_lost pn_space QUIC_PN
  | Rx rx_pkt
  | Get_ack pn_space
  | Configure

text \<open>
  One step with the value that the call returns. The guards are what the callers keep to: a space
  that was discarded is not used any more (the accessors of the histories assert it), packet
  numbers are below \<open>2 ^ 62\<close>, an ACK frame has descending ranges, and a history does not outgrow the
  hash table.
\<close>

inductive ackm_step :: "ackm \<Rightarrow> ackm_op \<Rightarrow> bool \<Rightarrow> ackm \<Rightarrow> bool" where
  step_tx: "\<lbrakk>\<not> discarded a (pkt_space pkt); ossl_quic_pn_valid (pkt_num pkt);
     length (th_packets (tx_history a (pkt_space pkt))) < LH_MAX_ITEMS;
     ossl_ackm_on_tx_packet al now a pkt = (ok, a')\<rbrakk> \<Longrightarrow> ackm_step a (Tx pkt) ok a'"
| step_rx_ack: "\<lbrakk>\<not> discarded a sp; ack_ranges_ok (ack_ranges ak);
     ossl_ackm_on_rx_ack_frame al n1 n2 n3 a ak sp = (ok, a')\<rbrakk> \<Longrightarrow> ackm_step a (Rx_ack ak sp) ok a'"
| step_discard: "ossl_ackm_on_pkt_space_discarded now a sp = (ok, a') \<Longrightarrow> ackm_step a (Discard sp) ok a'"
| step_confirm: "ossl_ackm_on_handshake_confirmed now a = (ok, a') \<Longrightarrow> ackm_step a Confirm ok a'"
| step_timeout: "ossl_ackm_on_timeout al n1 n2 a = (ok, a') \<Longrightarrow> ackm_step a Timeout ok a'"
| step_pseudo_lost: "\<lbrakk>\<not> discarded a sp; ossl_ackm_mark_packet_pseudo_lost al a sp pn = (ok, a')\<rbrakk> \<Longrightarrow>
     ackm_step a (Pseudo_lost sp pn) ok a'"
| step_rx: "\<lbrakk>\<not> discarded a (rp_pkt_space pkt); ossl_quic_pn_valid (rp_pkt_num pkt);
     ossl_ackm_on_rx_packet al a pkt = Some (ok, a')\<rbrakk> \<Longrightarrow> ackm_step a (Rx pkt) ok a'"
| step_get_ack: "\<lbrakk>\<not> discarded a sp; ossl_ackm_get_ack_frame now a sp = (ak, a')\<rbrakk> \<Longrightarrow> ackm_step a (Get_ack sp) True a'"
| step_rx_delay: "ackm_step a Configure True (ossl_ackm_set_rx_max_ack_delay a d)"
| step_tx_delay: "ackm_step a Configure True (ossl_ackm_set_tx_max_ack_delay a d)"
| step_loss_callback: "ackm_step a Configure True (ossl_ackm_set_loss_detection_deadline_callback a b)"
| step_ack_callback: "ackm_step a Configure True (ossl_ackm_set_ack_deadline_callback a b)"
| step_probes: "ackm_step a Configure True (a\<lparr>pending_probe := p\<rparr>)"

inductive ackm_run :: "ackm \<Rightarrow> (ackm_op \<times> bool) list \<Rightarrow> ackm \<Rightarrow> bool" where
  run_start: "ackm_run a [] a"
| run_step: "\<lbrakk>ackm_run a ops b; ackm_step b op ok c\<rbrakk> \<Longrightarrow> ackm_run a (ops @ [(op, ok)]) c"

inductive_cases ackm_rx_step: "ackm_step a (Rx pkt) ok a'"
inductive_cases ackm_rx_ack_step: "ackm_step a (Rx_ack ak sp) ok a'"

fun sent_in :: "(ackm_op \<times> bool) list \<Rightarrow> tx_pkt list" where
  "sent_in [] = []"
| "sent_in ((Tx p, True) # ops) = p # sent_in ops"
| "sent_in (_ # ops) = sent_in ops"

lemma sent_in_append [simp]: "sent_in (xs @ ys) = sent_in xs @ sent_in ys"
  by (induction xs rule: sent_in.induct) simp_all

lemma new_inv:
  assumes "ossl_ackm_new al st server = Some a"
  shows "ackm_inv [] [] a \<and> ak_trace a = []"
proof -
  obtain h0 h1 h2 where h: "tx_pkt_history_init al = Some h0" "tx_pkt_history_init al = Some h1" "tx_pkt_history_init al = Some h2"
    and a: "tx_history a = (\<lambda>sp. case sp of QUIC_PN_SPACE_INITIAL \<Rightarrow> h0 | QUIC_PN_SPACE_HANDSHAKE \<Rightarrow> h1 | QUIC_PN_SPACE_APP \<Rightarrow> h2)"
    "rx_history a = (\<lambda>_. rx_pkt_history_init)" "discarded a = (\<lambda>_. False)" "ak_trace a = []"
    "bytes_in_flight a = 0" "ack_eliciting_bytes_in_flight a = (\<lambda>_. 0)"
    using assms by (auto simp: ossl_ackm_new_def split: if_splits option.splits)
  have e: "tx_history_ok sp (tx_history a sp)" "th_packets (tx_history a sp) = []" for sp
    using tx_history_init_ok [OF h(1)] h by (auto simp: a(1) split: pn_space.split)
  then have "space_ok a sp" for sp
    by (simp add: space_ok_def a rx_history_ok_def rx_pkt_history_init_def ossl_uint_set_init_def uint_set_gaps_simps)
  then show ?thesis
    using e(2) by (simp add: ackm_inv_def a(2-) outstanding_def)
qed

text \<open>What every step keeps, and what it adds.\<close>

lemma config_inv:
  assumes "ackm_inv sent [] a" "tx_history a' = tx_history a" "rx_history a' = rx_history a" "discarded a' = discarded a"
    "loss_time a' = loss_time a" "bytes_in_flight a' = bytes_in_flight a" "ak_trace a' = ak_trace a"
    "ack_eliciting_bytes_in_flight a' = ack_eliciting_bytes_in_flight a"
    "rx_ack_desired a' = rx_ack_desired a" "rx_ack_flush_deadline a' = rx_ack_flush_deadline a"
  shows "ackm_inv sent [] a' \<and> rx_kept a a' \<and> grows [] a a'"
  using inv_frame [OF assms(1), where es = "[]" and a' = a'] assms(2-) by (simp add: rx_kept_fields grows_same)

lemmas config_defs = ossl_ackm_set_rx_max_ack_delay_def ossl_ackm_set_tx_max_ack_delay_def
  ossl_ackm_set_loss_detection_deadline_callback_def ossl_ackm_set_ack_deadline_callback_def

lemma step_inv:
  assumes "ackm_step a op ok a'" "ackm_inv sent [] a"
  shows "ackm_inv (sent @ sent_in [(op, ok)]) [] a'"
  using assms
proof cases
  case (step_tx pkt al now)
  then show ?thesis
    using on_tx_packet_ok [OF assms(2) step_tx(2-5)] by (cases ok) simp_all
next
  case (step_rx_ack sp ak al n1 n2 n3)
  then show ?thesis
    using on_rx_ack_frame_ok [OF assms(2)] by auto
next
  case (step_discard now sp)
  then show ?thesis
    using on_discarded_ok [OF assms(2)] by auto
next
  case (step_confirm now)
  then show ?thesis
    using on_handshake_confirmed_ok [OF assms(2)] by auto
next
  case (step_timeout al n1 n2)
  then show ?thesis
    using on_timeout_ok [OF assms(2)] by auto
next
  case (step_pseudo_lost sp al pn)
  then show ?thesis
    using pseudo_lost_ok [OF assms(2)] by auto
next
  case (step_rx pkt al)
  then show ?thesis
    using on_rx_packet_ok [OF assms(2), of pkt al] by auto
next
  case (step_get_ack sp now ak)
  then show ?thesis
    using get_ack_frame_ok [OF assms(2)] by auto
qed (use config_inv [OF assms(2)] in \<open>simp_all add: config_defs\<close>)

text \<open>The trace: only a pseudo-loss is kept from the congestion controller, and no step reports an ECN mark.\<close>

lemma step_trace:
  assumes "ackm_step a op ok a'" "ackm_inv sent [] a"
  shows "\<exists>es. ak_trace a' = ak_trace a @ es \<and> (\<forall>t. Cc_ecn t \<notin> set es) \<and>
    (unreported_loss es = 0 \<or> (\<exists>sp pn. op = Pseudo_lost sp pn))"
proof -
  have g: "?thesis" if "grows ps a a'" for ps
    using that by (auto simp: grows_def)
  show ?thesis
    using assms
  proof cases
    case (step_tx pkt al now)
    then show ?thesis
      using on_tx_packet_ok [OF assms(2)] g by blast
  next
    case (step_rx_ack sp ak al n1 n2 n3)
    then show ?thesis
      using on_rx_ack_frame_ok [OF assms(2)] g by blast
  next
    case (step_discard now sp)
    then show ?thesis
      using on_discarded_ok [OF assms(2)] g by blast
  next
    case (step_confirm now)
    then show ?thesis
      using on_handshake_confirmed_ok [OF assms(2)] g by blast
  next
    case (step_timeout al n1 n2)
    then show ?thesis
      using on_timeout_ok [OF assms(2)] g by blast
  next
    case (step_pseudo_lost sp al pn)
    then show ?thesis
      using pseudo_lost_ok [OF assms(2)] by blast
  next
    case (step_rx pkt al)
    then show ?thesis
      using on_rx_packet_ok [OF assms(2), of pkt al] rx_only_grows g by fastforce
  next
    case (step_get_ack sp now ak)
    then show ?thesis
      using get_ack_frame_ok [OF assms(2)] rx_only_grows g by blast
  qed (use g [OF grows_same] in \<open>simp_all add: config_defs\<close>)
qed

text \<open>The receiving side: what was seen stays seen, and what is due stays due until a frame is taken.\<close>

lemma step_seen:
  assumes "ackm_step a op ok a'" "ackm_inv sent [] a" "\<not> discarded a' sp"
  shows "\<not> discarded a sp \<and> rx_seen (rx_history a sp) \<subseteq> rx_seen (rx_history a' sp)"
proof -
  have k: "?thesis" if "rx_kept a a'"
    using that assms(2,3) by (auto simp: rx_kept_def rx_grows_def ackm_inv_def space_ok_def)
  show ?thesis
    using assms(1)
  proof cases
    case (step_tx pkt al now)
    then show ?thesis
      using on_tx_packet_ok [OF assms(2)] k by blast
  next
    case (step_rx_ack sp ak al n1 n2 n3)
    then show ?thesis
      using on_rx_ack_frame_ok [OF assms(2)] k by blast
  next
    case (step_discard now sp')
    then show ?thesis
      using on_discarded_ok [OF assms(2)] assms(3) by (cases "sp' = sp") auto
  next
    case (step_confirm now)
    then show ?thesis
      using on_handshake_confirmed_ok [OF assms(2)] k by blast
  next
    case (step_timeout al n1 n2)
    then show ?thesis
      using on_timeout_ok [OF assms(2)] k by blast
  next
    case (step_pseudo_lost sp al pn)
    then show ?thesis
      using pseudo_lost_ok [OF assms(2)] k by blast
  next
    case (step_rx pkt al)
    then show ?thesis
      using on_rx_packet_ok [OF assms(2), of pkt al] assms(3) by (auto simp: rx_only_def)
  next
    case (step_get_ack sp now ak)
    then show ?thesis
      using get_ack_frame_ok [OF assms(2)] assms(3) by (auto simp: rx_only_def)
  qed (use k [OF rx_kept_fields] in \<open>simp_all add: config_defs\<close>)
qed

lemma step_due:
  assumes "ackm_step a op ok a'" "ackm_inv sent [] a" "op \<noteq> Get_ack sp" "due a sp t"
  shows "due a' sp t"
proof -
  have k: "due a' sp t" if "rx_ack_desired a' = rx_ack_desired a" "rx_ack_flush_deadline a' = rx_ack_flush_deadline a"
    using that assms(4) by (simp add: due_def)
  show ?thesis
    using assms(1)
  proof cases
    case (step_tx pkt al now)
    then show ?thesis
      using on_tx_packet_ok [OF assms(2)] k by (auto simp: rx_kept_def)
  next
    case (step_rx_ack sp ak al n1 n2 n3)
    then show ?thesis
      using on_rx_ack_frame_ok [OF assms(2)] k by (auto simp: rx_kept_def)
  next
    case (step_discard now sp')
    then show ?thesis
      using on_discarded_ok [OF assms(2)] k by auto
  next
    case (step_confirm now)
    then show ?thesis
      using on_handshake_confirmed_ok [OF assms(2)] k by (auto simp: rx_kept_def)
  next
    case (step_timeout al n1 n2)
    then show ?thesis
      using on_timeout_ok [OF assms(2)] k by (auto simp: rx_kept_def)
  next
    case (step_pseudo_lost sp al pn)
    then show ?thesis
      using pseudo_lost_ok [OF assms(2)] k by (auto simp: rx_kept_def)
  next
    case (step_rx pkt al)
    then show ?thesis
      using on_rx_packet_ok [OF assms(2), of pkt al] assms(4) by auto
  next
    case (step_get_ack sp' now ak)
    then show ?thesis
      using get_ack_frame_ok [OF assms(2)] assms(3,4) by auto
  qed (use k in \<open>simp_all add: config_defs\<close>)
qed

lemma run_inv:
  assumes "ackm_run a ops b" "ackm_inv sent [] a"
  shows "ackm_inv (sent @ sent_in ops) [] b"
  using assms
proof induction
  case (run_step a ops b op ok c)
  then show ?case
    using step_inv [OF run_step.hyps(2)] by fastforce
qed simp

lemma run_trace:
  assumes "ackm_run a ops b" "ackm_inv sent [] a"
  shows "\<exists>es. ak_trace b = ak_trace a @ es \<and> (\<forall>t. Cc_ecn t \<notin> set es) \<and>
    ((\<forall>sp pn ok. (Pseudo_lost sp pn, ok) \<notin> set ops) \<longrightarrow> unreported_loss es = 0)"
  using assms
proof induction
  case (run_step a ops b op ok c)
  obtain es where es: "ak_trace b = ak_trace a @ es" "\<forall>t. Cc_ecn t \<notin> set es"
    "(\<forall>sp pn ok. (Pseudo_lost sp pn, ok) \<notin> set ops) \<longrightarrow> unreported_loss es = 0"
    using run_step.IH [OF run_step.prems] by blast
  obtain ds where ds: "ak_trace c = ak_trace b @ ds" "\<forall>t. Cc_ecn t \<notin> set ds"
    "unreported_loss ds = 0 \<or> (\<exists>sp pn. op = Pseudo_lost sp pn)"
    using step_trace [OF run_step.hyps(2) run_inv [OF run_step.hyps(1) run_step.prems]] by blast
  have "unreported_loss ds = 0" if "\<forall>sp pn ok'. (Pseudo_lost sp pn, ok') \<notin> set (ops @ [(op, ok)])"
  proof -
    have "(op, ok) \<in> set (ops @ [(op, ok)])"
      by simp
    then show ?thesis
      using that ds(3) by blast
  qed
  then show ?case
    using es ds(1,2) by (intro exI [of _ "es @ ds"]) simp
qed simp

lemma run_due:
  assumes "ackm_run a ops b" "ackm_inv sent [] a" "\<forall>ok. (Get_ack sp, ok) \<notin> set ops" "due a sp t"
  shows "due b sp t"
  using assms
proof induction
  case (run_step a ops b op ok c)
  then have "due b sp t" "op \<noteq> Get_ack sp"
    by auto
  then show ?case
    using step_due [OF run_step.hyps(2) run_inv [OF run_step.hyps(1) run_step.prems(1)]] by blast
qed

text \<open>The packet numbers that were recorded in a space.\<close>

definition received :: "(ackm_op \<times> bool) list \<Rightarrow> pn_space \<Rightarrow> QUIC_PN set" where
  "received ops sp = {rp_pkt_num pkt | pkt. (Rx pkt, True) \<in> set ops \<and> rp_pkt_space pkt = sp}"

lemma received_simps [simp]:
  "received [] sp = {}" "received (xs @ ys) sp = received xs sp \<union> received ys sp"
  by (auto simp: received_def)

lemma received_one:
  "received [(op, ok)] sp = (case op of Rx pkt \<Rightarrow> if ok \<and> sp = rp_pkt_space pkt then {rp_pkt_num pkt} else {} | _ \<Rightarrow> {})"
  by (auto simp: received_def split: ackm_op.splits)

lemma step_received:
  assumes "ackm_step a op ok a'" "ackm_inv sent [] a"
  shows "uint_set_abs (rh_set (rx_history a' sp)) \<subseteq> uint_set_abs (rh_set (rx_history a sp)) \<union> received [(op, ok)] sp"
    "\<not> discarded a' sp \<Longrightarrow> received [(op, ok)] sp \<subseteq> rx_seen (rx_history a' sp)"
proof -
  have k: "uint_set_abs (rh_set (rx_history a' sp)) \<subseteq> uint_set_abs (rh_set (rx_history a sp)) \<union> X"
    if "rx_kept a a'" for X
    using that assms(2) by (auto simp: rx_kept_def rx_grows_def ackm_inv_def space_ok_def)
  show "uint_set_abs (rh_set (rx_history a' sp)) \<subseteq> uint_set_abs (rh_set (rx_history a sp)) \<union> received [(op, ok)] sp"
    using assms(1)
  proof cases
    case (step_tx pkt al now)
    then show ?thesis
      using on_tx_packet_ok [OF assms(2)] k by blast
  next
    case (step_rx_ack sp ak al n1 n2 n3)
    then show ?thesis
      using on_rx_ack_frame_ok [OF assms(2)] k by blast
  next
    case (step_discard now sp')
    then show ?thesis
      using on_discarded_ok [OF assms(2) step_discard(2)] by (cases "sp' = sp") auto
  next
    case (step_confirm now)
    then show ?thesis
      using on_handshake_confirmed_ok [OF assms(2)] k by blast
  next
    case (step_timeout al n1 n2)
    then show ?thesis
      using on_timeout_ok [OF assms(2)] k by blast
  next
    case (step_pseudo_lost sp al pn)
    then show ?thesis
      using pseudo_lost_ok [OF assms(2)] k by blast
  next
    case (step_rx pkt al)
    then show ?thesis
      using on_rx_packet_ok [OF assms(2) step_rx(3), of al] by (auto simp: received_one)
  next
    case (step_get_ack sp now ak)
    then show ?thesis
      using get_ack_frame_ok [OF assms(2)] by auto
  qed (use k [OF rx_kept_fields] in \<open>simp_all add: config_defs\<close>)
  show "received [(op, ok)] sp \<subseteq> rx_seen (rx_history a' sp)"
  proof (cases "\<exists>pkt. op = Rx pkt")
    case True
    then obtain pkt where op: "op = Rx pkt"
      by blast
    then obtain al where r: "ossl_quic_pn_valid (rp_pkt_num pkt)" "ossl_ackm_on_rx_packet al a pkt = Some (ok, a')"
      using assms(1) by (auto elim: ackm_rx_step)
    then show ?thesis
      using on_rx_packet_ok [OF assms(2) r(1), of al] op by (auto simp: received_one)
  next
    case False
    then have "received [(op, ok)] sp = {}"
      by (cases op) (simp_all add: received_one)
    then show ?thesis
      by simp
  qed
qed

lemma run_recorded:
  assumes "ackm_run a ops b" "ackm_inv sent [] a"
  shows "uint_set_abs (rh_set (rx_history b sp)) \<subseteq> uint_set_abs (rh_set (rx_history a sp)) \<union> received ops sp"
  using assms
proof induction
  case (run_step a ops b op ok c)
  then show ?case
    using step_received(1) [OF run_step.hyps(2) run_inv [OF run_step.hyps(1) run_step.prems], of sp] by auto
qed simp

lemma run_seen:
  assumes "ackm_run a ops b" "ackm_inv sent [] a" "\<not> discarded b sp"
  shows "received ops sp \<subseteq> rx_seen (rx_history b sp)"
  using assms
proof induction
  case (run_step a ops b op ok c)
  note i = run_inv [OF run_step.hyps(1) run_step.prems(1)]
  show ?case
    using run_step.IH [OF run_step.prems(1)] step_seen [OF run_step.hyps(2) i run_step.prems(2)]
      step_received(2) [OF run_step.hyps(2) i run_step.prems(2)] by auto
qed simp

section \<open>What the detection computes\<close>

lemma ack_contains_iff: "ack_contains ak (pkt_num p) \<longleftrightarrow> acks (ack_ranges ak) p"
  by (auto simp: ack_contains_def range_contains_def list_ex_iff uint_set_abs_def)

lemma ack_contains_abs: "ack_contains ak pn \<longleftrightarrow> pn \<in> uint_set_abs (ack_ranges ak)"
  by (auto simp: ack_contains_def range_contains_def list_ex_iff uint_set_abs_def)

lemma loss_delay_value:
  "unat (ackm_loss_delay a) =
     max (min (9 * max (unat (latest_rtt (statm a))) (unat (smoothed_rtt (statm a)))) TMAX div 8) 1000000"
proof -
  have "unat (ossl_time_max x y) = max (unat x) (unat y)" for x y
    by (auto simp: ossl_time_max_def word_less_nat_alt)
  moreover have "unat (ossl_ticks2time K_GRANULARITY) = 1000000"
    by (simp add: ossl_ticks2time_def K_GRANULARITY_def OSSL_TIME_MS_def OSSL_TIME_SECOND_def)
  ultimately show ?thesis
    by (simp add: ackm_loss_delay_def Let_def unat_time_divide unat_time_multiply K_TIME_THRESHOLD_NUM_def
        K_TIME_THRESHOLD_DEN_def mult.commute)
qed

lemma Min_insert_min:
  fixes x y :: "'a :: linorder"
  assumes "finite A"
  shows "Min (insert (min x y) A) = min x (Min (insert y A))"
  using assms by (cases "A = {}") (simp_all add: min.assoc)

text \<open>The time threshold that is set next: the earliest of the packets that are not lost yet.\<close>

lemma fold_earlier:
  assumes "ld \<noteq> 0"
  shows "fold (earlier_loss ld) ps lt =
    (if lt = 0 then if ps = [] then 0 else Min ((\<lambda>p. ossl_time_add (tx_time p) ld) ` set ps)
     else Min (insert lt ((\<lambda>p. ossl_time_add (tx_time p) ld) ` set ps)))"
proof (induction ps arbitrary: lt)
  case (Cons p ps)
  let ?t = "ossl_time_add (tx_time p) ld"
  have "unat ld \<noteq> 0"
    using assms by (simp add: unat_eq_zero)
  then have t: "?t \<noteq> 0"
    using unat_time_add [of "tx_time p" ld] by auto
  have "earlier_loss ld p lt = (if lt = 0 then ?t else min lt ?t)"
    by (auto simp: earlier_loss_def ossl_time_is_zero_def ossl_time_zero_def ossl_ticks2time_def ossl_time_min_def min_def)
  moreover have "min lt ?t \<noteq> 0" if "lt \<noteq> 0"
    using t that by (simp add: min_def)
  ultimately show ?case
    using t Cons.IH [of "earlier_loss ld p lt"]
      Min_insert_min [of "(\<lambda>p. ossl_time_add (tx_time p) ld) ` set ps" lt ?t]
    by auto
qed simp

end
