(* ===== verification/Ackm_Example.thy ===== *)
theory Ackm_Example
  imports Ackm_Run
begin

text \<open>
  A concrete connection, evaluated step by step: three packets are sent and a frame is received for
  them; a packet is received and acknowledged, and a second one is received. The states are the
  inputs of the witnesses of the properties.
\<close>

definition demo_tx :: "QUIC_PN \<Rightarrow> tx_pkt" where
  "demo_tx pn = \<lparr>pkt_num = pn, num_bytes = 1200, tx_time = 100, largest_acked = QUIC_PN_INVALID,
     pkt_space = QUIC_PN_SPACE_APP, is_inflight = True, is_ack_eliciting = True, cb_arg = 0\<rparr>"

definition demo_ack :: ack_frame where
  "demo_ack = \<lparr>ack_ranges = [\<lparr>ur_start = 4, ur_end = 4\<rparr>, \<lparr>ur_start = 0, ur_end = 0\<rparr>], delay_time = 0,
     ect0 = 0, ect1 = 0, ecnce = 1, ecn_present = True\<rparr>"

definition demo_rx :: "QUIC_PN \<Rightarrow> rx_pkt" where
  "demo_rx pn = \<lparr>rp_pkt_num = pn, rp_time = 100, rp_pkt_space = QUIC_PN_SPACE_APP, rp_is_ack_eliciting = True,
     rp_ecn = OSSL_ACKM_ECN_NONE\<rparr>"

definition demo_start :: ackm where
  "demo_start = the (ossl_ackm_new (\<lambda>_. True) ossl_statm_init False)"

definition demo_send :: "ackm \<Rightarrow> QUIC_PN \<Rightarrow> bool \<times> ackm" where
  "demo_send a pn = ossl_ackm_on_tx_packet (\<lambda>_. True) 100 a (demo_tx pn)"

definition demo_sent :: ackm where
  "demo_sent = snd (demo_send (snd (demo_send (snd (demo_send demo_start 0)) 2)) 4)"

text \<open>The peer acknowledges a number between those that were sent.\<close>

definition demo_gap :: ack_frame where
  "demo_gap = demo_ack\<lparr>ack_ranges := [\<lparr>ur_start = 3, ur_end = 3\<rparr>]\<rparr>"

definition demo_skipped :: ackm where
  "demo_skipped = snd (ossl_ackm_on_rx_ack_frame (\<lambda>_. True) 200 200 200 demo_sent demo_gap QUIC_PN_SPACE_APP)"

definition demo_received :: ackm where
  "demo_received = snd (the (ossl_ackm_on_rx_packet (\<lambda>_. True) demo_start (demo_rx 5)))"

definition demo_framed :: ackm where
  "demo_framed = snd (ossl_ackm_get_ack_frame 150 demo_received QUIC_PN_SPACE_APP)"

definition demo_waiting :: ackm where
  "demo_waiting = snd (the (ossl_ackm_on_rx_packet (\<lambda>_. True) demo_framed (demo_rx 6)))"

abbreviation demo_tx_ops :: "(ackm_op \<times> bool) list" where
  "demo_tx_ops \<equiv> [(Tx (demo_tx 0), True), (Tx (demo_tx 2), True), (Tx (demo_tx 4), True)]"

abbreviation demo_rx_ops :: "(ackm_op \<times> bool) list" where
  "demo_rx_ops \<equiv> [(Rx (demo_rx 5), True), (Get_ack QUIC_PN_SPACE_APP, True)]"

lemma demo_new: "ossl_ackm_new (\<lambda>_. True) ossl_statm_init False = Some demo_start"
proof -
  have "ossl_ackm_new (\<lambda>_. True) ossl_statm_init False \<noteq> None"
    by code_simp
  then show ?thesis
    by (auto simp: demo_start_def)
qed

lemma demo_send_step:
  assumes "ackm_run demo_start ops a" "fst (demo_send a pn)" "ossl_quic_pn_valid pn"
    "length (th_packets (tx_history a QUIC_PN_SPACE_APP)) \<le> 2" "\<not> discarded a QUIC_PN_SPACE_APP"
  shows "ackm_run demo_start (ops @ [(Tx (demo_tx pn), True)]) (snd (demo_send a pn))"
proof (rule run_step [OF assms(1) step_tx])
  show "ossl_ackm_on_tx_packet (\<lambda>_. True) 100 a (demo_tx pn) = (True, snd (demo_send a pn))"
    using assms(2) by (simp add: demo_send_def prod_eq_iff)
qed (use assms(3-5) in \<open>simp_all add: demo_tx_def LH_MAX_ITEMS_def\<close>)

lemma demo_sent_run: "ackm_run demo_start demo_tx_ops demo_sent"
proof -
  let ?a = "snd (demo_send demo_start 0)"
  have "ackm_run demo_start ([] @ [(Tx (demo_tx 0), True)]) ?a"
    by (rule demo_send_step [OF run_start]; code_simp)
  then have "ackm_run demo_start (([] @ [(Tx (demo_tx 0), True)]) @ [(Tx (demo_tx 2), True)]) (snd (demo_send ?a 2))"
    by (rule demo_send_step; code_simp)
  then have "ackm_run demo_start ((([] @ [(Tx (demo_tx 0), True)]) @ [(Tx (demo_tx 2), True)]) @ [(Tx (demo_tx 4), True)])
      (snd (demo_send (snd (demo_send ?a 2)) 4))"
    by (rule demo_send_step; code_simp)
  then show ?thesis
    by (simp add: demo_sent_def)
qed

lemma demo_sent_live: "\<not> discarded demo_sent QUIC_PN_SPACE_APP"
  by code_simp

lemma demo_ack_ok: "ack_ranges_ok (ack_ranges demo_ack)"
  by code_simp

lemma demo_skipped_step:
  "ossl_ackm_on_rx_ack_frame (\<lambda>_. True) 200 200 200 demo_sent demo_gap QUIC_PN_SPACE_APP = (True, demo_skipped)"
proof -
  have "fst (ossl_ackm_on_rx_ack_frame (\<lambda>_. True) 200 200 200 demo_sent demo_gap QUIC_PN_SPACE_APP)"
    by code_simp
  then show ?thesis
    by (simp add: demo_skipped_def prod_eq_iff)
qed

lemma demo_skipped_run: "ackm_run demo_start (demo_tx_ops @ [(Rx_ack demo_gap QUIC_PN_SPACE_APP, True)]) demo_skipped"
proof -
  have "ack_ranges_ok (ack_ranges demo_gap)"
    by code_simp
  then show ?thesis
    by (rule run_step [OF demo_sent_run step_rx_ack [OF demo_sent_live _ demo_skipped_step]])
qed

lemma demo_skipped_state:
  "\<not> discarded demo_skipped QUIC_PN_SPACE_APP" "largest_acked_pkt demo_skipped QUIC_PN_SPACE_APP = 3"
  "statm demo_skipped = ossl_statm_init"
  "th_packets (tx_history demo_skipped QUIC_PN_SPACE_APP) = [demo_tx 0, demo_tx 2, demo_tx 4]"
  by code_simp+

lemma demo_sent_state:
  "th_packets (tx_history demo_sent QUIC_PN_SPACE_APP) = [demo_tx 0, demo_tx 2, demo_tx 4]"
  "outstanding demo_sent = [demo_tx 0, demo_tx 2, demo_tx 4]" "bytes_in_flight demo_sent = 3600"
  by code_simp+

lemma demo_received_step: "ossl_ackm_on_rx_packet (\<lambda>_. True) demo_start (demo_rx 5) = Some (True, demo_received)"
proof -
  have "map_option fst (ossl_ackm_on_rx_packet (\<lambda>_. True) demo_start (demo_rx 5)) = Some True"
    by code_simp
  then show ?thesis
    by (auto simp: demo_received_def)
qed

lemma demo_received_run: "ackm_run demo_start ([] @ [(Rx (demo_rx 5), True)]) demo_received"
proof (rule run_step [OF run_start step_rx [OF _ _ demo_received_step]])
  show "\<not> discarded demo_start (rp_pkt_space (demo_rx 5))" "ossl_quic_pn_valid (rp_pkt_num (demo_rx 5))"
    by code_simp+
qed

lemma demo_received_live: "\<not> discarded demo_received QUIC_PN_SPACE_APP"
  by code_simp

lemma demo_received_state: "rh_set (rx_history demo_received QUIC_PN_SPACE_APP) = [\<lparr>ur_start = 5, ur_end = 5\<rparr>]"
  by code_simp

lemma demo_framed_run: "ackm_run demo_start demo_rx_ops demo_framed"
proof -
  have "ossl_ackm_get_ack_frame 150 demo_received QUIC_PN_SPACE_APP =
      (fst (ossl_ackm_get_ack_frame 150 demo_received QUIC_PN_SPACE_APP), demo_framed)"
    by (simp add: demo_framed_def)
  then show ?thesis
    using run_step [OF demo_received_run step_get_ack [OF demo_received_live]] by simp
qed

lemma demo_framed_state:
  "\<not> discarded demo_framed QUIC_PN_SPACE_APP" "ossl_ackm_is_rx_pn_processable demo_framed 6 QUIC_PN_SPACE_APP"
  "tx_max_ack_delay demo_framed = 25000000"
  by code_simp+

lemma demo_waiting_step: "ackm_step demo_framed (Rx (demo_rx 6)) True demo_waiting"
proof -
  have "map_option fst (ossl_ackm_on_rx_packet (\<lambda>_. True) demo_framed (demo_rx 6)) = Some True"
    by code_simp
  then have "ossl_ackm_on_rx_packet (\<lambda>_. True) demo_framed (demo_rx 6) = Some (True, demo_waiting)"
    by (auto simp: demo_waiting_def)
  moreover have "\<not> discarded demo_framed (rp_pkt_space (demo_rx 6))" "ossl_quic_pn_valid (rp_pkt_num (demo_rx 6))"
    by code_simp+
  ultimately show ?thesis
    by (intro step_rx)
qed

lemma demo_waiting_state:
  "\<not> ossl_ackm_is_ack_desired 200 demo_waiting QUIC_PN_SPACE_APP"
  by code_simp

end
