(* ===== verification/Spec2Isabelle.thy ===== *)
theory Spec2Isabelle
  imports Slh_Properties Ossl_Time Uint_Set Lhash Ackm_Example
begin

text \<open>
  Verification library of QudoSSL: the byte-level infrastructure of OpenSSL 3.5.7 under
  \<open>openssl/\<close> and the post-quantum algorithms the distribution is built around.
\<close>

end
